(* ===== verification/Kv_Prelude.thy ===== *)
theory Kv_Prelude
  imports Main "HOL-Library.Sublist"
begin

text \<open>
  Shared vocabulary of the development: C++ \<^verbatim>\<open>std::string\<close> values as byte lists, the string
  primitives the sources use (\<^verbatim>\<open>find\<close>, \<^verbatim>\<open>substr\<close>, \<^verbatim>\<open>erase\<close>, \<^verbatim>\<open>std::to_string\<close>,
  \<^verbatim>\<open>std::stoull\<close>, \<^verbatim>\<open>isdigit\<close>), and the generic facts about them that the component
  theories use. A \<^verbatim>\<open>std::string\<close> holds bytes, and so does an Isabelle \<^typ>\<open>string\<close>: a
  \<^typ>\<open>char\<close> is one of 256 byte values. Container sizes (\<^verbatim>\<open>size_t\<close>) are \<^typ>\<open>nat\<close>; a string
  that fits into memory never gets near \<open>2 ^ 64\<close>.

  The collections \<open>codec_simps\<close> (facts that evaluate encoders and parsers) and \<open>inv_intros\<close>
  (preservation of component invariants) are filled by the components.
\<close>

named_theorems codec_simps \<open>evaluation of encoders, tokenisers and parsers\<close>
named_theorems inv_intros \<open>preservation of component invariants\<close>

type_synonym bytes = string

text \<open>A thrown exception, with its \<^verbatim>\<open>what()\<close> string.\<close>

datatype exn = Runtime_error (what: bytes) | Out_of_range (what: bytes) | Invalid_argument (what: bytes)

abbreviation LF :: char where "LF \<equiv> CHR 0x0A"
abbreviation CR :: char where "CR \<equiv> CHR 0x0D"
abbreviation SP :: char where "SP \<equiv> CHR '' ''"

section \<open>Searching\<close>

text \<open>\<^verbatim>\<open>s.find(c)\<close>: the index of the first occurrence, \<^const>\<open>None\<close> for \<^verbatim>\<open>npos\<close>.\<close>

fun find_char :: "char \<Rightarrow> bytes \<Rightarrow> nat option" where
  "find_char c [] = None"
| "find_char c (x # xs) = (if x = c then Some 0 else map_option Suc (find_char c xs))"

lemma find_char_None [simp]: "find_char c s = None \<longleftrightarrow> c \<notin> set s"
  by (induction s) auto

lemma find_char_notin [simp]: "c \<notin> set s \<Longrightarrow> find_char c s = None"
  by simp

lemma find_char_first [simp]: "c \<notin> set p \<Longrightarrow> find_char c (p @ c # r) = Some (length p)"
  by (induction p) auto

lemma find_char_SomeD:
  "find_char c s = Some n \<Longrightarrow> n < length s \<and> c \<notin> set (take n s) \<and> s = take n s @ c # drop (Suc n) s"
  by (induction s arbitrary: n) (auto split: if_splits)

lemma find_char_split:
  assumes "find_char c s = Some n"
  obtains p r where "s = p @ c # r" "c \<notin> set p" "n = length p"
  using find_char_SomeD [OF assms] that [of "take n s" "drop (Suc n) s"] by simp

lemma find_char_append:
  "find_char c (a @ b) =
     (case find_char c a of Some n \<Rightarrow> Some n
      | None \<Rightarrow> map_option (\<lambda>n. length a + n) (find_char c b))"
proof (induction a)
  case Nil
  show ?case by (cases "find_char c b") simp_all
next
  case (Cons x xs)
  then show ?case by (cases "find_char c xs"; cases "find_char c b") simp_all
qed

text \<open>\<^verbatim>\<open>s.rfind(c)\<close>: the index of the last occurrence.\<close>

definition rfind_char :: "char \<Rightarrow> bytes \<Rightarrow> nat option" where
  "rfind_char c s = map_option (\<lambda>n. length s - 1 - n) (find_char c (rev s))"

lemma rfind_char_None [simp]: "rfind_char c s = None \<longleftrightarrow> c \<notin> set s"
  by (simp add: rfind_char_def)

lemma rfind_char_last [simp]: "c \<notin> set r \<Longrightarrow> rfind_char c (p @ c # r) = Some (length p)"
  by (simp add: rfind_char_def)

section \<open>Decimal numbers\<close>

lemma of_char_less: "(of_char c :: nat) < 256"
proof -
  have "(of_char c :: nat) mod 256 < 256" by simp
  then show ?thesis by (simp only: of_char_mod_256)
qed

definition digit_char :: "nat \<Rightarrow> char" where
  "digit_char d = char_of (48 + d)"

text \<open>\<^verbatim>\<open>std::isdigit\<close> in the C locale, on a byte read as \<^verbatim>\<open>unsigned char\<close>.\<close>

definition isdigit :: "char \<Rightarrow> bool" where
  "isdigit c \<longleftrightarrow> 48 \<le> (of_char c :: nat) \<and> (of_char c :: nat) \<le> 57"

text \<open>\<^verbatim>\<open>std::to_string\<close> of an unsigned number.\<close>

fun to_string :: "nat \<Rightarrow> bytes" where
  "to_string n = (if n < 10 then [digit_char n] else to_string (n div 10) @ [digit_char (n mod 10)])"

declare to_string.simps [simp del]

text \<open>\<^verbatim>\<open>std::stoull\<close> on a string of digits.\<close>

definition stoull :: "bytes \<Rightarrow> nat" where
  "stoull s = foldl (\<lambda>n c. 10 * n + (of_char c - 48)) 0 s"

lemma of_digit_char [simp]: "d < 10 \<Longrightarrow> (of_char (digit_char d) :: nat) = 48 + d"
  by (simp add: digit_char_def)

lemma digit_chars [simp]:
  "digit_char 0 = CHR ''0''" "digit_char 1 = CHR ''1''" "digit_char (Suc 0) = CHR ''1''"
  "digit_char 2 = CHR ''2''" "digit_char 3 = CHR ''3''" "digit_char 4 = CHR ''4''"
  "digit_char 5 = CHR ''5''" "digit_char 6 = CHR ''6''" "digit_char 7 = CHR ''7''"
  "digit_char 8 = CHR ''8''" "digit_char 9 = CHR ''9''"
  by code_simp+

lemmas digit_chars_Suc [simp] = digit_chars(4-) [unfolded eval_nat_numeral BitM.simps One_nat_def]

lemma isdigit_digit_char [simp]: "d < 10 \<Longrightarrow> isdigit (digit_char d)"
  by (simp add: isdigit_def)

lemma isdigit_not_special: "isdigit c \<Longrightarrow> c \<noteq> SP \<and> c \<noteq> LF \<and> c \<noteq> CR"
  by (auto simp: isdigit_def)

lemma to_string_small: "n < 10 \<Longrightarrow> to_string n = [digit_char n]"
  by (subst to_string.simps) simp

lemma to_string_big: "\<not> n < 10 \<Longrightarrow> to_string n = to_string (n div 10) @ [digit_char (n mod 10)]"
  by (subst to_string.simps) simp

lemma to_string_nonempty [simp]: "to_string n \<noteq> []"
  by (subst to_string.simps) simp

lemma to_string_digits: "c \<in> set (to_string n) \<Longrightarrow> isdigit c"
proof (induction n rule: to_string.induct)
  case (1 n)
  then show ?case
    by (cases "n < 10") (auto simp: to_string_small to_string_big)
qed

lemma to_string_no_special [simp]:
  "SP \<notin> set (to_string n)" "LF \<notin> set (to_string n)" "CR \<notin> set (to_string n)"
  using to_string_digits isdigit_not_special by blast+

lemma stoull_to_string [simp]: "stoull (to_string n) = n"
proof (induction n rule: to_string.induct)
  case (1 n)
  show ?case
  proof (cases "n < 10")
    case True
    then show ?thesis by (simp add: to_string_small stoull_def)
  next
    case False
    with 1 have "stoull (to_string (n div 10)) = n div 10" by simp
    with False show ?thesis by (simp add: to_string_big stoull_def)
  qed
qed

lemma to_string_inject [simp]: "to_string m = to_string n \<longleftrightarrow> m = n"
  by (metis stoull_to_string)

lemma length_to_string_le: "n < 10 ^ k \<Longrightarrow> 0 < k \<Longrightarrow> length (to_string n) \<le> k"
proof (induction n arbitrary: k rule: to_string.induct)
  case (1 n)
  show ?case
  proof (cases "n < 10")
    case True
    with 1 show ?thesis by (simp add: to_string_small)
  next
    case False
    with "1.prems" obtain j where j: "k = Suc j" "0 < j"
      by (cases k; cases "k - 1") auto
    with "1.prems" have "n div 10 < 10 ^ j" by (simp add: less_mult_imp_div_less mult.commute)
    with 1 False j show ?thesis by (simp add: to_string_big)
  qed
qed

lemmas to_string_eval = to_string_small to_string_big

section \<open>Lists\<close>

lemma not_in_butlast: "x \<notin> set xs \<Longrightarrow> x \<notin> set (butlast xs)"
  by (meson in_set_butlastD)

lemma strict_prefix_append_cases:
  assumes "strict_prefix p (a @ b)"
  obtains "strict_prefix p a" | q where "p = a @ q" "strict_prefix q b"
proof (cases "strict_prefix p a")
  case True
  then show ?thesis by (rule that(1))
next
  case False
  with assms have "\<exists>q. p = a @ q \<and> strict_prefix q b"
    by (auto simp: strict_prefix_def prefix_append)
  then show ?thesis using that(2) by blast
qed

lemma concat_prefix_split:
  assumes "prefix p (concat (map f ms))"
  obtains ms1 ms2 q where "ms = ms1 @ ms2" "p = concat (map f ms1) @ q"
    and "ms2 = [] \<and> q = [] \<or> ms2 \<noteq> [] \<and> strict_prefix q (f (hd ms2))"
  using assms
proof (induction ms arbitrary: p thesis)
  case Nil
  then show ?case by simp
next
  case (Cons m ms)
  show ?case
  proof (cases "strict_prefix p (f m)")
    case True
    with Cons.prems(1) [of "[]" "m # ms" p] show ?thesis by simp
  next
    case False
    with Cons.prems(2) obtain p' where p': "p = f m @ p'" "prefix p' (concat (map f ms))"
      by (auto simp: prefix_append strict_prefix_def)
    from Cons.IH [OF _ p'(2)] obtain ms1 ms2 q where
      "ms = ms1 @ ms2" "p' = concat (map f ms1) @ q"
      "ms2 = [] \<and> q = [] \<or> ms2 \<noteq> [] \<and> strict_prefix q (f (hd ms2))" by metis
    with p'(1) Cons.prems(1) [of "m # ms1" ms2 q] show ?thesis by simp
  qed
qed

section \<open>Collecting distinct elements in order of first appearance\<close>

definition collect :: "'a list \<Rightarrow> 'a list \<Rightarrow> 'a list" where
  "collect r xs = foldl (\<lambda>r x. if x \<in> set r then r else r @ [x]) r xs"

lemma collect_simps [simp]:
  "collect r [] = r"
  "collect r (x # xs) = collect (if x \<in> set r then r else r @ [x]) xs"
  "collect r (xs @ ys) = collect (collect r xs) ys"
  by (simp_all add: collect_def)

lemma set_collect [simp]: "set (collect r xs) = set r \<union> set xs"
  by (induction xs arbitrary: r) auto

lemma distinct_collect [simp]: "distinct r \<Longrightarrow> distinct (collect r xs)"
  by (induction xs arbitrary: r) auto

lemma prefix_collect: "prefix r (collect r xs)"
  by (induction xs arbitrary: r) (auto intro: append_prefixD)

lemma take_collect: "length r = n \<Longrightarrow> take n (collect r xs) = r"
  using prefix_collect [of r xs] by (auto simp: prefix_def)

lemma take_collect_append:
  "n \<le> length (collect r xs) \<Longrightarrow> take n (collect r (xs @ ys)) = take n (collect r xs)"
  using prefix_collect [of "collect r xs" ys] by (auto simp: prefix_def)

lemma collect_absorb: "set xs \<subseteq> set r \<Longrightarrow> collect r xs = r"
  by (induction xs arbitrary: r) auto

lemma filter_collect: "filter P (collect r xs) = collect (filter P r) (filter P xs)"
  by (induction xs arbitrary: r) auto

lemma length_collect: "distinct r \<Longrightarrow> length (collect r xs) = card (set r \<union> set xs)"
  using distinct_card [of "collect r xs"] by simp

lemma hd_collect: "xs \<noteq> [] \<Longrightarrow> collect [] xs \<noteq> [] \<and> hd (collect [] xs) = hd xs"
  using prefix_collect [of "[hd xs]" "tl xs"] by (cases xs) (auto simp: prefix_def)

end
