(* ===== verification/Framing.thy ===== *)
theory Framing
  imports Kv_Prelude
begin

text \<open>
  The contract between a stream parser and the loops that drain it. Both parsers of
  \<^verbatim>\<open>src/common/protocol.hpp\<close> (\<^verbatim>\<open>IncrementalParser\<close> for requests, \<^verbatim>\<open>ResponseParser\<close> for
  responses) keep the same two fields and answer with the same \<^verbatim>\<open>ParseStatus\<close>, so the
  record and the status are declared here once. The locale \<open>framing\<close> states what a codec has to
  promise, and derives from it that the way TCP cuts a stream into segments does not matter.
\<close>

datatype ParseStatus = Incomplete | Complete | ParseError

record parser =
  buffer :: bytes
  error_message :: bytes

definition new_parser :: parser where
  "new_parser = \<lparr>buffer = [], error_message = []\<rparr>"

lemma new_parser_simps [simp]: "buffer new_parser = []" "error_message new_parser = []"
  by (simp_all add: new_parser_def)

text \<open>\<^verbatim>\<open>feed\<close>: append a received chunk.\<close>

definition feed :: "parser \<Rightarrow> bytes \<Rightarrow> parser" where
  "feed p data = p\<lparr>buffer := buffer p @ data\<rparr>"

lemma buffer_feed [simp]: "buffer (feed p d) = buffer p @ d"
  by (simp add: feed_def)

lemma buffer_same [simp]: "buffer p = b \<Longrightarrow> p\<lparr>buffer := b\<rparr> = p"
  by (cases p) simp

lemma feed_feed [simp]: "feed (feed p a) b = feed p (a @ b)"
  by (simp add: feed_def)

lemma error_message_feed [simp]: "error_message (feed p d) = error_message p"
  by (simp add: feed_def)

section \<open>Outcomes of one parse\<close>

text \<open>
  The four ways a parser can return: it waits for more bytes and changes nothing; it reports an
  unterminated line longer than \<open>limit\<close> and drops nothing; it rejects \<open>n\<close> bytes; or it accepts a
  well-formed message from the first \<open>n\<close> bytes.
\<close>

inductive parse_outcome ::
  "('m \<Rightarrow> bool) \<Rightarrow> nat \<Rightarrow> parser \<Rightarrow> 'm \<Rightarrow> ParseStatus \<times> parser \<times> 'm \<Rightarrow> bool"
  for good limit p out where
  incomplete: "parse_outcome good limit p out (Incomplete, p, out)"
| overlong: "LF \<notin> set (buffer p) \<Longrightarrow> limit < length (buffer p) \<Longrightarrow> LF \<notin> set msg
    \<Longrightarrow> parse_outcome good limit p out (ParseError, p\<lparr>error_message := msg\<rparr>, out)"
| rejected: "0 < n \<Longrightarrow> n \<le> length (buffer p) \<Longrightarrow> LF \<in> set (buffer p) \<Longrightarrow> LF \<notin> set msg
    \<Longrightarrow> parse_outcome good limit p out (ParseError, \<lparr>buffer = drop n (buffer p), error_message = msg\<rparr>, out)"
| accepted: "0 < n \<Longrightarrow> n \<le> length (buffer p) \<Longrightarrow> LF \<in> set (buffer p) \<Longrightarrow> good m
    \<Longrightarrow> parse_outcome good limit p out (Complete, p\<lparr>buffer := drop n (buffer p)\<rparr>, m)"

lemma outcome_if:
  "(b \<Longrightarrow> parse_outcome good limit p out x) \<Longrightarrow> (\<not> b \<Longrightarrow> parse_outcome good limit p out y)
    \<Longrightarrow> parse_outcome good limit p out (if b then x else y)"
  by simp

lemmas outcome_intros = outcome_if parse_outcome.incomplete parse_outcome.rejected parse_outcome.accepted

inductive_cases outcome_IncompleteE: "parse_outcome good limit p out (Incomplete, q, r)"
inductive_cases outcome_CompleteE: "parse_outcome good limit p out (Complete, q, r)"
inductive_cases outcome_ErrorE: "parse_outcome good limit p out (ParseError, q, r)"

section \<open>Draining a parser\<close>

text \<open>
  What a \<^verbatim>\<open>while ((status = parser.try_parse(req)) != Incomplete)\<close> loop sees: a sequence of
  events, and the parser and output object it stops with. \<open>drains\<close> is the big-step relation of
  that loop; a parser that answers with an error for ever is related to nothing.
\<close>

datatype 'm parsed = Parsed 'm | Malformed bytes

inductive drains ::
  "(parser \<Rightarrow> 'm \<Rightarrow> ParseStatus \<times> parser \<times> 'm) \<Rightarrow> parser \<Rightarrow> 'm \<Rightarrow> 'm parsed list \<Rightarrow> parser \<Rightarrow> 'm \<Rightarrow> bool"
  for try_parse where
  stop: "try_parse p out = (Incomplete, p', out') \<Longrightarrow> drains try_parse p out [] p' out'"
| frame: "try_parse p out = (Complete, p', out') \<Longrightarrow> drains try_parse p' out' es q r
    \<Longrightarrow> drains try_parse p out (Parsed out' # es) q r"
| malformed: "try_parse p out = (ParseError, p', out') \<Longrightarrow> drains try_parse p' out' es q r
    \<Longrightarrow> drains try_parse p out (Malformed (error_message p') # es) q r"

inductive_cases drains_IncompleteE: "drains tp p out [] q r"
inductive_cases drains_ConsE: "drains tp p out (e # es) q r"

lemma drains_deterministic:
  "drains tp p out es q r \<Longrightarrow> drains tp p out es' q' r' \<Longrightarrow> es = es' \<and> q = q' \<and> r = r'"
proof (induction arbitrary: es' q' r' rule: drains.induct)
  case (stop p out p' out')
  from stop.prems stop.hyps show ?case by (cases rule: drains.cases) simp_all
next
  case (frame p out p' out' es q r)
  from frame.prems obtain es'' where "es' = Parsed out' # es''" "drains tp p' out' es'' q' r'"
    using frame.hyps(1) by (cases rule: drains.cases) simp_all
  with frame.IH show ?case by blast
next
  case (malformed p out p' out' es q r)
  from malformed.prems obtain es''
    where "es' = Malformed (error_message p') # es''" "drains tp p' out' es'' q' r'"
    using malformed.hyps(1) by (cases rule: drains.cases) simp_all
  with malformed.IH show ?case by blast
qed

text \<open>Reading a sequence of chunks, draining after every one of them.\<close>

inductive receives ::
  "(parser \<Rightarrow> 'm \<Rightarrow> ParseStatus \<times> parser \<times> 'm) \<Rightarrow> parser \<Rightarrow> 'm \<Rightarrow> bytes list \<Rightarrow> 'm parsed list \<Rightarrow> parser \<Rightarrow> 'm \<Rightarrow> bool"
  for try_parse where
  none: "receives try_parse p out [] [] p out"
| chunk: "drains try_parse (feed p c) out es p' out' \<Longrightarrow> receives try_parse p' out' cs es' q r
    \<Longrightarrow> receives try_parse p out (c # cs) (es @ es') q r"

section \<open>The codec contract\<close>

text \<open>
  \<open>settle m out\<close> is what the output object holds after message \<open>m\<close> was parsed into it: the
  request parser overwrites every field, the response parser only the fields its message has.
\<close>

locale framing =
  fixes try_parse :: "parser \<Rightarrow> 'm \<Rightarrow> ParseStatus \<times> parser \<times> 'm"
    and encode :: "'m \<Rightarrow> bytes"
    and wf_msg :: "'m \<Rightarrow> bool"
    and settle :: "'m \<Rightarrow> 'm \<Rightarrow> 'm"
  assumes encode_nonempty: "wf_msg m \<Longrightarrow> encode m \<noteq> []"
    and parse_empty: "buffer p = [] \<Longrightarrow> try_parse p out = (Incomplete, p, out)"
    and parse_partial:
      "wf_msg m \<Longrightarrow> strict_prefix (buffer p) (encode m) \<Longrightarrow> try_parse p out = (Incomplete, p, out)"
    and parse_frame:
      "wf_msg m \<Longrightarrow> buffer p = encode m @ rest \<Longrightarrow> try_parse p out = (Complete, p\<lparr>buffer := rest\<rparr>, settle m out)"
begin

primrec settled :: "'m list \<Rightarrow> 'm \<Rightarrow> 'm parsed list" where
  "settled [] out = []"
| "settled (m # ms) out = Parsed (settle m out) # settled ms (settle m out)"

primrec settle_all :: "'m list \<Rightarrow> 'm \<Rightarrow> 'm" where
  "settle_all [] out = out"
| "settle_all (m # ms) out = settle_all ms (settle m out)"

lemma settled_append: "settled (ms @ ns) out = settled ms out @ settled ns (settle_all ms out)"
  by (induction ms arbitrary: out) auto

lemma settle_all_append: "settle_all (ms @ ns) out = settle_all ns (settle_all ms out)"
  by (induction ms arbitrary: out) auto

lemma drains_frames:
  assumes "list_all wf_msg ms" and "try_parse (p\<lparr>buffer := q\<rparr>) (settle_all ms out) = (Incomplete, p\<lparr>buffer := q\<rparr>, settle_all ms out)"
    and "buffer p = concat (map encode ms) @ q"
  shows "drains try_parse p out (settled ms out) (p\<lparr>buffer := q\<rparr>) (settle_all ms out)"
  using assms
proof (induction ms arbitrary: p out)
  case Nil
  then have "try_parse p out = (Incomplete, p, out)" "p\<lparr>buffer := q\<rparr> = p" by simp_all
  from drains.stop [of try_parse, OF this(1)] this(2) show ?case by simp
next
  case (Cons m ms)
  let ?p = "p\<lparr>buffer := concat (map encode ms) @ q\<rparr>"
  from Cons.prems have t: "try_parse p out = (Complete, ?p, settle m out)"
    by (intro parse_frame) simp_all
  from Cons.IH [of ?p "settle m out"] Cons.prems
  have "drains try_parse ?p (settle m out) (settled ms (settle m out)) (p\<lparr>buffer := q\<rparr>)
      (settle_all ms (settle m out))"
    by simp
  from drains.frame [of try_parse, OF t this] show ?case by simp
qed

lemma receives_any_segmentation_aux:
  assumes "list_all wf_msg ms" and "buffer p @ concat cs = concat (map encode ms)"
    and "ms = [] \<and> buffer p = [] \<or> ms \<noteq> [] \<and> strict_prefix (buffer p) (encode (hd ms))
         \<or> cs \<noteq> []"
  shows "receives try_parse p out cs (settled ms out) (p\<lparr>buffer := []\<rparr>) (settle_all ms out)"
  using assms
proof (induction cs arbitrary: p ms out)
  case Nil
  then have "ms = [] \<and> buffer p = []"
    using prefix_length_le [of "encode (hd ms)" "buffer p"] prefix_length_less [of "buffer p" "encode (hd ms)"]
    by (cases ms) simp_all
  then show ?case by (simp add: receives.none)
next
  case (Cons c cs)
  from Cons.prems(2) have "prefix (buffer p @ c) (concat (map encode ms))"
    by (metis append.assoc concat.simps(2) prefixI)
  then obtain ms1 ms2 q where split: "ms = ms1 @ ms2" "buffer p @ c = concat (map encode ms1) @ q"
    and q: "ms2 = [] \<and> q = [] \<or> ms2 \<noteq> [] \<and> strict_prefix q (encode (hd ms2))"
    by (rule concat_prefix_split)
  let ?p = "(feed p c)\<lparr>buffer := q\<rparr>" and ?out = "settle_all ms1 out"
  have "try_parse ?p ?out = (Incomplete, ?p, ?out)"
  proof (cases "ms2 = []")
    case True
    with q show ?thesis by (simp add: parse_empty)
  next
    case False
    with Cons.prems(1) split(1) have "wf_msg (hd ms2)" by (simp add: list_all_iff)
    with q False show ?thesis by (simp add: parse_partial)
  qed
  then have d: "drains try_parse (feed p c) out (settled ms1 out) ?p ?out"
    using Cons.prems(1) split by (intro drains_frames) simp_all
  from Cons.prems(2) have "(buffer p @ c) @ concat cs = concat (map encode ms)" by simp
  then have rest: "q @ concat cs = concat (map encode ms2)" unfolding split by simp
  have "receives try_parse ?p ?out cs (settled ms2 ?out) (?p\<lparr>buffer := []\<rparr>) (settle_all ms2 ?out)"
  proof (rule Cons.IH)
    show "list_all wf_msg ms2" using Cons.prems(1) split(1) by simp
    show "buffer ?p @ concat cs = concat (map encode ms2)" using rest by simp
    show "ms2 = [] \<and> buffer ?p = [] \<or> ms2 \<noteq> [] \<and> strict_prefix (buffer ?p) (encode (hd ms2)) \<or> cs \<noteq> []"
      using q by auto
  qed
  from receives.chunk [OF d this]
  have "receives try_parse p out (c # cs) (settled ms out) (?p\<lparr>buffer := []\<rparr>) (settle_all ms out)"
    by (simp only: split(1) settled_append settle_all_append)
  moreover have "?p\<lparr>buffer := []\<rparr> = p\<lparr>buffer := []\<rparr>" by (simp add: feed_def)
  ultimately show ?case by (simp only:)
qed

text \<open>
  However the bytes of a message sequence are cut into chunks, the parser delivers exactly these
  messages, in order, and is left with an empty buffer.
\<close>

lemma receives_any_segmentation:
  assumes "list_all wf_msg ms" and "concat cs = concat (map encode ms)" and "buffer p = []"
  shows "receives try_parse p out cs (settled ms out) p (settle_all ms out)"
proof -
  have "ms = [] \<or> strict_prefix (buffer p) (encode (hd ms))"
    using assms(1,3) encode_nonempty [of "hd ms"] by (cases ms) (auto simp: strict_prefix_def)
  then have "receives try_parse p out cs (settled ms out) (p\<lparr>buffer := []\<rparr>) (settle_all ms out)"
    using assms by (intro receives_any_segmentation_aux) auto
  with assms(3) show ?thesis by simp
qed

end

end
