(* ===== verification/Protocol.thy ===== *)
theory Protocol
  imports Framing
begin

text \<open>
  The wire protocol: \<^verbatim>\<open>src/common/protocol.hpp\<close> and the encoders and parsers of
  \<^verbatim>\<open>src/common/protocol.cpp\<close> (\<^verbatim>\<open>send_request\<close>, which does I/O, is in \<^verbatim>\<open>Net_Io\<close>). The two
  parsers are functions from the parser object and the caller's output object to the status, the
  parser afterwards and the output object afterwards; a field of the output object that the code
  does not assign keeps its value. The lemmas show that both codecs satisfy the \<open>framing\<close>
  contract, what a parser accepts, what it consumes, and what its error messages can contain.
\<close>

section \<open>Data\<close>

definition kMaxKeyLen :: nat where "kMaxKeyLen = 250"
definition kMaxValueLen :: nat where "kMaxValueLen = 1024 * 1024"

lemmas limit_defs = kMaxKeyLen_def kMaxValueLen_def

datatype Command = Get | Set | Delete | Ping

record Request =
  command :: Command
  key :: bytes
  req_value :: bytes

datatype ResponseType = Value | NotFound | Ok | Deleted | Error | Pong

record Response =
  resp_type :: ResponseType
  resp_value :: bytes
  resp_message :: bytes

type_synonym IncrementalParser = parser
type_synonym ResponseParser = parser

section \<open>Tokens\<close>

definition is_valid_key :: "bytes \<Rightarrow> bool" where
  "is_valid_key k \<longleftrightarrow> \<not> (k = [] \<or> kMaxKeyLen < length k) \<and> list_all (\<lambda>c. \<not> (of_char c :: nat) \<le> 0x20) k"

text \<open>
  The loop of \<^verbatim>\<open>split_spaces\<close> looks for the next space from \<^verbatim>\<open>start\<close>; its state is the part of
  the line from \<^verbatim>\<open>start\<close> on, so \<^verbatim>\<open>start = pos + 1\<close> drops \<^verbatim>\<open>pos + 1\<close> bytes.
\<close>

function split_spaces :: "bytes \<Rightarrow> bytes list" where
  "split_spaces line =
     (case find_char SP line of
        None \<Rightarrow> [line]
      | Some pos \<Rightarrow> take pos line # split_spaces (drop (pos + 1) line))"
  by pat_completeness auto
termination
  by (relation "measure length") (auto dest: find_char_SomeD)

declare split_spaces.simps [simp del]

definition parse_length :: "bytes \<Rightarrow> nat option" where
  "parse_length s =
     (if s = [] \<or> 10 < length s then None
      else if \<not> list_all isdigit s then None
      else if kMaxValueLen < stoull s then None
      else Some (stoull s))"

definition strip_trailing_cr :: "bytes \<Rightarrow> bytes" where
  "strip_trailing_cr line = (if line \<noteq> [] \<and> last line = CR then butlast line else line)"

section \<open>Encoders\<close>

definition encode_request :: "Request \<Rightarrow> bytes" where
  "encode_request req =
     (case command req of
        Get \<Rightarrow> ''GET '' @ key req @ [LF]
      | Delete \<Rightarrow> ''DELETE '' @ key req @ [LF]
      | Set \<Rightarrow> ''SET '' @ key req @ '' '' @ to_string (length (req_value req)) @ [LF] @ req_value req @ [LF]
      | Ping \<Rightarrow> ''PING'' @ [LF])"

definition encode_value_response :: "bytes \<Rightarrow> bytes" where
  "encode_value_response v = ''VALUE '' @ to_string (length v) @ [LF] @ v @ [LF]"

definition encode_not_found_response :: bytes where
  "encode_not_found_response = ''NOT_FOUND'' @ [LF]"

definition encode_ok_response :: bytes where
  "encode_ok_response = ''OK'' @ [LF]"

definition encode_deleted_response :: bytes where
  "encode_deleted_response = ''DELETED'' @ [LF]"

definition encode_error_response :: "bytes \<Rightarrow> bytes" where
  "encode_error_response msg = ''ERROR '' @ msg @ [LF]"

definition encode_pong_response :: bytes where
  "encode_pong_response = ''PONG'' @ [LF]"

lemmas response_encoders =
  encode_value_response_def encode_not_found_response_def encode_ok_response_def
  encode_deleted_response_def encode_error_response_def encode_pong_response_def

section \<open>Parsers\<close>

definition kMaxCommandLineLen :: nat where
  "kMaxCommandLineLen = 4 + kMaxKeyLen + 1 + 10"

definition try_parse_request ::
  "IncrementalParser \<Rightarrow> Request \<Rightarrow> ParseStatus \<times> IncrementalParser \<times> Request" where
  "try_parse_request p out =
    (case find_char LF (buffer p) of
       None \<Rightarrow>
         if kMaxCommandLineLen < length (buffer p)
         then (ParseError, p\<lparr>error_message := ''command line too long''\<rparr>, out)
         else (Incomplete, p, out)
     | Some line_end \<Rightarrow>
        (let line = strip_trailing_cr (take line_end (buffer p));
             tokens = split_spaces line;
             reject = (\<lambda>msg n. (ParseError, \<lparr>buffer = drop n (buffer p), error_message = msg\<rparr>, out));
             accept = (\<lambda>req n. (Complete, p\<lparr>buffer := drop n (buffer p)\<rparr>, req))
         in if tokens = [] \<or> tokens ! 0 = [] then reject ''empty command'' (line_end + 1)
            else
              let cmd = tokens ! 0 in
              if cmd = ''GET'' \<or> cmd = ''DELETE'' then
                if length tokens \<noteq> 2 \<or> \<not> is_valid_key (tokens ! 1)
                then reject (''malformed '' @ cmd @ '' request'') (line_end + 1)
                else accept \<lparr>command = (if cmd = ''GET'' then Get else Delete),
                           key = tokens ! 1, req_value = []\<rparr> (line_end + 1)
              else if cmd = ''PING'' then
                if length tokens \<noteq> 1 then reject ''malformed PING request'' (line_end + 1)
                else accept \<lparr>command = Ping, key = [], req_value = []\<rparr> (line_end + 1)
              else if cmd = ''SET'' then
                if length tokens \<noteq> 3 \<or> \<not> is_valid_key (tokens ! 1) \<or> parse_length (tokens ! 2) = None
                then reject ''malformed SET request'' (line_end + 1)
                else
                  let value_len = the (parse_length (tokens ! 2));
                      value_start = line_end + 1;
                      needed = value_start + value_len + 1 in
                  if length (buffer p) < needed then (Incomplete, p, out)
                  else if buffer p ! (value_start + value_len) \<noteq> LF
                  then reject ''expected newline after value'' needed
                  else accept \<lparr>command = Set, key = tokens ! 1,
                             req_value = take value_len (drop value_start (buffer p))\<rparr> needed
              else reject (''unknown command: '' @ cmd) (line_end + 1)))"

definition kMaxResponseLineLen :: nat where
  "kMaxResponseLineLen = 4096"

definition try_parse_response ::
  "ResponseParser \<Rightarrow> Response \<Rightarrow> ParseStatus \<times> ResponseParser \<times> Response" where
  "try_parse_response p out =
    (case find_char LF (buffer p) of
       None \<Rightarrow>
         if kMaxResponseLineLen < length (buffer p)
         then (ParseError, p\<lparr>error_message := ''response line too long''\<rparr>, out)
         else (Incomplete, p, out)
     | Some line_end \<Rightarrow>
        (let line = strip_trailing_cr (take line_end (buffer p));
             reject = (\<lambda>msg n. (ParseError, \<lparr>buffer = drop n (buffer p), error_message = msg\<rparr>, out));
             accept = (\<lambda>resp n. (Complete, p\<lparr>buffer := drop n (buffer p)\<rparr>, resp))
         in if line = ''OK'' then accept (out\<lparr>resp_type := Ok\<rparr>) (line_end + 1)
            else if line = ''DELETED'' then accept (out\<lparr>resp_type := Deleted\<rparr>) (line_end + 1)
            else if line = ''NOT_FOUND'' then accept (out\<lparr>resp_type := NotFound\<rparr>) (line_end + 1)
            else if line = ''PONG'' then accept (out\<lparr>resp_type := Pong\<rparr>) (line_end + 1)
            else if line = ''ERROR'' \<or> prefix ''ERROR '' line then
              accept (out\<lparr>resp_type := Error, resp_message := (if 6 < length line then drop 6 line else [])\<rparr>)
                (line_end + 1)
            else if prefix ''VALUE '' line then
              (case parse_length (drop 6 line) of
                 None \<Rightarrow> reject ''malformed VALUE response'' (line_end + 1)
               | Some value_len \<Rightarrow>
                   let value_start = line_end + 1;
                       needed = value_start + value_len + 1 in
                   if length (buffer p) < needed then (Incomplete, p, out)
                   else if buffer p ! (value_start + value_len) \<noteq> LF
                   then reject ''expected newline after value'' needed
                   else accept (out\<lparr>resp_type := Value,
                                  resp_value := take value_len (drop value_start (buffer p))\<rparr>) needed)
            else reject (''unknown response: '' @ line) (line_end + 1)))"

section \<open>Tokens: basic facts\<close>

lemma split_spaces_single: "SP \<notin> set a \<Longrightarrow> split_spaces a = [a]"
  by (subst split_spaces.simps) simp

lemma split_spaces_Cons: "SP \<notin> set a \<Longrightarrow> split_spaces (a @ SP # b) = a # split_spaces b"
  by (subst split_spaces.simps) simp

lemma split_spaces_nonempty [simp]: "split_spaces s \<noteq> []"
  by (subst split_spaces.simps) (simp split: option.splits)

lemma split_spaces_bytes: "t \<in> set (split_spaces s) \<Longrightarrow> set t \<subseteq> set s"
proof (induction s rule: split_spaces.induct)
  case (1 s)
  show ?case
  proof (cases "find_char SP s")
    case None
    with "1.prems" show ?thesis by (subst (asm) split_spaces.simps) simp
  next
    case (Some n)
    with "1.prems" have "t = take n s \<or> t \<in> set (split_spaces (drop (n + 1) s))"
      by (subst (asm) split_spaces.simps) simp
    with 1 Some show ?thesis by (auto dest!: in_set_takeD in_set_dropD)
  qed
qed

lemma split_spaces_join:
  "concat (map (\<lambda>t. SP # t) (split_spaces s)) = SP # s"
proof (induction s rule: split_spaces.induct)
  case (1 s)
  show ?case
  proof (cases "find_char SP s")
    case None
    then show ?thesis by (subst split_spaces.simps) simp
  next
    case (Some n)
    with 1 have "concat (map (\<lambda>t. SP # t) (split_spaces (drop (n + 1) s))) = SP # drop (n + 1) s"
      by blast
    with Some show ?thesis
      using find_char_SomeD [OF Some] by (subst split_spaces.simps) simp
  qed
qed

lemma is_valid_key_bytes:
  assumes "is_valid_key k"
  shows "SP \<notin> set k" "LF \<notin> set k" "CR \<notin> set k"
  using assms by (auto simp: is_valid_key_def list_all_iff)

lemma is_valid_key_length: "is_valid_key k \<Longrightarrow> k \<noteq> [] \<and> length k \<le> kMaxKeyLen"
  by (simp add: is_valid_key_def)

lemma strip_trailing_cr_id [simp]: "CR \<notin> set l \<Longrightarrow> strip_trailing_cr l = l"
  using last_in_set by (fastforce simp: strip_trailing_cr_def)

lemma strip_trailing_cr_snoc [simp]: "strip_trailing_cr (l @ [CR]) = l"
  by (simp add: strip_trailing_cr_def)

lemma set_strip_trailing_cr: "set (strip_trailing_cr l) \<subseteq> set l"
  by (auto simp: strip_trailing_cr_def dest: in_set_butlastD)

lemma parse_length_to_string [simp]: "n \<le> kMaxValueLen \<Longrightarrow> parse_length (to_string n) = Some n"
proof -
  assume n: "n \<le> kMaxValueLen"
  then have "length (to_string n) \<le> 10"
    by (intro length_to_string_le) (simp_all add: limit_defs)
  moreover have "list_all isdigit (to_string n)"
    by (simp add: list_all_iff to_string_digits)
  ultimately show ?thesis using n by (simp add: parse_length_def)
qed

lemma parse_length_SomeD: "parse_length s = Some n \<Longrightarrow> n \<le> kMaxValueLen"
  by (auto simp: parse_length_def split: if_splits)

lemma length_to_string_value: "n \<le> kMaxValueLen \<Longrightarrow> length (to_string n) \<le> 7"
  by (rule length_to_string_le) (simp_all add: limit_defs)

section \<open>The request codec\<close>

text \<open>
  The requests a client may send: a valid key, a value within the limit, and the fields a command
  does not use empty (the parser clears them).
\<close>

definition wf_request :: "Request \<Rightarrow> bool" where
  "wf_request req \<longleftrightarrow>
     (case command req of
        Get \<Rightarrow> is_valid_key (key req) \<and> req_value req = []
      | Delete \<Rightarrow> is_valid_key (key req) \<and> req_value req = []
      | Set \<Rightarrow> is_valid_key (key req) \<and> length (req_value req) \<le> kMaxValueLen
      | Ping \<Rightarrow> key req = [] \<and> req_value req = [])"

text \<open>The command line of an encoded request, and what follows it.\<close>

definition request_line :: "Request \<Rightarrow> bytes" where
  "request_line req =
     (case command req of
        Get \<Rightarrow> ''GET'' @ SP # key req
      | Delete \<Rightarrow> ''DELETE'' @ SP # key req
      | Set \<Rightarrow> ''SET'' @ SP # key req @ SP # to_string (length (req_value req))
      | Ping \<Rightarrow> ''PING'')"

definition request_payload :: "Request \<Rightarrow> bytes" where
  "request_payload req = (case command req of Set \<Rightarrow> req_value req @ [LF] | _ \<Rightarrow> [])"

lemma encode_request_line: "encode_request req = request_line req @ LF # request_payload req"
  by (simp add: encode_request_def request_line_def request_payload_def split: Command.splits)

lemma request_line_bytes:
  assumes "wf_request req"
  shows "LF \<notin> set (request_line req)" "CR \<notin> set (request_line req)"
    and "length (request_line req) \<le> kMaxCommandLineLen"
proof -
  show "LF \<notin> set (request_line req)" "CR \<notin> set (request_line req)"
    using assms is_valid_key_bytes [of "key req"]
    by (auto simp: wf_request_def request_line_def split: Command.splits)
  show "length (request_line req) \<le> kMaxCommandLineLen"
    using assms is_valid_key_length [of "key req"] length_to_string_value [of "length (req_value req)"]
    by (auto simp: wf_request_def request_line_def kMaxCommandLineLen_def kMaxKeyLen_def
        split: Command.splits)
qed

lemma request_line_tokens:
  assumes "wf_request req"
  shows "split_spaces (request_line req) =
    (case command req of
       Get \<Rightarrow> [''GET'', key req]
     | Delete \<Rightarrow> [''DELETE'', key req]
     | Set \<Rightarrow> [''SET'', key req, to_string (length (req_value req))]
     | Ping \<Rightarrow> [''PING''])"
  using assms is_valid_key_bytes(1) [of "key req"]
    split_spaces_Cons [of "''GET''"] split_spaces_Cons [of "''DELETE''"] split_spaces_Cons [of "''SET''"]
  by (auto simp: wf_request_def request_line_def split_spaces_single split_spaces_Cons
      split: Command.splits)

lemma try_parse_request_frame:
  assumes "wf_request req" and "buffer p = encode_request req @ rest"
  shows "try_parse_request p out = (Complete, p\<lparr>buffer := rest\<rparr>, req)"
proof -
  have find: "find_char LF (buffer p) = Some (length (request_line req))"
    and buf: "buffer p = request_line req @ LF # request_payload req @ rest"
    using assms request_line_bytes(1) by (simp_all add: encode_request_line)
  have line: "strip_trailing_cr (take (length (request_line req)) (buffer p)) = request_line req"
    using request_line_bytes(2) [OF assms(1)] by (simp add: buf)
  show ?thesis
    using assms(1)
    by (cases "command req")
      (simp_all add: try_parse_request_def find line request_line_tokens [OF assms(1)] Let_def,
       simp_all add: wf_request_def buf request_payload_def nth_append Request.equality)
qed

lemma try_parse_request_short:
  assumes "LF \<notin> set (buffer p)" "length (buffer p) \<le> kMaxCommandLineLen"
  shows "try_parse_request p out = (Incomplete, p, out)"
  using assms by (simp add: try_parse_request_def)

lemma try_parse_request_partial:
  assumes "wf_request req" and "strict_prefix (buffer p) (encode_request req)"
  shows "try_parse_request p out = (Incomplete, p, out)"
  using assms(2) unfolding encode_request_line
proof (cases rule: strict_prefix_append_cases)
  case 1
  with request_line_bytes [OF assms(1)] show ?thesis
    by (intro try_parse_request_short)
      (auto simp: strict_prefix_def prefix_def dest: prefix_length_le)
next
  case (2 q)
  show ?thesis
  proof (cases q)
    case Nil
    with 2 request_line_bytes [OF assms(1)] show ?thesis
      by (intro try_parse_request_short) auto
  next
    case (Cons c q')
    with 2 have buf: "buffer p = request_line req @ LF # q'" "strict_prefix q' (request_payload req)"
      by auto
    then have set: "command req = Set" "length q' < length (req_value req) + 1"
      using prefix_length_less [OF buf(2)]
      by (auto simp: request_payload_def split: Command.splits)
    have find: "find_char LF (buffer p) = Some (length (request_line req))"
      using request_line_bytes(1) [OF assms(1)] by (simp add: buf)
    have line: "strip_trailing_cr (take (length (request_line req)) (buffer p)) = request_line req"
      using request_line_bytes(2) [OF assms(1)] by (simp add: buf)
    have "is_valid_key (key req)" "length (req_value req) \<le> kMaxValueLen"
      using assms(1) set(1) by (simp_all add: wf_request_def)
    with set show ?thesis
      by (simp add: try_parse_request_def find line request_line_tokens [OF assms(1)] Let_def)
        (simp add: buf)
  qed
qed

lemma encode_request_nonempty [simp]: "encode_request req \<noteq> []"
  by (simp add: encode_request_line)

interpretation request_codec: framing try_parse_request encode_request wf_request "\<lambda>req out. req"
proof unfold_locales
  show "encode_request req \<noteq> []" for req by simp
  show "buffer p = [] \<Longrightarrow> try_parse_request p out = (Incomplete, p, out)" for p out
    by (rule try_parse_request_short) simp_all
qed (fact try_parse_request_partial try_parse_request_frame)+

section \<open>What the request parser accepts, consumes and reports\<close>

lemma tokens_no_LF:
  assumes "LF \<notin> set l"
  shows "t \<in> set (split_spaces (strip_trailing_cr l)) \<Longrightarrow> LF \<notin> set t"
  using assms split_spaces_bytes [of t "strip_trailing_cr l"] set_strip_trailing_cr [of l] by blast

lemma try_parse_request_outcome:
  "parse_outcome wf_request kMaxCommandLineLen p out (try_parse_request p out)"
proof (cases "find_char LF (buffer p)")
  case None
  then show ?thesis by (simp add: try_parse_request_def parse_outcome.incomplete parse_outcome.overlong)
next
  case (Some e)
  have e: "e < length (buffer p)" "LF \<notin> set (take e (buffer p))" "LF \<in> set (buffer p)"
    using find_char_SomeD [OF Some] by (auto simp: in_set_conv_decomp)
  moreover have "LF \<notin> set (split_spaces (strip_trailing_cr (take e (buffer p))) ! 0)"
    by (rule tokens_no_LF [OF e(2)]) (simp add: nth_mem)
  ultimately show ?thesis
    unfolding try_parse_request_def Some Let_def option.case
    by (intro outcome_intros) (auto simp: wf_request_def dest: parse_length_SomeD)
qed

section \<open>The response codec\<close>

text \<open>\<^verbatim>\<open>encode_response\<close> of \<^verbatim>\<open>src/router/router.cpp\<close>, the inverse of \<^const>\<open>try_parse_response\<close>.\<close>

definition encode_response :: "Response \<Rightarrow> bytes" where
  "encode_response resp =
     (case resp_type resp of
        Value \<Rightarrow> encode_value_response (resp_value resp)
      | NotFound \<Rightarrow> encode_not_found_response
      | Ok \<Rightarrow> encode_ok_response
      | Deleted \<Rightarrow> encode_deleted_response
      | Error \<Rightarrow> encode_error_response (resp_message resp)
      | Pong \<Rightarrow> encode_pong_response)"

text \<open>
  The responses that survive the wire: a value within the limit; an error message of one line
  that does not end in a CR and fits into the client's line limit.
\<close>

definition wf_response :: "Response \<Rightarrow> bool" where
  "wf_response resp \<longleftrightarrow>
     (case resp_type resp of
        Value \<Rightarrow> length (resp_value resp) \<le> kMaxValueLen
      | Error \<Rightarrow> LF \<notin> set (resp_message resp) \<and> (resp_message resp = [] \<or> last (resp_message resp) \<noteq> CR)
          \<and> 6 + length (resp_message resp) \<le> kMaxResponseLineLen
      | _ \<Rightarrow> True)"

text \<open>What the caller's \<^verbatim>\<open>Response\<close> object holds after \<open>resp\<close> was parsed into it.\<close>

definition settle_response :: "Response \<Rightarrow> Response \<Rightarrow> Response" where
  "settle_response resp out =
     (case resp_type resp of
        Value \<Rightarrow> out\<lparr>resp_type := Value, resp_value := resp_value resp\<rparr>
      | Error \<Rightarrow> out\<lparr>resp_type := Error, resp_message := resp_message resp\<rparr>
      | t \<Rightarrow> out\<lparr>resp_type := t\<rparr>)"

definition response_line :: "Response \<Rightarrow> bytes" where
  "response_line resp =
     (case resp_type resp of
        Value \<Rightarrow> ''VALUE '' @ to_string (length (resp_value resp))
      | NotFound \<Rightarrow> ''NOT_FOUND'' | Ok \<Rightarrow> ''OK'' | Deleted \<Rightarrow> ''DELETED''
      | Error \<Rightarrow> ''ERROR '' @ resp_message resp
      | Pong \<Rightarrow> ''PONG'')"

definition response_payload :: "Response \<Rightarrow> bytes" where
  "response_payload resp = (case resp_type resp of Value \<Rightarrow> resp_value resp @ [LF] | _ \<Rightarrow> [])"

lemma encode_response_line: "encode_response resp = response_line resp @ LF # response_payload resp"
  by (simp add: encode_response_def response_line_def response_payload_def response_encoders
      split: ResponseType.splits)

lemma strip_response_line:
  assumes "wf_response resp"
  shows "strip_trailing_cr (response_line resp) = response_line resp"
  using assms last_in_set [of "to_string (length (resp_value resp))"]
  by (auto simp: wf_response_def response_line_def strip_trailing_cr_def simp del: last_in_set
      split: ResponseType.splits)

lemma response_line_bytes:
  assumes "wf_response resp"
  shows "LF \<notin> set (response_line resp)" "length (response_line resp) \<le> kMaxResponseLineLen"
proof -
  show "LF \<notin> set (response_line resp)"
    using assms by (auto simp: wf_response_def response_line_def split: ResponseType.splits)
  show "length (response_line resp) \<le> kMaxResponseLineLen"
    using assms length_to_string_value [of "length (resp_value resp)"]
    by (auto simp: wf_response_def response_line_def kMaxResponseLineLen_def split: ResponseType.splits)
qed

lemma try_parse_response_frame:
  assumes "wf_response resp" and "buffer p = encode_response resp @ rest"
  shows "try_parse_response p out = (Complete, p\<lparr>buffer := rest\<rparr>, settle_response resp out)"
proof -
  have find: "find_char LF (buffer p) = Some (length (response_line resp))"
    and buf: "buffer p = response_line resp @ LF # response_payload resp @ rest"
    using assms response_line_bytes(1) by (simp_all add: encode_response_line)
  have line: "strip_trailing_cr (take (length (response_line resp)) (buffer p)) = response_line resp"
    using strip_response_line [OF assms(1)] by (simp add: buf)
  show ?thesis
    using assms(1)
    by (cases "resp_type resp")
      (simp_all add: try_parse_response_def find line Let_def settle_response_def,
       simp_all add: buf response_line_def response_payload_def wf_response_def nth_append)
qed

lemma try_parse_response_short:
  assumes "LF \<notin> set (buffer p)" "length (buffer p) \<le> kMaxResponseLineLen"
  shows "try_parse_response p out = (Incomplete, p, out)"
  using assms by (simp add: try_parse_response_def)

lemma try_parse_response_partial:
  assumes "wf_response resp" and "strict_prefix (buffer p) (encode_response resp)"
  shows "try_parse_response p out = (Incomplete, p, out)"
  using assms(2) unfolding encode_response_line
proof (cases rule: strict_prefix_append_cases)
  case 1
  with response_line_bytes [OF assms(1)] show ?thesis
    by (intro try_parse_response_short)
      (auto simp: strict_prefix_def prefix_def dest: prefix_length_le)
next
  case (2 q)
  show ?thesis
  proof (cases q)
    case Nil
    with 2 response_line_bytes [OF assms(1)] show ?thesis
      by (intro try_parse_response_short) auto
  next
    case (Cons c q')
    with 2 have buf: "buffer p = response_line resp @ LF # q'" "strict_prefix q' (response_payload resp)"
      by auto
    then have val: "resp_type resp = Value" "length q' < length (resp_value resp) + 1"
      using prefix_length_less [OF buf(2)]
      by (auto simp: response_payload_def split: ResponseType.splits)
    have "find_char LF (buffer p) = Some (length (response_line resp))"
      using response_line_bytes(1) [OF assms(1)] by (simp add: buf)
    moreover have "strip_trailing_cr (take (length (response_line resp)) (buffer p)) = response_line resp"
      using strip_response_line [OF assms(1)] by (simp add: buf)
    moreover have "length (resp_value resp) \<le> kMaxValueLen"
      using assms(1) val(1) by (simp add: wf_response_def)
    ultimately show ?thesis
      using val by (simp add: try_parse_response_def Let_def) (simp add: buf response_line_def)
  qed
qed

interpretation response_codec: framing try_parse_response encode_response wf_response settle_response
proof unfold_locales
  show "encode_response resp \<noteq> []" for resp by (simp add: encode_response_line)
  show "buffer p = [] \<Longrightarrow> try_parse_response p out = (Incomplete, p, out)" for p out
    by (rule try_parse_response_short) simp_all
qed (fact try_parse_response_partial try_parse_response_frame)+

lemma try_parse_response_outcome:
  "parse_outcome (\<lambda>resp. resp_type resp = Value \<longrightarrow> length (resp_value resp) \<le> kMaxValueLen)
     kMaxResponseLineLen p out (try_parse_response p out)"
proof (cases "find_char LF (buffer p)")
  case None
  then show ?thesis by (simp add: try_parse_response_def parse_outcome.incomplete parse_outcome.overlong)
next
  case (Some e)
  have e: "e < length (buffer p)" "LF \<notin> set (take e (buffer p))" "LF \<in> set (buffer p)"
    using find_char_SomeD [OF Some] by (auto simp: in_set_conv_decomp)
  then have "LF \<notin> set (strip_trailing_cr (take e (buffer p)))"
    using set_strip_trailing_cr by blast
  with e show ?thesis
    unfolding try_parse_response_def Some Let_def option.case
    by (cases "parse_length (drop 6 (strip_trailing_cr (take e (buffer p))))"; simp only: option.case)
      (intro outcome_intros; auto dest: parse_length_SomeD)+
qed

text \<open>Simplification rules that evaluate the codec on concrete bytes.\<close>

lemmas codec_eval [codec_simps] =
  try_parse_request_def try_parse_response_def feed_def new_parser_def split_spaces.simps Let_def
  strip_trailing_cr_def is_valid_key_def parse_length_def isdigit_def limit_defs stoull_def
  encode_request_def encode_response_def response_encoders to_string_eval wf_request_def
  wf_response_def kMaxCommandLineLen_def kMaxResponseLineLen_def

end
