(* ===== verification/Protocol_Stream.thy ===== *)
theory Protocol_Stream
  imports Protocol
begin

text \<open>
  Properties of the wire protocol over whole byte streams: independence of TCP segmentation, for
  well-formed and for arbitrary input, tolerance of CRLF line ends, the exact contract of the request
  parser, and the one place where its verdict does depend on segmentation.
\<close>

section \<open>Bytes that arrive later\<close>

text \<open>
  A verdict that is already reached does not depend on what follows in the buffer: \<open>settles x\<close>
  relates a parse result to the one obtained when \<open>x\<close> had been received as well.
\<close>

definition settles :: "bytes \<Rightarrow> ParseStatus \<times> parser \<times> 'm \<Rightarrow> ParseStatus \<times> parser \<times> 'm \<Rightarrow> bool" where
  "settles x a b \<longleftrightarrow> (case a of (st, p, r) \<Rightarrow> st \<noteq> Incomplete \<longrightarrow> b = (st, feed p x, r))"

lemma settles_if:
  "(c \<Longrightarrow> settles x a a') \<Longrightarrow> (\<not> c \<Longrightarrow> settles x b b') \<Longrightarrow> settles x (if c then a else b) (if c then a' else b')"
  by simp

lemma settles_wait:
  "(\<not> c \<Longrightarrow> \<not> c' \<and> settles x b b') \<Longrightarrow> settles x (if c then (Incomplete, q, r) else b) (if c' then a' else b')"
  by (simp add: settles_def)

lemma settles_incomplete [simp]: "settles x (Incomplete, q, r) b"
  by (simp add: settles_def)

lemma settles_leaf:
  "q' = feed q x \<Longrightarrow> settles x (st, q, r) (st, q', r)"
  by (simp add: settles_def)

lemma try_parse_request_settles:
  assumes "LF \<in> set (buffer p)"
  shows "settles x (try_parse_request p out) (try_parse_request (feed p x) out)"
proof (cases "find_char LF (buffer p)")
  case None
  with assms show ?thesis by simp
next
  case (Some e)
  have e: "e < length (buffer p)" using find_char_SomeD [OF Some] by simp
  have some: "find_char LF (buffer (feed p x)) = Some e"
    using Some by (simp add: find_char_append)
  have line: "take e (buffer (feed p x)) = take e (buffer p)" using e by simp
  show ?thesis
    unfolding try_parse_request_def Some some Let_def option.case line
    by (intro settles_if settles_leaf)
      (use e in \<open>auto simp: feed_def nth_append intro!: settles_wait settles_if settles_leaf\<close>)
qed

text \<open>An unterminated line beyond the limit: the parser reports it and keeps it.\<close>

definition stuck :: "IncrementalParser \<Rightarrow> bool" where
  "stuck p \<longleftrightarrow> LF \<notin> set (buffer p) \<and> kMaxCommandLineLen < length (buffer p)"

lemma try_parse_request_stuck:
  "stuck p \<Longrightarrow> try_parse_request p out = (ParseError, p\<lparr>error_message := ''command line too long''\<rparr>, out)"
  by (simp add: try_parse_request_def stuck_def)

lemma stuck_error_message [simp]: "stuck (p\<lparr>error_message := m\<rparr>) = stuck p"
  by (simp add: stuck_def)

lemma drains_not_stuck: "drains try_parse_request p out es q r \<Longrightarrow> \<not> stuck p"
  by (induction rule: drains.induct) (auto simp: try_parse_request_stuck)

lemma verdict_has_line:
  assumes "try_parse_request p out = (st, p', out')" "st \<noteq> Incomplete" "\<not> stuck p"
  shows "LF \<in> set (buffer p)"
  using try_parse_request_outcome [of p out] assms
  by (auto simp: stuck_def elim: parse_outcome.cases)

lemma drains_merge:
  assumes "drains try_parse_request p out es q r"
    and "drains try_parse_request (feed q b) r es' q' r'"
  shows "drains try_parse_request (feed p b) out (es @ es') q' r'"
  using assms
proof (induction rule: drains.induct)
  case (stop p out p' out')
  have "p' = p \<and> out' = out"
    using try_parse_request_outcome [of p out] unfolding stop.hyps by (auto elim: outcome_IncompleteE)
  with stop show ?case by simp
next
  case (frame p out p' out' es q r)
  have "\<not> stuck p" using frame.hyps(1) try_parse_request_stuck [of p out] by auto
  then have "LF \<in> set (buffer p)" using verdict_has_line [OF frame.hyps(1)] by simp
  from try_parse_request_settles [OF this, of b out] frame.hyps(1)
  have t: "try_parse_request (feed p b) out = (Complete, feed p' b, out')" by (simp add: settles_def)
  from drains.frame [of try_parse_request, OF t frame.IH [OF frame.prems]] show ?case by simp
next
  case (malformed p out p' out' es q r)
  have "\<not> stuck p'" by (rule drains_not_stuck [OF malformed.hyps(2)])
  then have "\<not> stuck p" using malformed.hyps(1) try_parse_request_stuck [of p out] by auto
  then have "LF \<in> set (buffer p)" using verdict_has_line [OF malformed.hyps(1)] by simp
  from try_parse_request_settles [OF this, of b out] malformed.hyps(1)
  have t: "try_parse_request (feed p b) out = (ParseError, feed p' b, out')" by (simp add: settles_def)
  from drains.malformed [of try_parse_request, OF t malformed.IH [OF malformed.prems]] show ?case by simp
qed

lemma receives_drains:
  "receives try_parse_request p out cs es q r \<Longrightarrow> cs \<noteq> [] \<Longrightarrow>
    drains try_parse_request (feed p (concat cs)) out es q r"
proof (induction rule: receives.induct)
  case (chunk p c out es p' out' cs es' q r)
  show ?case
  proof (cases "cs = []")
    case True
    with chunk.hyps(2) have "es' = [] \<and> q = p' \<and> r = out'" by (auto elim: receives.cases)
    with True chunk.hyps(1) show ?thesis by simp
  next
    case False
    with drains_merge [OF chunk.hyps(1) chunk.IH] show ?thesis by simp
  qed
qed simp

section \<open>CR before LF\<close>

text \<open>Results that agree up to the buffer that is still waiting.\<close>

definition same_verdict :: "ParseStatus \<times> parser \<times> 'm \<Rightarrow> ParseStatus \<times> parser \<times> 'm \<Rightarrow> bool" where
  "same_verdict a b \<longleftrightarrow>
     fst a = fst b \<and> snd (snd a) = snd (snd b) \<and> (fst a \<noteq> Incomplete \<longrightarrow> fst (snd a) = fst (snd b))"

lemma same_verdict_if:
  "c = c' \<Longrightarrow> (c' \<Longrightarrow> same_verdict a a') \<Longrightarrow> (\<not> c' \<Longrightarrow> same_verdict b b')
    \<Longrightarrow> same_verdict (if c then a else b) (if c' then a' else b')"
  by simp

lemma same_verdict_refl: "q = q' \<Longrightarrow> r = r' \<Longrightarrow> same_verdict (st, q, r) (st, q', r')"
  by (simp add: same_verdict_def)

lemma same_verdict_incomplete: "same_verdict (Incomplete, q, r) (Incomplete, q', r)"
  by (simp add: same_verdict_def)

lemma try_parse_request_crlf:
  assumes "LF \<notin> set l" "CR \<notin> set l"
  shows "same_verdict (try_parse_request (p\<lparr>buffer := l @ LF # rest\<rparr>) out)
                      (try_parse_request (p\<lparr>buffer := l @ CR # LF # rest\<rparr>) out)"
proof -
  have a: "find_char LF (buffer (p\<lparr>buffer := l @ LF # rest\<rparr>)) = Some (length l)"
    and ta: "strip_trailing_cr (take (length l) (buffer (p\<lparr>buffer := l @ LF # rest\<rparr>))) = l"
    using assms by simp_all
  have b: "find_char LF (buffer (p\<lparr>buffer := l @ CR # LF # rest\<rparr>)) = Some (length l + 1)"
    and tb: "strip_trailing_cr (take (length l + 1) (buffer (p\<lparr>buffer := l @ CR # LF # rest\<rparr>))) = l"
    using assms find_char_first [of LF "l @ [CR]" rest] by simp_all
  show ?thesis
    unfolding try_parse_request_def a b Let_def option.case ta tb
    by (intro same_verdict_if same_verdict_incomplete same_verdict_refl)
      (auto simp: nth_append numeral_3_eq_3)
qed

section \<open>Properties\<close>

lemma settled_requests: "request_codec.settled reqs out = map Parsed reqs"
  by (induction reqs arbitrary: out) simp_all

lemma settle_all_requests: "request_codec.settle_all reqs out = last (out # reqs)"
  by (induction reqs arbitrary: out) simp_all

text \<open>
  C2: However TCP cuts the bytes of a sequence of well-formed requests into segments, a parser
  that is drained after every segment yields exactly these requests, in order and without an
  error, and ends with an empty buffer.
\<close>

theorem request_stream_roundtrip:
  assumes "list_all wf_request reqs" and "concat chunks = concat (map encode_request reqs)"
  shows "receives try_parse_request new_parser out chunks (map Parsed reqs) new_parser (last (out # reqs))"
  using request_codec.receives_any_segmentation [OF assms, of new_parser out]
  by (simp add: settled_requests settle_all_requests)

theorem request_stream_roundtrip_witness:
  "receives try_parse_request new_parser \<lparr>command = Get, key = [], req_value = []\<rparr>
     [''SET a 2'', CHR 0x0A # ''x'' @ [CHR 0x0A, CHR 0x0A], ''PIN'', ''G'' @ [CHR 0x0A]]
     [Parsed \<lparr>command = Set, key = ''a'', req_value = ''x'' @ [CHR 0x0A]\<rparr>,
      Parsed \<lparr>command = Ping, key = [], req_value = []\<rparr>]
     new_parser \<lparr>command = Ping, key = [], req_value = []\<rparr>"
proof -
  let ?reqs = "[\<lparr>command = Set, key = ''a'', req_value = ''x'' @ [CHR 0x0A]\<rparr>,
                \<lparr>command = Ping, key = [], req_value = []\<rparr>]"
  have "list_all wf_request ?reqs" by (simp add: codec_simps)
  moreover have "concat [''SET a 2'', CHR 0x0A # ''x'' @ [CHR 0x0A, CHR 0x0A], ''PIN'', ''G'' @ [CHR 0x0A]]
      = concat (map encode_request ?reqs)" by (simp add: codec_simps)
  ultimately show ?thesis
    using request_stream_roundtrip [of ?reqs _ "\<lparr>command = Get, key = [], req_value = []\<rparr>"] by simp
qed

text \<open>
  A response that the router or a server encodes is read back by the client's parser unchanged,
  however its bytes are cut into segments, if the value is within 1 MiB and an error message is one
  line within the limit that does not end in CR.
\<close>

theorem response_roundtrip:
  assumes "wf_response resp" and "concat chunks = encode_response resp"
  shows "receives try_parse_response new_parser out chunks [Parsed (settle_response resp out)]
           new_parser (settle_response resp out)"
  using response_codec.receives_any_segmentation [of "[resp]" chunks new_parser out] assms by simp

theorem response_roundtrip_witness:
  "receives try_parse_response new_parser \<lparr>resp_type = Ok, resp_value = [], resp_message = []\<rparr>
     [''VALUE 3'', [CHR 0x0A], ''b'', CHR 0x0A # ''r'' @ [CHR 0x0A]]
     [Parsed \<lparr>resp_type = Value, resp_value = ''b'' @ CHR 0x0A # ''r'', resp_message = []\<rparr>]
     new_parser \<lparr>resp_type = Value, resp_value = ''b'' @ CHR 0x0A # ''r'', resp_message = []\<rparr>"
proof -
  let ?resp = "\<lparr>resp_type = Value, resp_value = ''b'' @ CHR 0x0A # ''r'', resp_message = []\<rparr>"
  have "wf_response ?resp" by (simp add: codec_simps)
  moreover have "concat [''VALUE 3'', [CHR 0x0A], ''b'', CHR 0x0A # ''r'' @ [CHR 0x0A]] = encode_response ?resp"
    by (simp add: codec_simps)
  ultimately show ?thesis
    using response_roundtrip [of ?resp _ "\<lparr>resp_type = Ok, resp_value = [], resp_message = []\<rparr>"]
    by (simp add: settle_response_def)
qed


lemma bad_then_ping:
  "drains try_parse_request (feed new_parser (''FOO'' @ CHR 0x0A # ''PING'' @ [CHR 0x0A])) \<lparr>command = Get, key = [], req_value = []\<rparr>
     [Malformed ''unknown command: FOO'', Parsed \<lparr>command = Ping, key = [], req_value = []\<rparr>]
     \<lparr>buffer = [], error_message = ''unknown command: FOO''\<rparr> \<lparr>command = Ping, key = [], req_value = []\<rparr>"
proof -
  let ?o = "\<lparr>command = Get, key = [], req_value = []\<rparr>" and ?r = "\<lparr>command = Ping, key = [], req_value = []\<rparr>"
  let ?e = "''unknown command: FOO''"
  have a: "try_parse_request (feed new_parser (''FOO'' @ CHR 0x0A # ''PING'' @ [CHR 0x0A])) ?o
      = (ParseError, \<lparr>buffer = ''PING'' @ [CHR 0x0A], error_message = ?e\<rparr>, ?o)" by (simp add: codec_simps)
  have b: "try_parse_request \<lparr>buffer = ''PING'' @ [CHR 0x0A], error_message = ?e\<rparr> ?o
      = (Complete, \<lparr>buffer = [], error_message = ?e\<rparr>, ?r)" by (simp add: codec_simps)
  have c: "try_parse_request \<lparr>buffer = [], error_message = ?e\<rparr> ?r
      = (Incomplete, \<lparr>buffer = [], error_message = ?e\<rparr>, ?r)" by (simp add: codec_simps)
  from drains.malformed [of try_parse_request, OF a drains.frame [of try_parse_request, OF b
      drains.stop [of try_parse_request, OF c]]]
  show ?thesis by simp
qed


text \<open>
  The contract of the request parser on arbitrary bytes. When it waits, it has changed
  nothing. When it completes, the request obeys every limit and a non-empty prefix of the buffer is
  consumed. When it rejects, the output is untouched and the message has no line feed (so an ERROR
  response is always one line); a non-empty prefix is consumed, except when no line feed was
  received yet: then nothing is consumed at all.
\<close>

theorem try_parse_request_contract:
  assumes "try_parse_request p out = (st, p', out')"
  shows "(st = Incomplete \<longrightarrow> p' = p \<and> out' = out) \<and>
    (st = Complete \<longrightarrow> wf_request out' \<and> error_message p' = error_message p) \<and>
    (st = ParseError \<longrightarrow> out' = out \<and> LF \<notin> set (error_message p')) \<and>
    (st \<noteq> Incomplete \<and> LF \<in> set (buffer p) \<longrightarrow>
       (\<exists>n. 0 < n \<and> n \<le> length (buffer p) \<and> buffer p' = drop n (buffer p))) \<and>
    (LF \<notin> set (buffer p) \<longrightarrow> buffer p' = buffer p \<and> st \<noteq> Complete)"
  using try_parse_request_outcome [of p out] unfolding assms
  by (cases rule: parse_outcome.cases) (auto simp del: drop_eq_Nil)

theorem try_parse_request_contract_witness:
  "try_parse_request (feed new_parser (''GET a b'' @ [CHR 0x0A])) \<lparr>command = Ping, key = [], req_value = []\<rparr>
     = (ParseError, \<lparr>buffer = [], error_message = ''malformed GET request''\<rparr>, \<lparr>command = Ping, key = [], req_value = []\<rparr>)
   \<and> LF \<notin> set ''malformed GET request''"
proof -
  let ?o = "\<lparr>command = Ping, key = [], req_value = []\<rparr>"
  have "try_parse_request (feed new_parser (''GET a b'' @ [CHR 0x0A])) ?o
     = (ParseError, \<lparr>buffer = [], error_message = ''malformed GET request''\<rparr>, ?o)"
    by (simp add: codec_simps)
  from this try_parse_request_contract [OF this] show ?thesis by simp
qed

text \<open>
  A CR before the line feed of a command line is tolerated: the request, the status, the error
  message and the bytes left over are those of the same line without the CR.
\<close>

theorem request_crlf_tolerated:
  assumes "LF \<notin> set l" "CR \<notin> set l"
    and "try_parse_request (p\<lparr>buffer := l @ LF # rest\<rparr>) out = (st, q, r)"
  shows "\<exists>q'. try_parse_request (p\<lparr>buffer := l @ CR # LF # rest\<rparr>) out = (st, q', r)
    \<and> (st \<noteq> Incomplete \<longrightarrow> q' = q)"
  using try_parse_request_crlf [OF assms(1,2), where p = p and rest = rest and out = out] assms(3)
  by (cases "try_parse_request (p\<lparr>buffer := l @ CR # LF # rest\<rparr>) out") (auto simp: same_verdict_def)

theorem request_crlf_tolerated_witness:
  "\<exists>q'. try_parse_request (new_parser\<lparr>buffer := ''GET a'' @ CR # LF # ''x''\<rparr>) \<lparr>command = Ping, key = [], req_value = []\<rparr>
      = (Complete, q', \<lparr>command = Get, key = ''a'', req_value = []\<rparr>) \<and> q' = new_parser\<lparr>buffer := ''x''\<rparr>"
proof -
  let ?o = "\<lparr>command = Ping, key = [], req_value = []\<rparr>"
  have "try_parse_request (new_parser\<lparr>buffer := ''GET a'' @ LF # ''x''\<rparr>) ?o
      = (Complete, new_parser\<lparr>buffer := ''x''\<rparr>, \<lparr>command = Get, key = ''a'', req_value = []\<rparr>)"
    by (simp add: codec_simps)
  from request_crlf_tolerated [OF _ _ this] show ?thesis by simp
qed

definition longest_crlf_line :: bytes where
  "longest_crlf_line = ''SET'' @ SP # replicate 250 CHR ''k'' @ SP # ''0000000003'' @ [CR]"

text \<open>
  C35: The longest SET line with a ten-digit length field and a CRLF line end is where the verdict
  depends on segmentation: received at once it is accepted, but if the segment ends before the line
  feed, the 266 bytes exceed the limit of 265 and the parser reports an over-long line and keeps the
  bytes.
\<close>

theorem longest_crlf_line_depends_on_segmentation:
  "try_parse_request (feed new_parser (longest_crlf_line @ LF # ''abc'' @ [LF])) out
     = (Complete, new_parser, \<lparr>command = Set, key = replicate 250 CHR ''k'', req_value = ''abc''\<rparr>)
   \<and> try_parse_request (feed new_parser longest_crlf_line) out
     = (ParseError, \<lparr>buffer = longest_crlf_line, error_message = ''command line too long''\<rparr>, out)"
proof
  let ?k = "replicate 250 CHR ''k''" and ?n = "''0000000003''"
  let ?l = "''SET'' @ SP # ?k @ SP # ?n"
  define n where "n = length longest_crlf_line"
  define b where "b = longest_crlf_line @ LF # ''abc'' @ [LF]"
  have line: "longest_crlf_line = ?l @ [CR]" by (simp add: longest_crlf_line_def)
  have noLF: "LF \<notin> set longest_crlf_line" by (simp add: longest_crlf_line_def)
  have find: "find_char LF b = Some n"
    unfolding b_def n_def using noLF by (rule find_char_first)
  have strip: "strip_trailing_cr (take n b) = ?l"
    unfolding b_def n_def line using strip_trailing_cr_snoc [of ?l] by simp
  have toks: "split_spaces (strip_trailing_cr (take n b)) = [''SET'', ?k, ?n]"
    unfolding strip using split_spaces_Cons [of "''SET''" "?k @ SP # ?n"] split_spaces_Cons [of ?k ?n]
      split_spaces_single [of ?n] by simp
  have rest: "length b = n + 5" "b ! (n + 4) = LF" "take 3 (drop (Suc n) b) = ''abc''" "drop (n + 5) b = []"
    by (simp_all add: b_def n_def nth_append)
  have key: "is_valid_key ?k" by (simp add: is_valid_key_def kMaxKeyLen_def list_all_iff)
  have len: "parse_length ?n = Some 3"
    by (simp add: parse_length_def isdigit_def stoull_def kMaxValueLen_def)
  have "try_parse_request \<lparr>buffer = b, error_message = []\<rparr> out
     = (Complete, \<lparr>buffer = [], error_message = []\<rparr>, \<lparr>command = Set, key = ?k, req_value = ''abc''\<rparr>)"
    using rest by (simp add: try_parse_request_def find toks key len Let_def add.commute)
  then show "try_parse_request (feed new_parser (longest_crlf_line @ LF # ''abc'' @ [LF])) out
     = (Complete, new_parser, \<lparr>command = Set, key = ?k, req_value = ''abc''\<rparr>)"
    by (simp add: feed_def new_parser_def b_def)
  show "try_parse_request (feed new_parser longest_crlf_line) out
     = (ParseError, \<lparr>buffer = longest_crlf_line, error_message = ''command line too long''\<rparr>, out)"
    using noLF
    by (simp add: try_parse_request_def feed_def new_parser_def kMaxCommandLineLen_def kMaxKeyLen_def)
      (simp add: longest_crlf_line_def)
qed

end
