(* ===== verification/Arguments.thy ===== *)
theory Arguments
  imports Kv_Prelude
begin

text \<open>
  What the programs use of the standard library to read their arguments and their input: numbers (\<^verbatim>\<open>std::atoi\<close>, \<^verbatim>\<open>std::stoul\<close>) and items
  separated by a delimiter (\<^verbatim>\<open>std::getline\<close>), and what a program leaves behind.
\<close>

section \<open>Numbers\<close>

text \<open>\<^verbatim>\<open>std::isspace\<close> in the C locale.\<close>

definition isspace :: "char \<Rightarrow> bool" where
  "isspace c \<longleftrightarrow> c = SP \<or> 9 \<le> (of_char c :: nat) \<and> (of_char c :: nat) \<le> 13"

text \<open>\<^verbatim>\<open>std::atoi\<close>, defined by the language for numbers in the range of \<^verbatim>\<open>int\<close>.\<close>

definition atoi :: "bytes \<Rightarrow> int" where
  "atoi s =
     (case dropWhile isspace s of
        [] \<Rightarrow> 0
      | c # ds \<Rightarrow>
          if c = CHR ''-'' then - int (stoull (takeWhile isdigit ds))
          else if c = CHR ''+'' then int (stoull (takeWhile isdigit ds))
          else int (stoull (takeWhile isdigit (c # ds))))"

definition to_size_t :: "int \<Rightarrow> nat" where
  "to_size_t i = nat (i mod 2 ^ 64)"

text \<open>
  \<^verbatim>\<open>std::stoul\<close> and \<^verbatim>\<open>std::stoull\<close> of an argument, on a 64-bit platform: each throws if there is no number or if the number is too large, and negates
  modulo \<^verbatim>\<open>2^64\<close>.
\<close>

definition parse_unsigned :: "bytes \<Rightarrow> bytes \<Rightarrow> exn + nat" where
  "parse_unsigned name s =
     (let t = dropWhile isspace s;
          negative = (t \<noteq> [] \<and> hd t = CHR ''-'');
          digits = takeWhile isdigit (if t \<noteq> [] \<and> hd t \<in> {CHR ''-'', CHR ''+''} then tl t else t)
      in if digits = [] then Inl (Invalid_argument name)
         else if 2 ^ 64 \<le> stoull digits then Inl (Out_of_range name)
         else Inr (if negative then to_size_t (- int (stoull digits)) else stoull digits))"

abbreviation stoul :: "bytes \<Rightarrow> exn + nat" where
  "stoul \<equiv> parse_unsigned ''stoul''"

lemma isdigit_facts: "isdigit c \<Longrightarrow> \<not> isspace c \<and> c \<noteq> CHR ''-'' \<and> c \<noteq> CHR ''+'' \<and> c \<noteq> CHR '','' \<and> c \<noteq> CHR '':''"
  by (auto simp: isdigit_def isspace_def)

lemma to_string_Cons:
  obtains c cs where "to_string n = c # cs" "isdigit c" "takeWhile isdigit cs = cs"
proof -
  obtain c cs where s: "to_string n = c # cs" by (meson neq_Nil_conv to_string_nonempty)
  have "\<forall>c \<in> set (to_string n). isdigit c" using to_string_digits by blast
  then have "isdigit c" "takeWhile isdigit cs = cs" using s by (simp_all add: takeWhile_eq_all_conv)
  with s show ?thesis by (rule that)
qed

lemma atoi_to_string [simp]: "atoi (to_string n) = int n"
proof -
  obtain c cs where s: "to_string n = c # cs" and c: "isdigit c" and cs: "takeWhile isdigit cs = cs"
    by (rule to_string_Cons)
  show ?thesis using stoull_to_string [of n] c isdigit_facts [OF c] by (simp add: atoi_def s cs)
qed

lemma stoul_to_string [simp]:
  assumes "n < 2 ^ 64"
  shows "parse_unsigned name (to_string n) = Inr n"
proof -
  obtain c cs where s: "to_string n = c # cs" and c: "isdigit c" and cs: "takeWhile isdigit cs = cs"
    by (rule to_string_Cons)
  show ?thesis using stoull_to_string [of n] c isdigit_facts [OF c] assms by (simp add: parse_unsigned_def s cs Let_def)
qed

section \<open>Lists\<close>

text \<open>The items \<^verbatim>\<open>std::getline\<close> reads up to a delimiter, until the stream is empty.\<close>

function getlines :: "char \<Rightarrow> bytes \<Rightarrow> bytes list" where
  "getlines d s =
     (if s = [] then []
      else case find_char d s of
        None \<Rightarrow> [s]
      | Some i \<Rightarrow> take i s # getlines d (drop (i + 1) s))"
  by pat_completeness auto
termination
  by (relation "measure (length \<circ> snd)") (auto dest: find_char_SomeD)

declare getlines.simps [simp del]

lemma getlines_simps:
  "getlines d [] = []"
  "d \<notin> set s \<Longrightarrow> s \<noteq> [] \<Longrightarrow> getlines d s = [s]"
  "d \<notin> set s \<Longrightarrow> getlines d (s @ d # r) = s # getlines d r"
  by (subst getlines.simps, simp)+

section \<open>Outcome of an argument loop\<close>

datatype 'o arguments = Help | Unknown bytes | Options 'o

section \<open>Outcome of a program\<close>

text \<open>What a program that ends leaves behind: its exit code, the texts on its two output streams, and the files it wrote.\<close>

record outcome =
  exit_code :: int
  out_text :: bytes
  err_text :: bytes
  files :: "(bytes \<times> bytes) list"

text \<open>A program that ends with a message and nothing else.\<close>

definition exits :: "int \<Rightarrow> bytes \<Rightarrow> outcome" where
  "exits code text = \<lparr>exit_code = code, out_text = [], err_text = text, files = []\<rparr>"

definition quoted :: "bytes \<Rightarrow> bytes" where
  "quoted s = CHR 0x22 # s @ [CHR 0x22]"

end
