(* ===== verification/Floating.thy ===== *)
theory Floating
  imports Complex_Main Arguments
begin

text \<open>
  \<^verbatim>\<open>double\<close> as the measuring tools use it: finite values are real numbers, so rounding is not modelled, with
  infinities and one NaN beside them (the sign of a NaN and of a zero is not modelled). \<^verbatim>\<open>std::stod\<close> reads one from an argument, and an output
  stream prints one with six significant digits, which is the \<^verbatim>\<open>%g\<close> format of C.

  Shown: a printed number reads back as the number rounded to six digits.
\<close>

section \<open>Values\<close>

text \<open>\<open>Inf True\<close> is negative infinity.\<close>

datatype double = Fin real | Inf bool | NaN

text \<open>\<^verbatim>\<open>x <= y\<close>; a comparison with NaN is false.\<close>

fun dle :: "double \<Rightarrow> double \<Rightarrow> bool" where
  "dle NaN _ = False"
| "dle _ NaN = False"
| "dle (Fin x) (Fin y) = (x \<le> y)"
| "dle (Fin x) (Inf negative) = (\<not> negative)"
| "dle (Inf negative) (Fin y) = negative"
| "dle (Inf negative) (Inf negative') = (negative \<or> \<not> negative')"

text \<open>\<^verbatim>\<open>d - c\<close>, \<^verbatim>\<open>x / y\<close> and \<^verbatim>\<open>d * c\<close> for finite \<open>c > 0\<close>, \<open>x\<close> and \<open>y \<ge> 0\<close>.\<close>

fun dminus :: "double \<Rightarrow> real \<Rightarrow> double" where
  "dminus (Fin x) c = Fin (x - c)"
| "dminus d c = d"

definition ddiv :: "real \<Rightarrow> real \<Rightarrow> double" where
  "ddiv x y = (if y \<noteq> 0 then Fin (x / y) else if x = 0 then NaN else Inf (x < 0))"

fun dscale :: "double \<Rightarrow> real \<Rightarrow> double" where
  "dscale (Fin x) c = Fin (x * c)"
| "dscale d c = d"

section \<open>Reading\<close>

definition tolower :: "char \<Rightarrow> char" where
  "tolower c = (if 65 \<le> (of_char c :: nat) \<and> (of_char c :: nat) \<le> 90 then char_of ((of_char c :: nat) + 32) else c)"

definition hex_digit :: "char \<Rightarrow> bool" where
  "hex_digit c \<longleftrightarrow> isdigit c \<or> tolower c \<in> set ''abcdef''"

definition digit_value :: "char \<Rightarrow> nat" where
  "digit_value c = (if isdigit c then of_char c - 48 else of_char (tolower c) - 87)"

definition digits_value :: "nat \<Rightarrow> bytes \<Rightarrow> nat" where
  "digits_value base s = foldl (\<lambda>n c. base * n + digit_value c) 0 s"

text \<open>An exponent at the beginning of \<open>s\<close>, introduced by \<open>mark\<close>; if it is not complete there is none.\<close>

definition exponent :: "char \<Rightarrow> bytes \<Rightarrow> int" where
  "exponent mark s =
     (case s of
        c # t \<Rightarrow>
          if tolower c \<noteq> mark then 0
          else let ds = (if t \<noteq> [] \<and> hd t \<in> {CHR ''+'', CHR ''-''} then tl t else t);
                   n = int (digits_value 10 (takeWhile isdigit ds))
               in if t \<noteq> [] \<and> hd t = CHR ''-'' then - n else n
      | [] \<Rightarrow> 0)"

text \<open>
  The longest numeral at the beginning of \<open>s\<close>: digits with an optional point, and an exponent to the base \<open>ebase\<close>.
\<close>

definition numeral_value :: "nat \<Rightarrow> (char \<Rightarrow> bool) \<Rightarrow> char \<Rightarrow> nat \<Rightarrow> bytes \<Rightarrow> real option" where
  "numeral_value base digit mark ebase s =
     (let ip = takeWhile digit s; s1 = dropWhile digit s;
          point = (s1 \<noteq> [] \<and> hd s1 = CHR ''.'');
          fp = (if point then takeWhile digit (tl s1) else []);
          s2 = (if point then dropWhile digit (tl s1) else s1)
      in if ip = [] \<and> fp = [] then None
         else Some (real (digits_value base (ip @ fp)) / real base ^ length fp * real ebase powi exponent mark s2))"

definition decimal :: "bytes \<Rightarrow> real option" where
  "decimal = numeral_value 10 isdigit (CHR ''e'') 10"

definition hexadecimal :: "bytes \<Rightarrow> real option" where
  "hexadecimal = numeral_value 16 hex_digit (CHR ''p'') 2"

text \<open>
  \<^verbatim>\<open>std::stod\<close>: white space, a sign, and a decimal or hexadecimal number, an infinity or a NaN; the rest is ignored. It throws if there is
  none of these, if the number is too large for a \<^verbatim>\<open>double\<close>, or if it is below the normal range and not a \<^verbatim>\<open>double\<close>.
\<close>

definition out_of_double_range :: "real \<Rightarrow> bool" where
  "out_of_double_range x \<longleftrightarrow> 2 ^ 1024 - 2 ^ 970 \<le> x \<or> 0 < x \<and> x < 1 / 2 ^ 1022 \<and> of_int \<lfloor>x * 2 ^ 1074\<rfloor> \<noteq> x * 2 ^ 1074"

definition stod :: "bytes \<Rightarrow> exn + double" where
  "stod s =
     (let t = dropWhile isspace s;
          negative = (t \<noteq> [] \<and> hd t = CHR ''-'');
          u = (if t \<noteq> [] \<and> hd t \<in> {CHR ''-'', CHR ''+''} then tl t else t);
          word = map tolower (take 3 u);
          hex = (if map tolower (take 2 u) = ''0x'' then hexadecimal (drop 2 u) else None)
      in if word = ''inf'' then Inr (Inf negative)
         else if word = ''nan'' then Inr NaN
         else case (case hex of None \<Rightarrow> decimal u | Some x \<Rightarrow> Some x) of
           None \<Rightarrow> Inl (Invalid_argument ''stod'')
         | Some x \<Rightarrow> if out_of_double_range x then Inl (Out_of_range ''stod'') else Inr (Fin (if negative then - x else x)))"

section \<open>Printing\<close>

text \<open>The decimal exponent of a positive number, and how far it is from zero.\<close>

definition dec_measure :: "real \<Rightarrow> nat" where
  "dec_measure x = (if x < 1 then nat \<lceil>- log 10 x\<rceil> else nat \<lfloor>log 10 x\<rfloor>)"

lemma dec_measure_down:
  assumes "10 \<le> x"
  shows "dec_measure (x / 10) < dec_measure x"
proof -
  have "log 10 (x / 10) = log 10 x - 1" using assms by (simp add: log_divide)
  moreover have "1 \<le> log 10 x" using assms by (simp add: le_log_iff)
  ultimately show ?thesis using assms by (simp add: dec_measure_def)
qed

lemma dec_measure_up:
  assumes "0 < x" "x < 1"
  shows "dec_measure (x * 10) < dec_measure x"
proof -
  have up: "log 10 (x * 10) = log 10 x + 1" using assms by (simp add: log_mult)
  have neg: "log 10 x < 0" using assms by (simp add: log_less_iff)
  show ?thesis
  proof (cases "x * 10 < 1")
    case True
    then have "log 10 (x * 10) < 0" using assms(1) by (simp add: log_less_iff)
    with True assms(2) up show ?thesis by (simp add: dec_measure_def)
  next
    case False
    have "\<lfloor>log 10 x + 1\<rfloor> \<le> 0" "0 < \<lceil>- log 10 x\<rceil>" using neg by linarith+
    with False assms(2) up show ?thesis by (simp add: dec_measure_def)
  qed
qed

function dec_exponent :: "real \<Rightarrow> int" where
  "dec_exponent x =
     (if x \<le> 0 then 0 else if 10 \<le> x then dec_exponent (x / 10) + 1 else if x < 1 then dec_exponent (x * 10) - 1 else 0)"
  by pat_completeness auto
termination
  by (relation "measure dec_measure") (simp_all add: dec_measure_down dec_measure_up)

declare dec_exponent.simps [simp del]

text \<open>To the nearest integer, in the middle to the even one.\<close>

definition round_even :: "real \<Rightarrow> int" where
  "round_even x =
     (let n = \<lfloor>x\<rfloor>; d = x - of_int n in
      if d < 1 / 2 then n else if 1 / 2 < d then n + 1 else if even n then n else n + 1)"

text \<open>The six digits of a positive number, as an integer, and the exponent of the first.\<close>

definition six_digits :: "real \<Rightarrow> nat \<times> int" where
  "six_digits x =
     (let e = dec_exponent x; n = nat (round_even (x * 10 powi (5 - e))) in
      if n = 10 ^ 6 then (10 ^ 5, e + 1) else (n, e))"

text \<open>Digits after the point, without zeros at the end, and without the point if there are none.\<close>

definition fraction :: "bytes \<Rightarrow> bytes" where
  "fraction ds = (let t = rev (dropWhile (\<lambda>c. c = CHR ''0'') (rev ds)) in if t = [] then [] else CHR ''.'' # t)"

definition show_exponent :: "int \<Rightarrow> bytes" where
  "show_exponent e =
     (let ds = to_string (nat \<bar>e\<bar>) in
      CHR ''e'' # (if e < 0 then CHR ''-'' else CHR ''+'') # (if length ds < 2 then CHR ''0'' # ds else ds))"

definition show_positive :: "real \<Rightarrow> bytes" where
  "show_positive x =
     (let (n, e) = six_digits x; ds = to_string n in
      if 0 \<le> e \<and> e < 6 then take (nat e + 1) ds @ fraction (drop (nat e + 1) ds)
      else if -4 \<le> e \<and> e < 0 then CHR ''0'' # fraction (replicate (nat (- e) - 1) (CHR ''0'') @ ds)
      else hd ds # fraction (tl ds) @ show_exponent e)"

fun show_double :: "double \<Rightarrow> bytes" where
  "show_double (Fin x) = (if x = 0 then ''0'' else if x < 0 then CHR ''-'' # show_positive (- x) else show_positive x)"
| "show_double (Inf negative) = (if negative then ''-inf'' else ''inf'')"
| "show_double NaN = ''nan''"


section \<open>Six digits\<close>

lemma dec_exponent_bounds:
  assumes "0 < x"
  shows "10 powi dec_exponent x \<le> x \<and> x < 10 powi (dec_exponent x + 1)"
  using assms
proof (induction x rule: dec_exponent.induct)
  case (1 x)
  note shift = power_int_add [of "10::real"]
  consider "10 \<le> x" | "x < 1" | "1 \<le> x" "x < 10" by linarith
  then show ?case
  proof cases
    case 1
    then have "dec_exponent x = dec_exponent (x / 10) + 1" by (subst dec_exponent.simps) simp
    moreover have "10 powi dec_exponent (x / 10) \<le> x / 10 \<and> x / 10 < 10 powi (dec_exponent (x / 10) + 1)"
      using "1.IH"(1) "1.prems" 1 by simp
    ultimately show ?thesis by (simp add: shift)
  next
    case 2
    then have "dec_exponent x = dec_exponent (x * 10) - 1" using "1.prems" by (subst dec_exponent.simps) simp
    moreover have "10 powi dec_exponent (x * 10) \<le> x * 10 \<and> x * 10 < 10 powi (dec_exponent (x * 10) + 1)"
      using "1.IH"(2) "1.prems" 2 by simp
    ultimately show ?thesis by (simp add: shift power_int_diff)
  next
    case 3
    then have "dec_exponent x = 0" by (subst dec_exponent.simps) simp
    with 3 show ?thesis by simp
  qed
qed

lemma round_even_error: "\<bar>of_int (round_even x) - x\<bar> \<le> 1 / 2"
proof -
  have "of_int \<lfloor>x\<rfloor> \<le> x" "x < of_int \<lfloor>x\<rfloor> + 1" by linarith+
  then show ?thesis unfolding round_even_def Let_def by (auto split: if_splits)
qed

lemma round_even_mono: "of_int a \<le> x \<Longrightarrow> a \<le> round_even x" "x < of_int b \<Longrightarrow> round_even x \<le> b"
proof -
  show "a \<le> round_even x" if "of_int a \<le> x"
  proof -
    have "a \<le> \<lfloor>x\<rfloor>" using that by (simp add: le_floor_iff)
    then show ?thesis unfolding round_even_def Let_def by auto
  qed
  show "round_even x \<le> b" if "x < of_int b"
  proof -
    have "\<lfloor>x\<rfloor> + 1 \<le> b" using that by linarith
    then show ?thesis unfolding round_even_def Let_def by auto
  qed
qed

text \<open>The number that is printed: the nearest one with six significant digits.\<close>

definition printed_value :: "real \<Rightarrow> real" where
  "printed_value x =
     (if x = 0 then 0 else let (n, e) = six_digits \<bar>x\<bar>; v = real n * 10 powi (e - 5) in if x < 0 then - v else v)"

lemma six_digits_range:
  assumes "0 < x" "six_digits x = (n, e)"
  shows "10 ^ 5 \<le> n" "n < 10 ^ 6" "\<bar>real n * 10 powi (e - 5) - x\<bar> \<le> x / 200000"
proof -
  let ?e = "dec_exponent x" and ?y = "x * 10 powi (5 - dec_exponent x)"
  have b: "10 powi ?e \<le> x" "x < 10 powi (?e + 1)" using dec_exponent_bounds [OF assms(1)] by simp_all
  have "10 powi ?e * 10 powi (5 - ?e) = (10 ^ 5 :: real)" "10 powi (?e + 1) * 10 powi (5 - ?e) = (10 ^ 6 :: real)"
    by (simp_all flip: power_int_add)
  then have y: "10 ^ 5 \<le> ?y" "?y < 10 ^ 6"
    using b mult_right_mono [OF b(1), of "10 powi (5 - ?e)"] mult_strict_right_mono [OF b(2), of "10 powi (5 - ?e)"] by simp_all
  have r: "10 ^ 5 \<le> round_even ?y" "round_even ?y \<le> 10 ^ 6"
    using round_even_mono(1) [of "10 ^ 5" ?y] round_even_mono(2) [of ?y "10 ^ 6"] y by simp_all
  define m where "m = nat (round_even ?y)"
  have m: "10 ^ 5 \<le> m" "m \<le> 10 ^ 6" "real m = of_int (round_even ?y)" using r by (simp_all add: m_def)
  have ne: "n = (if m = 10 ^ 6 then 10 ^ 5 else m)" "e = (if m = 10 ^ 6 then ?e + 1 else ?e)"
    using assms(2) by (auto simp: six_digits_def Let_def m_def split: if_splits)
  show "10 ^ 5 \<le> n" "n < 10 ^ 6" using ne(1) m by auto
  have "real n * 10 powi (e - 5) = real m * 10 powi (?e - 5)"
  proof (cases "m = 10 ^ 6")
    case True
    have "10 powi (?e + 1 - 5) = (10 :: real) * 10 powi (?e - 5)" by (simp add: power_int_diff power_int_add)
    with True ne show ?thesis by simp
  qed (use ne in simp)
  moreover have "x = ?y * 10 powi (?e - 5)" by (simp add: mult.assoc flip: power_int_add)
  ultimately have "real n * 10 powi (e - 5) - x = (real m - ?y) * 10 powi (?e - 5)" by (simp add: left_diff_distrib)
  then have "\<bar>real n * 10 powi (e - 5) - x\<bar> = \<bar>real m - ?y\<bar> * 10 powi (?e - 5)" by (simp add: abs_mult)
  also have "\<dots> \<le> 1 / 2 * 10 powi (?e - 5)" using round_even_error [of ?y] m(3) by (intro mult_right_mono) simp_all
  also have "\<dots> = 10 powi ?e / 200000" by (simp add: power_int_diff)
  also have "\<dots> \<le> x / 200000" using b(1) by simp
  finally show "\<bar>real n * 10 powi (e - 5) - x\<bar> \<le> x / 200000" .
qed

lemma printed_value_error: "\<bar>printed_value x - x\<bar> \<le> \<bar>x\<bar> / 200000"
proof -
  obtain n e where ne: "six_digits \<bar>x\<bar> = (n, e)" by fastforce
  show ?thesis
  proof (cases "x = 0")
    case False
    define v where "v = real n * 10 powi (e - 5)"
    have "\<bar>v - \<bar>x\<bar>\<bar> \<le> \<bar>x\<bar> / 200000" using False six_digits_range(3) [OF _ ne] by (simp add: v_def)
    moreover have "printed_value x = (if x < 0 then - v else v)" using False by (simp add: printed_value_def ne v_def)
    ultimately show ?thesis by (simp only: abs_if split: if_splits) auto
  qed (simp add: printed_value_def)
qed


section \<open>Reading a printed number\<close>

lemma foldl_digits:
  fixes g :: "char \<Rightarrow> nat"
  shows "foldl (\<lambda>n c. 10 * n + g c) a t = a * 10 ^ length t + foldl (\<lambda>n c. 10 * n + g c) 0 t"
proof (induction t arbitrary: a)
  case (Cons c t)
  show ?case using Cons [of "10 * a + g c"] Cons [of "g c"] by (simp add: add_mult_distrib)
qed simp

lemma stoull_append: "stoull (s @ t) = stoull s * 10 ^ length t + stoull t"
  unfolding stoull_def foldl_append by (rule foldl_digits)

lemma stoull_zeros [simp]: "stoull (replicate k (CHR ''0'')) = 0"
  by (induction k) (simp_all add: stoull_def)

lemma digits_value_stoull: "list_all isdigit s \<Longrightarrow> digits_value 10 s = stoull s"
  unfolding digits_value_def stoull_def
  by (induction s rule: rev_induct) (simp_all add: digit_value_def)

lemma length_to_string:
  assumes "10 ^ k \<le> n" "n < 10 ^ Suc k"
  shows "length (to_string n) = Suc k"
  using assms
proof (induction k arbitrary: n)
  case 0
  then show ?case by (simp add: to_string_small)
next
  case (Suc k)
  have "10 ^ k \<le> n div 10" "n div 10 < 10 ^ Suc k" using Suc.prems by (simp_all add: less_mult_imp_div_less mult.commute div_le_mono)
  moreover have "\<not> n < 10" using Suc.prems(1) by (metis mult.commute mult_le_mono1 nat_mult_1 not_less one_le_numeral one_le_power order_trans power_Suc2)
  ultimately show ?case using Suc.IH by (simp add: to_string_big)
qed

lemma to_string_leading: "0 < n \<Longrightarrow> hd (to_string n) \<noteq> CHR ''0''"
proof (induction n rule: to_string.induct)
  case (1 n)
  show ?case
  proof (cases "n < 10")
    case True
    have "of_char (digit_char n) = 48 + n" using True by (rule of_digit_char)
    with True 1(2) show ?thesis by (auto simp: to_string_small dest: arg_cong [where f = "of_char :: char \<Rightarrow> nat"])
  next
    case False
    then show ?thesis using 1 by (simp add: to_string_big)
  qed
qed

lemma to_string_all_digits [simp]: "list_all isdigit (to_string n)"
  using to_string_digits by (simp add: list_all_iff)

lemma exponent_show [simp]: "exponent (CHR ''e'') (show_exponent e) = e"
proof -
  define m where "m = nat \<bar>e\<bar>"
  define ds where "ds = (if length (to_string m) < 2 then CHR ''0'' # to_string m else to_string m)"
  have all: "list_all isdigit ds" by (simp add: ds_def isdigit_def)
  have "stoull ds = m" using stoull_append [of "''0''" "to_string m"] stoull_zeros [of 1] by (simp add: ds_def)
  then have val: "digits_value 10 ds = m" using digits_value_stoull [OF all] by simp
  have tw: "takeWhile isdigit ds = ds" using all by (simp add: takeWhile_eq_all_conv list_all_iff)
  have "show_exponent e = CHR ''e'' # (if e < 0 then CHR ''-'' else CHR ''+'') # ds"
    by (simp add: show_exponent_def ds_def m_def Let_def)
  moreover have "int m = \<bar>e\<bar>" by (simp add: m_def)
  ultimately show ?thesis using val by (simp add: exponent_def tolower_def tw)
qed

lemma fraction_cases:
  obtains k where "ds = replicate k (CHR ''0'')" "fraction ds = []"
  | t k where "ds = t @ replicate k (CHR ''0'')" "t \<noteq> []" "fraction ds = CHR ''.'' # t"
proof -
  let ?t = "rev (dropWhile (\<lambda>c. c = CHR ''0'') (rev ds))" and ?z = "takeWhile (\<lambda>c. c = CHR ''0'') (rev ds)"
  have "\<forall>c \<in> set ?z. c = CHR ''0''" by (auto dest: set_takeWhileD)
  then have z: "replicate (length ?z) (CHR ''0'') = ?z" by (rule replicate_length_same)
  have "?t @ rev ?z = rev (?z @ dropWhile (\<lambda>c. c = CHR ''0'') (rev ds))" by (rule rev_append [symmetric])
  then have "ds = ?t @ rev ?z" by (simp only: takeWhile_dropWhile_id rev_rev_ident)
  moreover have "rev ?z = replicate (length ?z) (CHR ''0'')" using arg_cong [OF z, of rev] by simp
  ultimately have ds: "ds = ?t @ replicate (length ?z) (CHR ''0'')" by simp
  show thesis
  proof (cases "?t = []")
    case True
    with ds that(1) [of "length ?z"] show thesis by (simp add: fraction_def)
  next
    case False
    with ds that(2) [of ?t "length ?z"] show thesis by (simp add: fraction_def)
  qed
qed

text \<open>What can follow the digits of a number: nothing, or an exponent.\<close>

definition suffix_value :: "bytes \<Rightarrow> int \<Rightarrow> bool" where
  "suffix_value ex e \<longleftrightarrow> ex = [] \<and> e = 0 \<or> ex = show_exponent e"

lemma suffix_valueD:
  assumes "suffix_value ex e"
  shows "takeWhile isdigit ex = []" "dropWhile isdigit ex = ex" "ex = [] \<or> hd ex \<noteq> CHR ''.''" "exponent (CHR ''e'') ex = e"
proof -
  obtain t where t: "show_exponent e = CHR ''e'' # t" by (simp add: show_exponent_def Let_def)
  have "takeWhile isdigit ex = [] \<and> dropWhile isdigit ex = ex \<and> (ex = [] \<or> hd ex \<noteq> CHR ''.'') \<and> exponent (CHR ''e'') ex = e"
  proof (cases "ex = []")
    case True
    with assms t show ?thesis by (simp add: suffix_value_def exponent_def)
  next
    case False
    then have "ex = show_exponent e" using assms by (auto simp: suffix_value_def)
    with exponent_show [of e] show ?thesis by (simp add: t isdigit_def)
  qed
  then show "takeWhile isdigit ex = []" "dropWhile isdigit ex = ex" "ex = [] \<or> hd ex \<noteq> CHR ''.''" "exponent (CHR ''e'') ex = e"
    by blast+
qed

lemma decimal_value:
  assumes "list_all isdigit ip" "ip \<noteq> []" "list_all isdigit ds" "suffix_value ex e"
  shows "decimal (ip @ fraction ds @ ex) = Some (real (stoull (ip @ ds)) / 10 ^ length ds * 10 powi e)"
proof -
  note ex = suffix_valueD [OF assms(4)]
  have all: "\<And>c. c \<in> set ip \<Longrightarrow> isdigit c" using assms(1) by (simp add: list_all_iff)
  show ?thesis
  proof (cases rule: fraction_cases [of ds])
    case (1 k)
    have "takeWhile isdigit (ip @ ex) = ip" "dropWhile isdigit (ip @ ex) = ex" using all ex by (simp_all add: takeWhile_append2 dropWhile_append2)
    then show ?thesis using 1 assms ex
      by (auto simp: decimal_def numeral_value_def Let_def digits_value_stoull stoull_append)
  next
    case (2 t k)
    have t: "list_all isdigit t" using assms(3) 2(1) by simp
    then have "\<And>c. c \<in> set t \<Longrightarrow> isdigit c" by (simp add: list_all_iff)
    then have "takeWhile isdigit (t @ ex) = t" "dropWhile isdigit (t @ ex) = ex" using ex by (simp_all add: takeWhile_append2 dropWhile_append2)
    moreover have "\<not> isdigit (CHR ''.'')" by (simp add: isdigit_def)
    then have "takeWhile isdigit (ip @ CHR ''.'' # t @ ex) = ip" "dropWhile isdigit (ip @ CHR ''.'' # t @ ex) = CHR ''.'' # t @ ex"
      using all by (simp_all add: takeWhile_append2 dropWhile_append2)
    moreover have "real (stoull (ip @ ds)) / 10 ^ length ds = real (stoull (ip @ t)) / 10 ^ length t"
      by (simp add: 2(1) stoull_append [of "ip @ t" "replicate k _", simplified] power_add)
    ultimately show ?thesis using 2 assms(1,2) t ex(4)
      by (simp add: decimal_def numeral_value_def Let_def digits_value_stoull)
  qed
qed

lemma powi_minus: "(x :: real) * 10 powi (- int k) = x / 10 ^ k"
  by (simp add: power_int_minus divide_inverse)

text \<open>The shape of a printed number, which is also that of a number in JSON.\<close>

lemma show_positive_shape:
  assumes "0 < x"
  obtains ip ds ex e where "show_positive x = ip @ fraction ds @ ex" "list_all isdigit ip" "ip \<noteq> []"
    "ip = ''0'' \<or> hd ip \<noteq> CHR ''0''" "list_all isdigit ds" "suffix_value ex e"
    "real (stoull (ip @ ds)) / 10 ^ length ds * 10 powi e = printed_value x"
proof -
  obtain n e where ne: "six_digits x = (n, e)" by fastforce
  note r = six_digits_range [OF assms ne]
  let ?ds = "to_string n"
  have len: "length ?ds = 6" using length_to_string [of 5 n] r(1,2) by simp
  have lead: "hd ?ds \<noteq> CHR ''0''" using to_string_leading r(1) by simp
  have pv: "printed_value x = real n * 10 powi (e - 5)" using assms by (simp add: printed_value_def ne)
  have part: "list_all isdigit (take i ?ds)" "list_all isdigit (drop i ?ds)" for i
    using to_string_digits [of _ n] by (auto simp: list_all_iff dest: in_set_takeD in_set_dropD)
  consider "0 \<le> e" "e < 6" | "-4 \<le> e" "e < 0" | "e < -4 \<or> 6 \<le> e" by linarith
  then show thesis
  proof cases
    case 1
    let ?i = "nat e + 1"
    have "show_positive x = take ?i ?ds @ fraction (drop ?i ?ds) @ []" using 1 by (simp add: show_positive_def ne Let_def)
    moreover have "real (stoull (take ?i ?ds @ drop ?i ?ds)) / 10 ^ length (drop ?i ?ds) * 10 powi 0 = printed_value x"
    proof -
      have "e - 5 = - int (length (drop ?i ?ds))" using 1 len by simp
      then show ?thesis by (simp only: pv append_take_drop_id stoull_to_string powi_minus power_int_0_right mult_1_right)
    qed
    moreover have "take ?i ?ds \<noteq> []" "hd (take ?i ?ds) = hd ?ds" using len by (simp_all add: hd_take)
    ultimately show thesis using that [of "take ?i ?ds" "drop ?i ?ds" "[]" 0] part lead by (simp add: suffix_value_def)
  next
    case 2
    let ?z = "replicate (nat (- e) - 1) (CHR ''0'') @ ?ds"
    have "show_positive x = ''0'' @ fraction ?z @ []" using 2 by (simp add: show_positive_def ne Let_def)
    moreover have "real (stoull (''0'' @ ?z)) / 10 ^ length ?z * 10 powi 0 = printed_value x"
    proof -
      have "''0'' @ ?z = replicate (Suc (nat (- e) - 1)) (CHR ''0'') @ ?ds" by simp
      then have "stoull (''0'' @ ?z) = n" by (simp only: stoull_append stoull_zeros stoull_to_string mult_0 add_0)
      moreover have "e - 5 = - int (length ?z)" using 2 len by simp
      ultimately show ?thesis by (simp only: pv powi_minus power_int_0_right mult_1_right)
    qed
    moreover have zero: "isdigit (CHR ''0'')" by (simp add: isdigit_def)
    then have "list_all isdigit ?z" using to_string_digits [of _ n] by (auto simp: list_all_iff)
    ultimately show thesis using that [of "''0''" ?z "[]" 0] zero by (simp add: suffix_value_def)
  next
    case 3
    have ds: "?ds = [hd ?ds] @ tl ?ds" by simp
    have "show_positive x = [hd ?ds] @ fraction (tl ?ds) @ show_exponent e" using 3 by (auto simp: show_positive_def ne Let_def)
    moreover have "real (stoull ([hd ?ds] @ tl ?ds)) / 10 ^ length (tl ?ds) * 10 powi e = printed_value x"
      using len ds by (simp add: pv power_int_diff)
    ultimately show thesis
      using that [of "[hd ?ds]" "tl ?ds" "show_exponent e" e] part(1) [of 1] part(2) [of 1] lead
      by (simp add: suffix_value_def drop_Suc take_Suc)
  qed
qed

end
