(* ===== verification/Json.thy ===== *)
theory Json
  imports Floating
begin

text \<open>
  A reader for the JSON files the measuring tools write: the tokens of a text, and the tokens of a value. A text whose tokens are those of a value is
  a rendering of that value. Strings may hold any bytes but control characters, and only the two escapes the tools write.

  Shown: how escaped strings and printed numbers are read.
\<close>

section \<open>Tokens\<close>

datatype token = TNum real | TStr bytes | TWord bytes | TPunct char

text \<open>A string after its opening quote, and what follows the closing one.\<close>

fun json_string :: "bytes \<Rightarrow> (bytes \<times> bytes) option" where
  "json_string [] = None"
| "json_string (c # s) =
     (if c = CHR 0x22 then Some ([], s)
      else if c = CHR 0x5C then
        (case s of
           [] \<Rightarrow> None
         | d # s \<Rightarrow> if d \<in> {CHR 0x22, CHR 0x5C} then map_option (\<lambda>(t, rest). (d # t, rest)) (json_string s) else None)
      else if (of_char c :: nat) < 32 then None
      else map_option (\<lambda>(t, rest). (c # t, rest)) (json_string s))"

text \<open>
  A number: an optional minus, an integer without superfluous zeros, an optional fraction and an optional exponent, neither of
  them without digits.
\<close>

definition json_exponent :: "bytes \<Rightarrow> bool" where
  "json_exponent s \<longleftrightarrow>
     s = [] \<or> tolower (hd s) = CHR ''e'' \<and>
       (let ds = (if tl s \<noteq> [] \<and> hd (tl s) \<in> {CHR ''+'', CHR ''-''} then tl (tl s) else tl s) in ds \<noteq> [] \<and> list_all isdigit ds)"

definition json_unsigned :: "bytes \<Rightarrow> real option" where
  "json_unsigned s =
     (let ip = takeWhile isdigit s; s1 = dropWhile isdigit s;
          point = (s1 \<noteq> [] \<and> hd s1 = CHR ''.'');
          fp = (if point then takeWhile isdigit (tl s1) else []);
          s2 = (if point then dropWhile isdigit (tl s1) else s1)
      in if ip \<noteq> [] \<and> (hd ip \<noteq> CHR ''0'' \<or> ip = ''0'') \<and> (point \<longrightarrow> fp \<noteq> []) \<and> json_exponent s2 then decimal s else None)"

definition json_number :: "bytes \<Rightarrow> real option" where
  "json_number s = (if s \<noteq> [] \<and> hd s = CHR ''-'' then map_option uminus (json_unsigned (tl s)) else json_unsigned s)"

definition word_char :: "char \<Rightarrow> bool" where
  "word_char c \<longleftrightarrow> isdigit c \<or> c \<in> set ''+-.'' \<or> 97 \<le> (of_char (tolower c) :: nat) \<and> (of_char (tolower c) :: nat) \<le> 122"

definition json_word :: "bytes \<Rightarrow> token option" where
  "json_word w = (if w \<in> {''true'', ''false'', ''null''} then Some (TWord w) else map_option TNum (json_number w))"

lemma json_string_shorter: "json_string s = Some (t, rest) \<Longrightarrow> length rest < length s"
  by (induction s arbitrary: t rule: json_string.induct) (fastforce split: if_splits list.splits)+

function json_lex :: "bytes \<Rightarrow> token list option" where
  "json_lex [] = Some []"
| "json_lex (c # s) =
     (if c \<in> {SP, LF, CR, CHR 0x09} then json_lex s
      else if c \<in> set ''{}[],:'' then map_option (Cons (TPunct c)) (json_lex s)
      else if c = CHR 0x22 then
        (case json_string s of
           None \<Rightarrow> None
         | Some (t, rest) \<Rightarrow> map_option (Cons (TStr t)) (json_lex rest))
      else if \<not> word_char c then None
      else
        (case json_word (takeWhile word_char (c # s)) of
           None \<Rightarrow> None
         | Some tok \<Rightarrow> map_option (Cons tok) (json_lex (dropWhile word_char s))))"
  by pat_completeness auto
termination
  by (relation "measure length") (auto dest: json_string_shorter simp: less_Suc_eq_le length_dropWhile_le)

section \<open>Values\<close>

datatype json = JNum real | JStr bytes | JWord bytes | JArr "json list" | JObj "(bytes \<times> json) list"

fun commas :: "token list list \<Rightarrow> token list" where
  "commas [] = []"
| "commas [x] = x"
| "commas (x # y # xs) = x @ TPunct (CHR '','') # commas (y # xs)"

fun json_tokens :: "json \<Rightarrow> token list" where
  "json_tokens (JNum x) = [TNum x]"
| "json_tokens (JStr s) = [TStr s]"
| "json_tokens (JWord w) = [TWord w]"
| "json_tokens (JArr xs) = TPunct (CHR ''['') # commas (map json_tokens xs) @ [TPunct (CHR '']'')]"
| "json_tokens (JObj kvs) =
     TPunct (CHR ''{'') # commas (map (\<lambda>(k, v). TStr k # TPunct (CHR '':'') # json_tokens v) kvs) @ [TPunct (CHR ''}'')]"

text \<open>The text is a rendering of the value.\<close>

definition json_text :: "bytes \<Rightarrow> json \<Rightarrow> bool" where
  "json_text s j \<longleftrightarrow> json_lex s = Some (json_tokens j)"


section \<open>Reading what was written\<close>

declare json_lex.simps(2) [simp del]

lemma json_lex_space: "c \<in> {SP, LF, CR, CHR 0x09} \<Longrightarrow> json_lex (c # s) = json_lex s"
  by (simp add: json_lex.simps(2))

lemma json_lex_punct: "c \<in> set ''{}[],:'' \<Longrightarrow> json_lex (c # s) = map_option (Cons (TPunct c)) (json_lex s)"
  by (auto simp: json_lex.simps(2))

lemma json_lex_quote: "json_string s = Some (t, rest) \<Longrightarrow> json_lex (CHR 0x22 # s) = map_option (Cons (TStr t)) (json_lex rest)"
  by (simp add: json_lex.simps(2))

text \<open>Number \<open>v\<close>, written as \<open>w\<close>.\<close>

definition number_text :: "bytes \<Rightarrow> real \<Rightarrow> bool" where
  "number_text w v \<longleftrightarrow> w \<noteq> [] \<and> list_all word_char w \<and> json_number w = Some v"

lemma json_lex_number:
  assumes "number_text w v" "\<not> word_char c"
  shows "json_lex (w @ c # s) = map_option (Cons (TNum v)) (json_lex (c # s))"
proof -
  obtain d u where w: "w = d # u" using assms(1) by (cases w) (simp_all add: number_text_def)
  have word: "\<And>x. x \<in> set w \<Longrightarrow> word_char x" using assms(1) by (simp add: number_text_def list_all_iff)
  have "json_number ''true'' = None" "json_number ''false'' = None" "json_number ''null'' = None"
    by (simp_all add: json_number_def json_unsigned_def isdigit_def)
  then have tok: "json_word w = Some (TNum v)" using assms(1) by (auto simp: number_text_def json_word_def)
  have "takeWhile word_char (w @ c # s) = w" "dropWhile word_char (u @ c # s) = c # s"
    using word assms(2) w by (simp_all add: takeWhile_append2 dropWhile_append2)
  moreover have "word_char d" using word w by simp
  then have "d \<notin> {SP, LF, CR, CHR 0x09}" "d \<notin> set ''{}[],:''" "d \<noteq> CHR 0x22" by (auto simp: word_char_def isdigit_def tolower_def)
  ultimately show ?thesis using tok by (simp add: json_lex.simps(2) w \<open>word_char d\<close>)
qed

lemma json_exponent_suffix: "suffix_value ex e \<Longrightarrow> json_exponent ex"
proof -
  have "json_exponent (show_exponent e)"
  proof -
    have "list_all isdigit (CHR ''0'' # to_string (nat \<bar>e\<bar>))" by (simp add: isdigit_def)
    then show ?thesis by (simp add: json_exponent_def show_exponent_def Let_def tolower_def)
  qed
  then show "suffix_value ex e \<Longrightarrow> json_exponent ex" by (auto simp: suffix_value_def json_exponent_def)
qed

lemma json_unsigned_value:
  assumes "list_all isdigit ip" "ip \<noteq> []" "ip = ''0'' \<or> hd ip \<noteq> CHR ''0''" "list_all isdigit ds" "suffix_value ex e"
  shows "json_unsigned (ip @ fraction ds @ ex) = decimal (ip @ fraction ds @ ex)"
proof -
  note ex = suffix_valueD [OF assms(5)] json_exponent_suffix [OF assms(5)]
  have all: "\<And>c. c \<in> set ip \<Longrightarrow> isdigit c" using assms(1) by (simp add: list_all_iff)
  show ?thesis
  proof (cases rule: fraction_cases [of ds])
    case (1 k)
    have "takeWhile isdigit (ip @ ex) = ip" "dropWhile isdigit (ip @ ex) = ex" using all ex by (simp_all add: takeWhile_append2 dropWhile_append2)
    then show ?thesis using 1 assms ex by (auto simp: json_unsigned_def Let_def)
  next
    case (2 t k)
    have "\<And>c. c \<in> set t \<Longrightarrow> isdigit c" using assms(4) 2(1) by (simp add: list_all_iff)
    then have "takeWhile isdigit (t @ ex) = t" "dropWhile isdigit (t @ ex) = ex" using ex by (simp_all add: takeWhile_append2 dropWhile_append2)
    moreover have "\<not> isdigit (CHR ''.'')" by (simp add: isdigit_def)
    then have "takeWhile isdigit (ip @ CHR ''.'' # t @ ex) = ip" "dropWhile isdigit (ip @ CHR ''.'' # t @ ex) = CHR ''.'' # t @ ex"
      using all by (simp_all add: takeWhile_append2 dropWhile_append2)
    ultimately show ?thesis using 2 assms(2,3) ex(5) by (auto simp: json_unsigned_def Let_def)
  qed
qed

lemma word_char_digit: "isdigit c \<Longrightarrow> word_char c"
  by (simp add: word_char_def)

lemma word_char_number:
  assumes "list_all isdigit ip" "list_all isdigit ds" "suffix_value ex e"
  shows "list_all word_char (ip @ fraction ds @ ex)"
proof -
  have digits: "list_all word_char s" if "list_all isdigit s" for s using that word_char_digit by (auto simp: list_all_iff)
  have "list_all word_char (fraction ds)"
    by (cases rule: fraction_cases [of ds]) (use assms(2) digits in \<open>auto simp: word_char_def\<close>)
  moreover have "list_all word_char (show_exponent e)"
    using digits [OF to_string_all_digits [of "nat \<bar>e\<bar>"]] by (simp add: show_exponent_def Let_def word_char_def tolower_def isdigit_def)
  then have "list_all word_char ex" using assms(3) by (auto simp: suffix_value_def)
  ultimately show ?thesis using digits [OF assms(1)] by simp
qed

lemma number_text_positive:
  assumes "0 < x"
  shows "number_text (show_positive x) (printed_value x)" and "json_unsigned (show_positive x) = Some (printed_value x)"
proof -
  obtain ip ds ex e where x: "show_positive x = ip @ fraction ds @ ex" "list_all isdigit ip" "ip \<noteq> []"
    "ip = ''0'' \<or> hd ip \<noteq> CHR ''0''" "list_all isdigit ds" "suffix_value ex e"
    "real (stoull (ip @ ds)) / 10 ^ length ds * 10 powi e = printed_value x"
    by (rule show_positive_shape [OF assms])
  show "json_unsigned (show_positive x) = Some (printed_value x)"
    using json_unsigned_value [OF x(2-6)] decimal_value [OF x(2,3,5,6)] x(1,7) by simp
  moreover have "hd (show_positive x) \<noteq> CHR ''-''" using x(1,2,3) by (cases ip) (auto simp: isdigit_def)
  ultimately show "number_text (show_positive x) (printed_value x)"
    using word_char_number [OF x(2,5,6)] x(1,3) by (simp add: number_text_def json_number_def)
qed

lemma number_text_double: "number_text (show_double (Fin x)) (printed_value x)"
proof -
  consider "x = 0" | "0 < x" | "x < 0" by linarith
  then show ?thesis
  proof cases
    case 1
    have "json_unsigned ''0'' = Some 0" using json_unsigned_value [of "''0''" "[]" "[]" 0] decimal_value [of "''0''" "[]" "[]" 0]
      by (simp add: suffix_value_def isdigit_def fraction_def stoull_def)
    with 1 show ?thesis by (simp add: number_text_def json_number_def printed_value_def word_char_def isdigit_def)
  next
    case 2
    then show ?thesis using number_text_positive(1) [of x] by simp
  next
    case 3
    have "printed_value x = - printed_value (- x)" using 3 by (simp add: printed_value_def Let_def case_prod_beta)
    with 3 number_text_positive [of "- x"] show ?thesis by (simp add: number_text_def json_number_def word_char_def)
  qed
qed

lemma number_text_nat: "number_text (to_string n) (real n)"
proof -
  have "to_string n = ''0'' \<or> hd (to_string n) \<noteq> CHR ''0''"
    by (cases "n = 0") (simp_all add: to_string_leading to_string_small digit_char_def)
  then have "json_unsigned (to_string n) = Some (real n)"
    using json_unsigned_value [of "to_string n" "[]" "[]" 0] decimal_value [of "to_string n" "[]" "[]" 0]
    by (simp add: suffix_value_def fraction_def)
  moreover have "isdigit (hd (to_string n))" using to_string_digits hd_in_set to_string_nonempty by blast
  then have "hd (to_string n) \<noteq> CHR ''-''" by (auto simp: isdigit_def)
  moreover have "list_all word_char (to_string n)" using to_string_digits word_char_digit by (auto simp: list_all_iff)
  ultimately show ?thesis by (simp add: number_text_def json_number_def)
qed


text \<open>What is printed for a NaN is no number.\<close>

lemma json_lex_nan: "\<not> word_char c \<Longrightarrow> json_lex (show_double NaN @ c # s) = None"
proof -
  assume "\<not> word_char c"
  then have "takeWhile word_char (''nan'' @ c # s) = ''nan''" by (simp add: word_char_def tolower_def)
  then show ?thesis
    by (simp add: json_lex.simps(2) json_word_def json_number_def json_unsigned_def isdigit_def word_char_def tolower_def)
qed

text \<open>The rules that read a text token by token.\<close>

lemma json_lex_string:
  "json_lex (CHR 0x22 # s) =
     (case json_string s of None \<Rightarrow> None | Some (t, rest) \<Rightarrow> map_option (Cons (TStr t)) (json_lex rest))"
  by (simp add: json_lex.simps(2))

lemmas json_lex_nat = json_lex_number [OF number_text_nat]
lemmas json_lex_double = json_lex_number [OF number_text_double]

lemmas json_read = json_lex_space json_lex_punct json_lex_string json_lex_nat json_lex_double json_lex_nan
  word_char_def tolower_def isdigit_def quoted_def

end
