(* ===== verification/Hashing.thy ===== *)
theory Hashing
  imports Kv_Prelude "HOL-Library.Word"
begin

unbundle bit_operations_syntax

text \<open>
  The hash of \<^verbatim>\<open>src/common/hash_ring.cpp\<close>: FNV-1a over 64-bit words, followed by the finalizer of
  MurmurHash3. \<^verbatim>\<open>uint64_t\<close> is \<^typ>\<open>64 word\<close>, whose \<open>*\<close> wraps as the C++ type does. Both stages
  are shown to be invertible, so the finalizer adds no collisions and two strings that differ in a
  single byte never collide.
\<close>

type_synonym uint64 = "64 word"

definition fmix64 :: "uint64 \<Rightarrow> uint64" where
  "fmix64 k0 =
     (let k1 = k0 XOR drop_bit 33 k0;
          k2 = k1 * 0xff51afd7ed558ccd;
          k3 = k2 XOR drop_bit 33 k2;
          k4 = k3 * 0xc4ceb9fe1a85ec53
      in k4 XOR drop_bit 33 k4)"

text \<open>One iteration of the FNV-1a loop, on a byte read as \<^verbatim>\<open>unsigned char\<close>.\<close>

definition fnv1a_step :: "uint64 \<Rightarrow> char \<Rightarrow> uint64" where
  "fnv1a_step hash c = (hash XOR of_nat (of_char c)) * 1099511628211"

definition fnv1a_hash :: "bytes \<Rightarrow> uint64" where
  "fnv1a_hash s = fmix64 (foldl fnv1a_step 14695981039346656037 s)"

text \<open>
  \<^verbatim>\<open>hash(key) % num_nodes\<close>; a zero divisor is undefined behaviour in C++, \<^const>\<open>None\<close> here.
\<close>

definition modulo_hash_node :: "bytes \<Rightarrow> nat \<Rightarrow> nat option" where
  "modulo_hash_node k num_nodes =
     (if num_nodes = 0 then None else Some (unat (fnv1a_hash k) mod num_nodes))"

section \<open>The finalizer is a bijection\<close>

lemma xorshift33_involution: "(x XOR drop_bit 33 x) XOR drop_bit 33 (x XOR drop_bit 33 x) = (x :: uint64)"
proof -
  have "drop_bit 33 (drop_bit 33 x) = 0"
    by (rule bit_eqI) (simp add: bit_simps)
  then have "drop_bit 33 (x XOR drop_bit 33 x) = drop_bit 33 x" by simp
  then show ?thesis by (simp add: xor.assoc)
qed

definition fmix64_inv :: "uint64 \<Rightarrow> uint64" where
  "fmix64_inv k0 =
     (let k1 = k0 XOR drop_bit 33 k0;
          k2 = k1 * 0x9cb4b2f8129337db;
          k3 = k2 XOR drop_bit 33 k2;
          k4 = k3 * 0x4f74430c22a54005
      in k4 XOR drop_bit 33 k4)"

lemma mult_inverses:
  "(0xc4ceb9fe1a85ec53 :: uint64) * 0x9cb4b2f8129337db = 1"
  "(0xff51afd7ed558ccd :: uint64) * 0x4f74430c22a54005 = 1"
  "(1099511628211 :: uint64) * 0xce965057aff6957b = 1"
  "(0x9cb4b2f8129337db :: uint64) * 0xc4ceb9fe1a85ec53 = 1"
  "(0x4f74430c22a54005 :: uint64) * 0xff51afd7ed558ccd = 1"
  by simp_all

lemma mult_cancels:
  "(x * 0xc4ceb9fe1a85ec53) * 0x9cb4b2f8129337db = (x :: uint64)"
  "(x * 0xff51afd7ed558ccd) * 0x4f74430c22a54005 = (x :: uint64)"
  "(x * 1099511628211) * 0xce965057aff6957b = (x :: uint64)"
  "(x * 0x9cb4b2f8129337db) * 0xc4ceb9fe1a85ec53 = (x :: uint64)"
  "(x * 0x4f74430c22a54005) * 0xff51afd7ed558ccd = (x :: uint64)"
  by (simp_all only: mult.assoc mult_inverses mult_1_right)

lemma fmix64_inv_left: "fmix64_inv (fmix64 k) = k"
  by (simp only: fmix64_def fmix64_inv_def Let_def xorshift33_involution mult_cancels)

lemma fmix64_inv_right: "fmix64 (fmix64_inv k) = k"
  by (simp only: fmix64_def fmix64_inv_def Let_def xorshift33_involution mult_cancels)

lemma fmix64_inject [simp]: "fmix64 a = fmix64 b \<longleftrightarrow> a = b"
  by (metis fmix64_inv_left)

section \<open>FNV-1a keeps distinct states apart\<close>

lemma fnv1a_step_inject_state [simp]: "fnv1a_step h c = fnv1a_step h' c \<longleftrightarrow> h = h'"
proof
  assume "fnv1a_step h c = fnv1a_step h' c"
  then have "h XOR of_nat (of_char c) = h' XOR of_nat (of_char c)"
    unfolding fnv1a_step_def by (metis mult_cancels(3))
  then have "(h XOR of_nat (of_char c)) XOR of_nat (of_char c) = (h' XOR of_nat (of_char c)) XOR of_nat (of_char c)"
    by simp
  then show "h = h'" by (simp only: xor.assoc xor_self_eq xor.right_neutral)
qed simp

lemma word_of_char_inject: "(of_nat (of_char c) :: uint64) = of_nat (of_char d) \<longleftrightarrow> c = d"
proof
  assume "(of_nat (of_char c) :: uint64) = of_nat (of_char d)"
  then have "unat (of_nat (of_char c) :: uint64) = unat (of_nat (of_char d) :: uint64)" by simp
  moreover have "(of_char x :: nat) < 2 ^ LENGTH(64)" for x :: char
    using of_char_less [of x] by (rule less_trans) simp
  ultimately have "(of_char c :: nat) = of_char d"
    by (simp add: unat_of_nat)
  then show "c = d" by simp
qed simp

lemma fnv1a_step_inject_byte [simp]: "fnv1a_step h c = fnv1a_step h d \<longleftrightarrow> c = d"
proof
  assume "fnv1a_step h c = fnv1a_step h d"
  then have "h XOR of_nat (of_char c) = h XOR of_nat (of_char d)"
    unfolding fnv1a_step_def by (metis mult_cancels(3))
  then have "h XOR (h XOR of_nat (of_char c)) = h XOR (h XOR of_nat (of_char d))" by simp
  then have "(of_nat (of_char c) :: uint64) = of_nat (of_char d)"
    by (simp only: xor.assoc [symmetric] xor_self_eq xor.left_neutral)
  then show "c = d" by (simp only: word_of_char_inject)
qed simp

lemma foldl_fnv1a_inject [simp]: "foldl fnv1a_step h s = foldl fnv1a_step h' s \<longleftrightarrow> h = h'"
  by (induction s arbitrary: h h') simp_all

section \<open>Properties\<close>

text \<open>
  The MurmurHash3 finalizer is a bijection on 64-bit words: \<^const>\<open>fmix64_inv\<close> undoes it, so
  running the raw FNV-1a state through it never merges two hash values.
\<close>

theorem fmix64_bijective: "fmix64_inv (fmix64 k) = k \<and> fmix64 (fmix64_inv k) = k"
  by (simp add: fmix64_inv_left fmix64_inv_right)

text \<open>
  Two strings that differ in exactly one byte never have the same hash, whatever surrounds that
  byte. In particular the first ten virtual nodes of a physical node lie at ten different positions.
\<close>

theorem fnv1a_hash_single_byte: "fnv1a_hash (p @ c # q) = fnv1a_hash (p @ d # q) \<longleftrightarrow> c = d"
  by (simp add: fnv1a_hash_def)

end
