(* ===== verification/Ordered_Map.thy ===== *)
theory Ordered_Map
  imports Kv_Prelude
begin

text \<open>
  \<^verbatim>\<open>std::map\<close> as the hash ring uses it: \<^verbatim>\<open>m[k] = v\<close>, \<^verbatim>\<open>erase(k)\<close>, \<^verbatim>\<open>lower_bound(k)\<close> and iteration in
  key order. The contract is the locale \<open>ordered_map\<close>; an association list in strictly ascending
  key order provides it. An iterator is the index of its entry, \<^verbatim>\<open>end()\<close> the number of entries.

  The second half is the abstract ring: from a hash, clockwise to the next occupied position. Its
  lemmas say how that position can change when positions are added or removed, which is what
  consistent hashing is about; they hold for every implementation of the contract.
\<close>

section \<open>Clockwise successor on a finite set of positions\<close>

definition clockwise :: "'k :: linorder set \<Rightarrow> 'k \<Rightarrow> 'k" where
  "clockwise P h = (if \<exists>p\<in>P. h \<le> p then Min {p \<in> P. h \<le> p} else Min P)"

lemma clockwise_in: "finite P \<Longrightarrow> P \<noteq> {} \<Longrightarrow> clockwise P h \<in> P"
proof -
  assume P: "finite P" "P \<noteq> {}"
  show ?thesis
  proof (cases "\<exists>p\<in>P. h \<le> p")
    case True
    with P have "Min {p \<in> P. h \<le> p} \<in> {p \<in> P. h \<le> p}" by (intro Min_in) auto
    with True show ?thesis by (simp add: clockwise_def)
  next
    case False
    with P show ?thesis by (simp add: clockwise_def)
  qed
qed

text \<open>A smaller ring that still holds the successor has the same successor.\<close>

lemma clockwise_subset:
  assumes "finite P" "Q \<subseteq> P" "clockwise P h \<in> Q"
  shows "clockwise Q h = clockwise P h"
proof (cases "\<exists>p\<in>P. h \<le> p")
  case True
  let ?m = "Min {p \<in> P. h \<le> p}"
  have m: "?m \<in> {p \<in> P. h \<le> p}" using True assms(1) by (intro Min_in) auto
  from True assms(3) have "?m \<in> Q" by (simp add: clockwise_def)
  with m have "Min {p \<in> Q. h \<le> p} = ?m"
    using assms(1,2) by (intro Min_eqI) (auto intro: finite_subset)
  with True m \<open>?m \<in> Q\<close> show ?thesis by (auto simp: clockwise_def)
next
  case False
  with assms(3) have "Min P \<in> Q" by (simp add: clockwise_def)
  then have "Min Q = Min P"
    using assms(1,2) by (intro Min_eqI) (auto intro: finite_subset)
  with False assms(2) show ?thesis by (auto simp: clockwise_def)
qed

lemma clockwise_union:
  assumes "finite P" "finite N"
  shows "clockwise (P \<union> N) h \<in> N \<or> P \<noteq> {} \<and> clockwise (P \<union> N) h = clockwise P h \<or> P \<union> N = {}"
proof (cases "P \<union> N = {}")
  case False
  with assms have "clockwise (P \<union> N) h \<in> P \<union> N" by (intro clockwise_in) auto
  moreover have "clockwise P h = clockwise (P \<union> N) h" if "clockwise (P \<union> N) h \<in> P"
    using assms that by (intro clockwise_subset) auto
  ultimately show ?thesis by auto
qed simp

lemma clockwise_diff:
  assumes "finite P" "P \<noteq> {}" "clockwise P h \<notin> N"
  shows "clockwise (P - N) h = clockwise P h"
  using assms clockwise_in [OF assms(1,2), of h] by (intro clockwise_subset) auto

section \<open>The contract\<close>

locale ordered_map =
  fixes entries :: "'m \<Rightarrow> ('k :: linorder \<times> 'v) list"
    and invar :: "'m \<Rightarrow> bool"
    and assign :: "'k \<Rightarrow> 'v \<Rightarrow> 'm \<Rightarrow> 'm"
    and erase :: "'k \<Rightarrow> 'm \<Rightarrow> 'm"
    and lower_bound :: "'m \<Rightarrow> 'k \<Rightarrow> nat"
  assumes entries_sorted: "invar m \<Longrightarrow> sorted_wrt (<) (map fst (entries m))"
    and invar_assign: "invar m \<Longrightarrow> invar (assign k v m)"
    and invar_erase: "invar m \<Longrightarrow> invar (erase k m)"
    and map_of_assign: "invar m \<Longrightarrow> map_of (entries (assign k v m)) = (map_of (entries m))(k \<mapsto> v)"
    and map_of_erase: "invar m \<Longrightarrow> map_of (entries (erase k m)) = (map_of (entries m))(k := None)"
    and lower_bound_split: "invar m \<Longrightarrow>
      take (lower_bound m h) (entries m) = filter (\<lambda>e. fst e < h) (entries m) \<and>
      drop (lower_bound m h) (entries m) = filter (\<lambda>e. h \<le> fst e) (entries m)"
begin

abbreviation lookup :: "'m \<Rightarrow> 'k \<rightharpoonup> 'v" where
  "lookup m \<equiv> map_of (entries m)"

abbreviation positions :: "'m \<Rightarrow> 'k set" where
  "positions m \<equiv> fst ` set (entries m)"

lemma positions_dom: "positions m = dom (lookup m)"
  by (simp add: dom_map_of_conv_image_fst)

lemma distinct_keys: "invar m \<Longrightarrow> distinct (map fst (entries m))"
  by (metis entries_sorted strict_sorted_iff)

lemma entry_lookup: "invar m \<Longrightarrow> (k, v) \<in> set (entries m) \<longleftrightarrow> lookup m k = Some v"
  using distinct_keys by simp

lemma entries_determined:
  assumes "invar m" "sorted_wrt (<) (map fst es)" "map_of es = lookup m"
  shows "es = entries m"
proof (rule map_sorted_distinct_set_unique [where f = fst])
  have "distinct (map fst es)" using assms(2) strict_sorted_iff by blast
  then show "set es = set (entries m)"
    using assms(1,3) distinct_keys [OF assms(1)] by (metis set_map_of_compr)
  then show "inj_on fst (set es \<union> set (entries m))"
    using distinct_keys [OF assms(1)] by (simp add: distinct_map)
  show "sorted (map fst es)" "sorted (map fst (entries m))"
    using assms(2) entries_sorted [OF assms(1)] by (simp_all add: strict_sorted_imp_sorted)
  show "distinct (map fst es)" "distinct (map fst (entries m))"
    using \<open>distinct (map fst es)\<close> distinct_keys [OF assms(1)] .
qed

lemma invar_fold_assign: "invar m \<Longrightarrow> invar (foldl (\<lambda>m k. assign k v m) m ks)"
  by (induction ks arbitrary: m) (simp_all add: invar_assign)

lemma invar_fold_erase: "invar m \<Longrightarrow> invar (foldl (\<lambda>m k. erase k m) m ks)"
  by (induction ks arbitrary: m) (simp_all add: invar_erase)

lemma lookup_fold_assign:
  "invar m \<Longrightarrow> lookup (foldl (\<lambda>m k. assign k v m) m ks) k = (if k \<in> set ks then Some v else lookup m k)"
  by (induction ks arbitrary: m) (simp_all add: invar_assign map_of_assign)

lemma lookup_fold_erase:
  "invar m \<Longrightarrow> lookup (foldl (\<lambda>m k. erase k m) m ks) k = (if k \<in> set ks then None else lookup m k)"
  by (induction ks arbitrary: m) (simp_all add: invar_erase map_of_erase)

text \<open>The entries in the order a walk clockwise from \<open>h\<close> meets them.\<close>

definition walk :: "'m \<Rightarrow> 'k \<Rightarrow> ('k \<times> 'v) list" where
  "walk m h = drop (lower_bound m h) (entries m) @ take (lower_bound m h) (entries m)"

lemma walk_filter:
  "invar m \<Longrightarrow> walk m h = filter (\<lambda>e. h \<le> fst e) (entries m) @ filter (\<lambda>e. fst e < h) (entries m)"
  by (simp add: walk_def lower_bound_split)

lemma set_walk: "set (walk m h) = set (entries m)"
  by (metis append_take_drop_id set_append sup_commute walk_def)

lemma walk_empty [simp]: "walk m h = [] \<longleftrightarrow> entries m = []"
  by (metis set_empty set_walk)

lemma hd_sorted_Min:
  "sorted_wrt (<) (map fst es) \<Longrightarrow> es \<noteq> [] \<Longrightarrow> fst (hd es) = Min (fst ` set es)"
  by (cases es) (auto intro!: Min_eqI [symmetric] intro: less_imp_le)

lemma hd_walk:
  assumes "invar m" "entries m \<noteq> []"
  shows "fst (hd (walk m h)) = clockwise (positions m) h"
proof (cases "\<exists>p\<in>positions m. h \<le> p")
  case True
  let ?es = "filter (\<lambda>e. h \<le> fst e) (entries m)"
  have "?es \<noteq> []" using True by (auto simp: filter_empty_conv)
  moreover have "sorted_wrt (<) (map fst ?es)"
    using entries_sorted [OF assms(1)] by (simp add: sorted_wrt_map sorted_wrt_filter)
  moreover have "fst ` set ?es = {p \<in> positions m. h \<le> p}" by auto
  ultimately show ?thesis
    using True hd_sorted_Min [of ?es] by (simp add: walk_filter [OF assms(1)] clockwise_def)
next
  case False
  then have "filter (\<lambda>e. h \<le> fst e) (entries m) = []"
    and "filter (\<lambda>e. fst e < h) (entries m) = entries m"
    by (auto simp: filter_empty_conv filter_id_conv not_le)
  with False assms show ?thesis
    using hd_sorted_Min [OF entries_sorted] by (simp add: walk_filter clockwise_def)
qed

lemma hd_walk_lookup:
  assumes "invar m" "entries m \<noteq> []"
  shows "lookup m (clockwise (positions m) h) = Some (snd (hd (walk m h)))"
  using assms hd_walk [OF assms, of h] hd_in_set [of "walk m h"]
  by (metis entry_lookup set_walk surjective_pairing walk_empty)

end

section \<open>Ascending association lists\<close>

type_synonym ('k, 'v) omap = "('k \<times> 'v) list"

text \<open>\<^verbatim>\<open>m[k] = v\<close>: overwrite the entry of \<open>k\<close>, or insert one at its place in the order.\<close>

fun om_assign :: "'k :: linorder \<Rightarrow> 'v \<Rightarrow> ('k, 'v) omap \<Rightarrow> ('k, 'v) omap" where
  "om_assign k v [] = [(k, v)]"
| "om_assign k v (e # es) =
     (if fst e < k then e # om_assign k v es
      else if fst e = k then (k, v) # es
      else (k, v) # e # es)"

text \<open>\<^verbatim>\<open>m.erase(k)\<close>\<close>

definition om_erase :: "'k :: linorder \<Rightarrow> ('k, 'v) omap \<Rightarrow> ('k, 'v) omap" where
  "om_erase k m = filter (\<lambda>e. fst e \<noteq> k) m"

text \<open>\<^verbatim>\<open>m.lower_bound(h)\<close>: the index of the first entry whose key is not below \<open>h\<close>.\<close>

definition om_lower_bound :: "('k :: linorder, 'v) omap \<Rightarrow> 'k \<Rightarrow> nat" where
  "om_lower_bound m h = length (takeWhile (\<lambda>e. fst e < h) m)"

definition om_invar :: "('k :: linorder, 'v) omap \<Rightarrow> bool" where
  "om_invar m \<longleftrightarrow> sorted_wrt (<) (map fst m)"

lemma keys_om_assign: "fst ` set (om_assign k v m) = insert k (fst ` set m)"
  by (induction m) auto

lemma om_invar_assign: "om_invar m \<Longrightarrow> om_invar (om_assign k v m)"
proof (induction m)
  case (Cons e m)
  then have "\<forall>p \<in> fst ` set (om_assign k v m). fst e < k \<longrightarrow> fst e < p"
    unfolding keys_om_assign by (auto simp: om_invar_def)
  with Cons show ?case by (auto simp: om_invar_def)
qed (simp add: om_invar_def)

lemma map_of_om_assign: "map_of (om_assign k v m) = (map_of m)(k \<mapsto> v)"
  by (induction m) (auto simp: fun_eq_iff)

lemma sum_om_assign:
  fixes f :: "'v \<Rightarrow> nat"
  assumes "om_invar m"
  shows "sum_list (map (\<lambda>e. f (snd e)) (om_assign k v m)) + (case map_of m k of None \<Rightarrow> 0 | Some c \<Rightarrow> f c)
    = sum_list (map (\<lambda>e. f (snd e)) m) + f v"
  using assms
proof (induction m)
  case (Cons e m)
  obtain k' v' where e: "e = (k', v')" by (cases e)
  have "map_of m k = None" if "k \<le> k'"
    using Cons.prems that e by (force simp: om_invar_def map_of_eq_None_iff)
  moreover have "om_invar m" using Cons.prems by (simp add: om_invar_def)
  ultimately show ?case using Cons.IH e by (cases k k' rule: linorder_cases) auto
qed simp

lemma map_of_om_erase: "map_of (om_erase k m) = (map_of m)(k := None)"
  by (induction m) (auto simp: om_erase_def fun_eq_iff)

lemma om_lower_bound_split:
  assumes "om_invar m"
  shows "take (om_lower_bound m h) m = filter (\<lambda>e. fst e < h) m"
    and "drop (om_lower_bound m h) m = filter (\<lambda>e. h \<le> fst e) m"
proof -
  have "takeWhile (\<lambda>e. fst e < h) m = filter (\<lambda>e. fst e < h) m \<and>
      dropWhile (\<lambda>e. fst e < h) m = filter (\<lambda>e. h \<le> fst e) m"
    using assms
  proof (induction m)
    case (Cons e m)
    show ?case
    proof (cases "fst e < h")
      case True
      with Cons show ?thesis by (simp add: om_invar_def)
    next
      case False
      with Cons.prems have "\<forall>x \<in> set m. h \<le> fst x" by (auto simp: om_invar_def)
      with False show ?thesis by (auto simp: filter_empty_conv filter_id_conv not_less)
    qed
  qed simp
  then show "take (om_lower_bound m h) m = filter (\<lambda>e. fst e < h) m"
    and "drop (om_lower_bound m h) m = filter (\<lambda>e. h \<le> fst e) m"
    unfolding om_lower_bound_def by (metis takeWhile_eq_take, metis dropWhile_eq_drop)
qed

interpretation omap: ordered_map "\<lambda>m. m" om_invar om_assign om_erase om_lower_bound
proof unfold_locales
  show "om_invar m \<Longrightarrow> om_invar (om_erase k m)" for m :: "('a, 'b) omap" and k
    by (simp add: om_invar_def om_erase_def sorted_wrt_map sorted_wrt_filter)
qed (simp_all add: om_invar_def om_invar_assign [unfolded om_invar_def] map_of_om_assign map_of_om_erase
    om_lower_bound_split [unfolded om_invar_def])

end
