(* ===== verification/Hash_Ring.thy ===== *)
theory Hash_Ring
  imports Hashing Ordered_Map
begin

text \<open>
  \<^verbatim>\<open>ConsistentHashRing\<close> of \<^verbatim>\<open>src/common/hash_ring.hpp\<close> and \<^verbatim>\<open>src/common/hash_ring.cpp\<close>. The ring map
  is the ascending association list of \<^verbatim>\<open>Ordered_Map\<close>. The loop of \<^verbatim>\<open>get_nodes\<close> may run for ever
  (when the ring has fewer distinct nodes than it looks for), so it is a partial function whose
  result is \<^const>\<open>None\<close> in that case; its behaviour is determined exactly below.
\<close>

section \<open>The class\<close>

record ConsistentHashRing =
  virtual_nodes_per_node :: nat
  ring :: "(uint64, bytes) omap"
  nodes :: "bytes list"

definition new_ring :: "nat \<Rightarrow> ConsistentHashRing" where
  "new_ring v = \<lparr>virtual_nodes_per_node = v, ring = [], nodes = []\<rparr>"

definition vnode_pos :: "bytes \<Rightarrow> nat \<Rightarrow> uint64" where
  "vnode_pos node_id i = fnv1a_hash (node_id @ ''#'' @ to_string i)"

definition add_node :: "ConsistentHashRing \<Rightarrow> bytes \<Rightarrow> ConsistentHashRing" where
  "add_node r node_id =
     r\<lparr>ring := foldl (\<lambda>m i. om_assign (vnode_pos node_id i) node_id m) (ring r) [0..<virtual_nodes_per_node r],
       nodes := nodes r @ [node_id]\<rparr>"

definition remove_node :: "ConsistentHashRing \<Rightarrow> bytes \<Rightarrow> ConsistentHashRing" where
  "remove_node r node_id =
     r\<lparr>ring := foldl (\<lambda>m i. om_erase (vnode_pos node_id i) m) (ring r) [0..<virtual_nodes_per_node r],
       nodes := filter (\<lambda>n. n \<noteq> node_id) (nodes r)\<rparr>"

definition get_node :: "ConsistentHashRing \<Rightarrow> bytes \<Rightarrow> exn + bytes" where
  "get_node r k =
     (if ring r = [] then Inl (Runtime_error ''ConsistentHashRing::get_node: ring has no nodes'')
      else let it = om_lower_bound (ring r) (fnv1a_hash k);
               it = (if it = length (ring r) then 0 else it)
           in Inr (snd (ring r ! it)))"

partial_function (option) get_nodes_loop ::
  "(uint64, bytes) omap \<Rightarrow> nat \<Rightarrow> nat \<Rightarrow> bytes list \<Rightarrow> bytes list option" where
  "get_nodes_loop m count it result =
     (if length result < count then
        let it = (if it = length m then 0 else it);
            node_id = snd (m ! it)
        in get_nodes_loop m count (it + 1) (if node_id \<in> set result then result else result @ [node_id])
      else Some result)"

definition get_nodes :: "ConsistentHashRing \<Rightarrow> bytes \<Rightarrow> nat \<Rightarrow> (exn + bytes list) option" where
  "get_nodes r k count =
     (if ring r = [] then Some (Inl (Runtime_error ''ConsistentHashRing::get_nodes: ring has no nodes''))
      else map_option Inr
        (get_nodes_loop (ring r) (min count (length (nodes r))) (om_lower_bound (ring r) (fnv1a_hash k)) []))"

definition node_count :: "ConsistentHashRing \<Rightarrow> nat" where
  "node_count r = length (nodes r)"

section \<open>The walk of get\_nodes\<close>

lemma get_nodes_loop_done: "\<not> length result < count \<Longrightarrow> get_nodes_loop m count it result = Some result"
  by (subst get_nodes_loop.simps) simp

lemma get_nodes_loop_step:
  "length result < count \<Longrightarrow> it < length m \<Longrightarrow>
    get_nodes_loop m count it result = get_nodes_loop m count (Suc it) (collect result [snd (m ! it)])"
  by (subst get_nodes_loop.simps) (simp add: Let_def)

lemma get_nodes_loop_wrap:
  assumes "m \<noteq> []" "length result < count"
  shows "get_nodes_loop m count (length m) result = get_nodes_loop m count 0 result"
proof -
  have "get_nodes_loop m count (length m) result = get_nodes_loop m count (Suc 0) (collect result [snd (m ! 0)])"
    using assms by (subst get_nodes_loop.simps) (simp add: Let_def)
  with assms get_nodes_loop_step [of result count 0 m] show ?thesis by simp
qed

text \<open>Scanning from \<open>it\<close> to the end of the map, before any wrap.\<close>

lemma get_nodes_loop_scan:
  assumes "it \<le> length m" "length result \<le> count"
  shows "get_nodes_loop m count it result =
    (let r = collect result (map snd (drop it m)) in
     if count \<le> length r then Some (take count r) else get_nodes_loop m count (length m) r)"
  using assms
proof (induction "length m - it" arbitrary: it result)
  case 0
  then show ?case by (auto simp: Let_def get_nodes_loop_done)
next
  case (Suc n)
  then have it: "it < length m" by simp
  then have d: "map snd (drop it m) = snd (m ! it) # map snd (drop (Suc it) m)"
    by (simp add: Cons_nth_drop_Suc [symmetric])
  show ?case
  proof (cases "length result < count")
    case True
    then have "get_nodes_loop m count it result
        = get_nodes_loop m count (Suc it) (collect result [snd (m ! it)])"
      using it by (rule get_nodes_loop_step)
    moreover have "length (collect result [snd (m ! it)]) \<le> count" using True by simp
    ultimately show ?thesis using Suc.hyps(1) [of "Suc it" "collect result [snd (m ! it)]"] Suc.hyps(2) it
      by (simp add: d)
  next
    case False
    with Suc.prems have "length result = count" by simp
    moreover have "length result \<le> length (collect result (map snd (drop it m)))"
      using prefix_collect by (rule prefix_length_le)
    ultimately show ?thesis by (simp add: Let_def get_nodes_loop_done take_collect)
  qed
qed

lemma get_nodes_loop_finds:
  assumes "m \<noteq> []" "it \<le> length m" "count \<le> card (snd ` set m)"
  shows "get_nodes_loop m count it [] = Some (take count (collect [] (map snd (drop it m @ take it m))))"
proof -
  let ?c1 = "collect [] (map snd (drop it m))" and ?c2 = "collect [] (map snd (drop it m @ take it m))"
  show ?thesis
  proof (cases "count \<le> length ?c1")
    case True
    then show ?thesis
      using assms(2) take_collect_append [OF True, of "map snd (take it m)"]
        get_nodes_loop_scan [of it m "[]" count] by (simp add: Let_def)
  next
    case False
    have "map snd m = map snd (take it m) @ map snd (drop it m)"
      by (metis append_take_drop_id map_append)
    then have c: "collect ?c1 (map snd m) = ?c2"
      by (simp add: collect_absorb)
    have "length ?c2 = card (set (map snd m))"
      unfolding c [symmetric] by (simp add: length_collect image_mono set_drop_subset sup.absorb2)
    then have "count \<le> length (collect ?c1 (map snd m))" using assms(3) c by simp
    then have "get_nodes_loop m count 0 ?c1 = Some (take count ?c2)"
      using False get_nodes_loop_scan [of 0 m ?c1 count] c by simp
    with False show ?thesis
      using assms(1,2) get_nodes_loop_wrap [of m ?c1 count] get_nodes_loop_scan [of it m "[]" count]
      by (simp add: Let_def)
  qed
qed

lemma get_nodes_loop_returns:
  assumes "get_nodes_loop m count it result = Some r"
    and "m \<noteq> []" "it \<le> length m" "distinct result" "set result \<subseteq> snd ` set m"
  shows "count \<le> card (snd ` set m)"
proof -
  have "m \<noteq> [] \<longrightarrow> it \<le> length m \<longrightarrow> distinct result \<longrightarrow> set result \<subseteq> snd ` set m
      \<longrightarrow> count \<le> card (snd ` set m)"
  proof (rule get_nodes_loop.raw_induct [where P = "\<lambda>m count it result r. m \<noteq> [] \<longrightarrow> it \<le> length m
      \<longrightarrow> distinct result \<longrightarrow> set result \<subseteq> snd ` set m \<longrightarrow> count \<le> card (snd ` set m)", OF _ assms(1)],
      intro impI)
    fix f :: "(uint64, bytes) omap \<Rightarrow> nat \<Rightarrow> nat \<Rightarrow> bytes list \<Rightarrow> bytes list option"
      and m :: "(uint64, bytes) omap" and count it and result r :: "bytes list"
    assume IH: "\<And>m count it result r. f m count it result = Some r \<Longrightarrow> m \<noteq> [] \<longrightarrow> it \<le> length m
        \<longrightarrow> distinct result \<longrightarrow> set result \<subseteq> snd ` set m \<longrightarrow> count \<le> card (snd ` set m)"
      and eq: "(if length result < count then
        let it = (if it = length m then 0 else it); node_id = snd (m ! it)
        in f m count (it + 1) (if node_id \<in> set result then result else result @ [node_id])
      else Some result) = Some r"
      and pre: "m \<noteq> []" "it \<le> length m" "distinct result" "set result \<subseteq> snd ` set m"
    show "count \<le> card (snd ` set m)"
    proof (cases "length result < count")
      case True
      define i where "i = (if it = length m then 0 else it)"
      define res where "res = (if snd (m ! i) \<in> set result then result else result @ [snd (m ! i)])"
      have i: "i < length m" using pre(1,2) by (auto simp: i_def)
      then have "snd (m ! i) \<in> snd ` set m" by simp
      then have "distinct res" "set res \<subseteq> snd ` set m" using pre(3,4) by (auto simp: res_def)
      moreover have "f m count (i + 1) res = Some r" using eq True unfolding i_def res_def by (simp only: if_True Let_def)
      ultimately show ?thesis using IH [of m count "i + 1" res r] pre(1) i by simp
    next
      case False
      then have "count \<le> card (set result)" using pre(3) by (simp add: distinct_card)
      also have "\<dots> \<le> card (snd ` set m)" using pre(4) by (intro card_mono) auto
      finally show ?thesis .
    qed
  qed
  with assms show ?thesis by blast
qed

section \<open>The ring invariant\<close>

definition vnodes :: "nat \<Rightarrow> bytes \<Rightarrow> uint64 set" where
  "vnodes v n = vnode_pos n ` {..<v}"

text \<open>Entries are in order, and an entry belongs to a present node and is one of its positions.\<close>

definition ring_inv :: "ConsistentHashRing \<Rightarrow> bool" where
  "ring_inv r \<longleftrightarrow> om_invar (ring r) \<and>
     (\<forall>(p, n) \<in> set (ring r). n \<in> set (nodes r) \<and> p \<in> vnodes (virtual_nodes_per_node r) n)"

lemma ring_inv_om: "ring_inv r \<Longrightarrow> om_invar (ring r)"
  by (simp add: ring_inv_def)

lemma ring_inv_entry:
  "ring_inv r \<Longrightarrow> map_of (ring r) p = Some n \<Longrightarrow> n \<in> set (nodes r) \<and> p \<in> vnodes (virtual_nodes_per_node r) n"
  by (auto simp: ring_inv_def dest: map_of_SomeD)

lemma ring_invI:
  assumes "om_invar (ring r)"
    and "\<And>p n. map_of (ring r) p = Some n \<Longrightarrow> n \<in> set (nodes r) \<and> p \<in> vnodes (virtual_nodes_per_node r) n"
  shows "ring_inv r"
  using assms omap.entry_lookup [OF assms(1)] by (auto simp: ring_inv_def)

lemma om_invar_add_node [inv_intros]: "om_invar (ring r) \<Longrightarrow> om_invar (ring (add_node r n))"
  using omap.invar_fold_assign [of "ring r" n "map (vnode_pos n) [0..<virtual_nodes_per_node r]"]
  by (simp add: add_node_def foldl_map)

lemma om_invar_remove_node [inv_intros]: "om_invar (ring r) \<Longrightarrow> om_invar (ring (remove_node r n))"
  using omap.invar_fold_erase [of "ring r" "map (vnode_pos n) [0..<virtual_nodes_per_node r]"]
  by (simp add: remove_node_def foldl_map)

lemma lookup_add_node:
  "om_invar (ring r) \<Longrightarrow> map_of (ring (add_node r n)) p =
     (if p \<in> vnodes (virtual_nodes_per_node r) n then Some n else map_of (ring r) p)"
  using omap.lookup_fold_assign [of "ring r" n "map (vnode_pos n) [0..<virtual_nodes_per_node r]" p]
  by (simp add: add_node_def foldl_map vnodes_def lessThan_atLeast0)

lemma lookup_remove_node:
  "om_invar (ring r) \<Longrightarrow> map_of (ring (remove_node r n)) p =
     (if p \<in> vnodes (virtual_nodes_per_node r) n then None else map_of (ring r) p)"
  using omap.lookup_fold_erase [of "ring r" "map (vnode_pos n) [0..<virtual_nodes_per_node r]" p]
  by (simp add: remove_node_def foldl_map vnodes_def lessThan_atLeast0)

lemma vnodes_unchanged [simp]:
  "virtual_nodes_per_node (add_node r n) = virtual_nodes_per_node r"
  "virtual_nodes_per_node (remove_node r n) = virtual_nodes_per_node r"
  "nodes (add_node r n) = nodes r @ [n]"
  "nodes (remove_node r n) = filter (\<lambda>m. m \<noteq> n) (nodes r)"
  by (simp_all add: add_node_def remove_node_def)

lemma new_ring_simps [simp]:
  "ring (new_ring v) = []" "nodes (new_ring v) = []" "virtual_nodes_per_node (new_ring v) = v"
  by (simp_all add: new_ring_def)

lemma ring_inv_new [inv_intros]: "ring_inv (new_ring v)"
  by (simp add: ring_inv_def om_invar_def)

lemma ring_inv_add_node [inv_intros]: "ring_inv r \<Longrightarrow> ring_inv (add_node r n)"
  by (rule ring_invI)
    (auto simp: om_invar_add_node ring_inv_om lookup_add_node dest: ring_inv_entry split: if_splits)

lemma ring_inv_remove_node [inv_intros]: "ring_inv r \<Longrightarrow> ring_inv (remove_node r n)"
  by (rule ring_invI)
    (auto simp: om_invar_remove_node ring_inv_om lookup_remove_node dest: ring_inv_entry split: if_splits)

section \<open>Owners and preference lists\<close>

text \<open>All nodes of the ring in the order in which a walk clockwise from the key meets them.\<close>

definition preference :: "ConsistentHashRing \<Rightarrow> bytes \<Rightarrow> bytes list" where
  "preference r k = collect [] (map snd (omap.walk (ring r) (fnv1a_hash k)))"

lemma om_lower_bound_le: "om_lower_bound m h \<le> length m"
  by (simp add: om_lower_bound_def length_takeWhile_le)

lemma get_node_walk:
  assumes "ring r \<noteq> []"
  shows "get_node r k = Inr (snd (hd (omap.walk (ring r) (fnv1a_hash k))))"
proof (cases "om_lower_bound (ring r) (fnv1a_hash k) = length (ring r)")
  case True
  with assms show ?thesis by (simp add: get_node_def omap.walk_def hd_conv_nth)
next
  case False
  with om_lower_bound_le [of "ring r" "fnv1a_hash k"]
  have "om_lower_bound (ring r) (fnv1a_hash k) < length (ring r)" by simp
  with assms show ?thesis by (simp add: get_node_def omap.walk_def hd_drop_conv_nth)
qed

lemma get_node_preference:
  "ring r \<noteq> [] \<Longrightarrow> preference r k \<noteq> [] \<and> get_node r k = Inr (hd (preference r k))"
  using hd_collect [of "map snd (omap.walk (ring r) (fnv1a_hash k))"]
  by (simp add: get_node_walk preference_def hd_map)

lemma set_preference: "set (preference r k) = snd ` set (ring r)"
  by (simp add: preference_def omap.set_walk)

lemma distinct_preference [simp]: "distinct (preference r k)"
  by (simp add: preference_def)

lemma length_preference: "length (preference r k) = card (snd ` set (ring r))"
  using distinct_card [OF distinct_preference, of r k] by (simp add: set_preference)

lemma get_nodes_eq:
  assumes "ring r \<noteq> []"
  shows "get_nodes r k count =
    (if min count (length (nodes r)) \<le> length (preference r k)
     then Some (Inr (take (min count (length (nodes r))) (preference r k))) else None)"
proof (cases "min count (length (nodes r)) \<le> length (preference r k)")
  case True
  then have "min count (length (nodes r)) \<le> card (snd ` set (ring r))" by (simp only: length_preference)
  from get_nodes_loop_finds [OF assms om_lower_bound_le this] True assms show ?thesis
    by (simp add: get_nodes_def preference_def omap.walk_def)
next
  case False
  then have "get_nodes_loop (ring r) (min count (length (nodes r))) (om_lower_bound (ring r) (fnv1a_hash k)) [] = None"
    using get_nodes_loop_returns [of "ring r" "min count (length (nodes r))" "om_lower_bound (ring r) (fnv1a_hash k)" "[]"]
      assms om_lower_bound_le [of "ring r"]
    by (cases "get_nodes_loop (ring r) (min count (length (nodes r))) (om_lower_bound (ring r) (fnv1a_hash k)) []")
      (auto simp: length_preference)
  with False assms show ?thesis by (simp add: get_nodes_def)
qed

section \<open>Removing and adding a node\<close>

lemma fold_om_erase: "foldl (\<lambda>m k. om_erase k m) m ks = filter (\<lambda>e. fst e \<notin> set ks) m"
  by (induction ks arbitrary: m) (auto simp: om_erase_def intro: filter_cong)

text \<open>No position of \<open>n\<close> is held by another node.\<close>

definition undisputed :: "ConsistentHashRing \<Rightarrow> bytes \<Rightarrow> bool" where
  "undisputed r n \<longleftrightarrow> (\<forall>e \<in> set (ring r). fst e \<in> vnodes (virtual_nodes_per_node r) n \<longrightarrow> snd e = n)"

lemma ring_remove_node:
  assumes "ring_inv r" "undisputed r n"
  shows "ring (remove_node r n) = filter (\<lambda>e. snd e \<noteq> n) (ring r)"
proof -
  have "ring (remove_node r n) = filter (\<lambda>e. fst e \<notin> vnodes (virtual_nodes_per_node r) n) (ring r)"
    using fold_om_erase [of "ring r" "map (vnode_pos n) [0..<virtual_nodes_per_node r]"]
    by (simp add: remove_node_def foldl_map vnodes_def lessThan_atLeast0)
  also have "\<dots> = filter (\<lambda>e. snd e \<noteq> n) (ring r)"
    using assms by (intro filter_cong) (auto simp: ring_inv_def undisputed_def)
  finally show ?thesis .
qed

lemma walk_filter_entries:
  assumes "om_invar m"
  shows "omap.walk (filter Q m) h = filter Q (omap.walk m h)"
proof -
  have "om_invar (filter Q m)" using assms by (simp add: om_invar_def sorted_wrt_map sorted_wrt_filter)
  with assms show ?thesis by (simp add: omap.walk_filter conj_commute)
qed

lemma preference_remove_node:
  assumes "ring_inv r" "undisputed r n"
  shows "preference (remove_node r n) k = filter (\<lambda>m. m \<noteq> n) (preference r k)"
  by (simp add: preference_def ring_remove_node [OF assms] walk_filter_entries [OF ring_inv_om [OF assms(1)]]
      filter_collect filter_map comp_def)

section \<open>Rings built from a list of nodes\<close>

text \<open>The ring the router's constructor builds: \<^verbatim>\<open>for (n : nodes_) ring_.add_node(n.id())\<close>.\<close>

definition build_ring :: "nat \<Rightarrow> bytes list \<Rightarrow> ConsistentHashRing" where
  "build_ring v ids = foldl add_node (new_ring v) ids"

definition collision_free :: "nat \<Rightarrow> bytes list \<Rightarrow> bool" where
  "collision_free v ids \<longleftrightarrow> (\<forall>a \<in> set ids. \<forall>b \<in> set ids. a \<noteq> b \<longrightarrow> vnodes v a \<inter> vnodes v b = {})"

lemma build_ring_snoc: "build_ring v (ids @ [n]) = add_node (build_ring v ids) n"
  by (simp add: build_ring_def)

lemma build_ring_simps [simp]:
  "virtual_nodes_per_node (build_ring v ids) = v" "nodes (build_ring v ids) = ids"
  by (induction ids rule: rev_induct) (simp_all add: build_ring_snoc, simp_all add: build_ring_def)

lemma ring_inv_build_ring [inv_intros]: "ring_inv (build_ring v ids)"
  by (induction ids rule: rev_induct)
    (simp_all add: build_ring_snoc ring_inv_add_node, simp add: build_ring_def ring_inv_new)

lemma lookup_build_ring:
  "collision_free v ids \<Longrightarrow> n \<in> set ids \<Longrightarrow> p \<in> vnodes v n \<Longrightarrow> map_of (ring (build_ring v ids)) p = Some n"
proof (induction ids rule: rev_induct)
  case (snoc m ids)
  have free: "collision_free v ids" using snoc.prems(1) by (simp add: collision_free_def)
  have "p \<in> vnodes v m \<longrightarrow> n = m"
    using snoc.prems unfolding collision_free_def by fastforce
  with snoc free show ?case
    by (auto simp: build_ring_snoc lookup_add_node ring_inv_om ring_inv_build_ring)
qed simp

lemma owners_build_ring:
  assumes "0 < v" "collision_free v ids"
  shows "snd ` set (ring (build_ring v ids)) = set ids"
proof
  show "snd ` set (ring (build_ring v ids)) \<subseteq> set ids"
    using ring_inv_build_ring [of v ids] by (auto simp: ring_inv_def)
  show "set ids \<subseteq> snd ` set (ring (build_ring v ids))"
  proof
    fix n assume "n \<in> set ids"
    then have "map_of (ring (build_ring v ids)) (vnode_pos n 0) = Some n"
      using assms by (intro lookup_build_ring) (auto simp: vnodes_def)
    then show "n \<in> snd ` set (ring (build_ring v ids))" by (force dest: map_of_SomeD)
  qed
qed

lemma owners_subset_build_ring: "snd ` set (ring (build_ring v ids)) \<subseteq> set ids"
  using ring_inv_build_ring [of v ids] by (auto simp: ring_inv_def)

lemma ring_build_ring_nonempty:
  assumes "0 < v" "ids \<noteq> []"
  shows "ring (build_ring v ids) \<noteq> []"
proof -
  from assms(2) obtain ms m where ids: "ids = ms @ [m]" by (meson rev_exhaust)
  have "vnode_pos m 0 \<in> vnodes v m" using assms(1) by (auto simp: vnodes_def)
  then have "map_of (ring (build_ring v ids)) (vnode_pos m 0) = Some m"
    by (simp add: ids build_ring_snoc lookup_add_node ring_inv_om ring_inv_build_ring)
  then show ?thesis by auto
qed

lemma length_preference_build_ring:
  assumes "0 < v" "distinct ids" "collision_free v ids"
  shows "length (preference (build_ring v ids) k) = length ids"
  using assms by (simp add: length_preference owners_build_ring distinct_card)

lemma get_node_add_node:
  assumes "ring_inv r" and "get_node r k = Inr m"
  shows "get_node (add_node r n) k = Inr m \<or> get_node (add_node r n) k = Inr n"
proof -
  let ?P = "fst ` set (ring r)" and ?N = "vnodes (virtual_nodes_per_node r) n" and ?h = "fnv1a_hash k"
  let ?P' = "fst ` set (ring (add_node r n))"
  have ne: "ring r \<noteq> []" using assms(2) by (auto simp: get_node_def)
  have inv: "om_invar (ring (add_node r n))" using assms(1) by (simp add: inv_intros ring_inv_om)
  have dom: "?P' = ?P \<union> ?N"
    unfolding dom_map_of_conv_image_fst [symmetric]
    by (auto simp: lookup_add_node [OF ring_inv_om [OF assms(1)]] dom_def split: if_splits)
  then have ne': "ring (add_node r n) \<noteq> []" using ne by auto
  have old: "map_of (ring r) (clockwise ?P ?h) = Some m"
    using omap.hd_walk_lookup [OF ring_inv_om [OF assms(1)] ne] assms(2) by (simp add: get_node_walk [OF ne])
  have new: "map_of (ring (add_node r n)) (clockwise ?P' ?h) = Some (snd (hd (omap.walk (ring (add_node r n)) ?h)))"
    by (rule omap.hd_walk_lookup [OF inv ne'])
  have fin: "finite ?N" by (simp add: vnodes_def)
  have "clockwise ?P' ?h \<in> ?N \<or> clockwise ?P' ?h = clockwise ?P ?h"
    using clockwise_union [of ?P ?N ?h] ne fin unfolding dom by auto
  then show ?thesis
    using new old
    by (cases "clockwise ?P' ?h \<in> ?N")
      (simp_all add: get_node_walk [OF ne'] lookup_add_node [OF ring_inv_om [OF assms(1)]])
qed

section \<open>Properties\<close>

text \<open>A small ring for the concrete instances: two nodes with one position each.\<close>

abbreviation demo_ids :: "bytes list" where
  "demo_ids \<equiv> [''a:1'', ''b:2'']"

lemma demo_positions:
  "vnode_pos ''a:1'' 0 = 13847536702500840618" "vnode_pos ''b:2'' 0 = 335954402655046310"
  "vnode_pos ''c:3'' 0 = 12107996197511463256"
  by code_simp+

lemma demo_collision_free: "collision_free (Suc 0) demo_ids"
  by (simp add: collision_free_def vnodes_def demo_positions lessThan_Suc)

lemma demo_ring: "ring (build_ring (Suc 0) demo_ids) =
    [(335954402655046310, ''b:2''), (13847536702500840618, ''a:1'')]"
  by (simp add: build_ring_def add_node_def new_ring_def demo_positions)



text \<open>
  C17: Adding a node moves keys to that node only: every key keeps its owner or is now owned by the
  node that was added. This needs no assumption about hash collisions.
\<close>

theorem add_node_moves_keys_to_it_only:
  assumes "ring_inv r" and "get_node r k = Inr m"
  shows "get_node (add_node r n) k = Inr m \<or> get_node (add_node r n) k = Inr n"
  by (rule get_node_add_node [OF assms])

theorem add_node_moves_keys_to_it_only_witness:
  "get_node (build_ring (Suc 0) demo_ids) ''k'' = Inr ''a:1'' \<and>
   (get_node (add_node (build_ring (Suc 0) demo_ids) ''c:3'') ''k'' = Inr ''a:1'' \<or>
    get_node (add_node (build_ring (Suc 0) demo_ids) ''c:3'') ''k'' = Inr ''c:3'')"
proof -
  have "fnv1a_hash ''k'' \<le> 13847536702500840618 \<and> 335954402655046310 < fnv1a_hash ''k''" by code_simp
  then have "get_node (build_ring (Suc 0) demo_ids) ''k'' = Inr ''a:1''"
    by (auto simp: get_node_def demo_ring om_lower_bound_def)
  with add_node_moves_keys_to_it_only [OF ring_inv_build_ring this] show ?thesis by simp
qed

text \<open>
  Removing a node only takes that node out of every key's preference list: all other nodes keep
  their relative order, so a key that was not on the removed node keeps its owner and its replicas
  move up by one place. Needed: no position of the removed node is held by another node.
\<close>

theorem remove_node_keeps_other_owners:
  assumes "ring_inv r" and "undisputed r n"
  shows "preference (remove_node r n) k = filter (\<lambda>m. m \<noteq> n) (preference r k) \<and>
    (\<forall>m. get_node r k = Inr m \<and> m \<noteq> n \<longrightarrow> get_node (remove_node r n) k = Inr m)"
proof (intro conjI allI impI)
  show pref: "preference (remove_node r n) k = filter (\<lambda>m. m \<noteq> n) (preference r k)"
    by (rule preference_remove_node [OF assms])
  fix m assume m: "get_node r k = Inr m \<and> m \<noteq> n"
  then have "ring r \<noteq> []" by (auto simp: get_node_def)
  with m have hd: "preference r k \<noteq> []" "hd (preference r k) = m"
    using get_node_preference [of r k] by auto
  with m pref have pref': "preference (remove_node r n) k \<noteq> []" "hd (preference (remove_node r n) k) = m"
    by (cases "preference r k"; simp)+
  then have "ring (remove_node r n) \<noteq> []" using set_preference [of "remove_node r n" k] by auto
  with pref' show "get_node (remove_node r n) k = Inr m" using get_node_preference by metis
qed

theorem remove_node_keeps_other_owners_witness:
  "undisputed (build_ring (Suc 0) demo_ids) ''b:2'' \<and>
   preference (remove_node (build_ring (Suc 0) demo_ids) ''b:2'') ''k''
     = filter (\<lambda>m. m \<noteq> ''b:2'') (preference (build_ring (Suc 0) demo_ids) ''k'')"
proof -
  have "undisputed (build_ring (Suc 0) demo_ids) ''b:2''"
    by (simp add: undisputed_def demo_ring vnodes_def demo_positions lessThan_Suc)
  with remove_node_keeps_other_owners [OF ring_inv_build_ring this, of "''k''"] show ?thesis by simp
qed

text \<open>
  Adding a node and removing it again restores the ring, if the node was not present and its
  positions were free.
\<close>

theorem remove_node_undoes_add_node:
  assumes "ring_inv r" and "n \<notin> set (nodes r)"
    and "vnodes (virtual_nodes_per_node r) n \<inter> fst ` set (ring r) = {}"
  shows "remove_node (add_node r n) n = r"
proof -
  let ?r = "remove_node (add_node r n) n"
  have inv: "om_invar (ring (add_node r n))" "om_invar (ring ?r)"
    using assms(1) by (simp_all add: inv_intros ring_inv_om)
  have "map_of (ring ?r) p = map_of (ring r) p" for p
  proof (cases "p \<in> vnodes (virtual_nodes_per_node r) n")
    case True
    with assms(3) have "map_of (ring r) p = None" by (auto simp: map_of_eq_None_iff)
    with True show ?thesis by (simp add: lookup_remove_node [OF inv(1)])
  next
    case False
    then show ?thesis by (simp add: lookup_remove_node [OF inv(1)] lookup_add_node [OF ring_inv_om [OF assms(1)]])
  qed
  then have "map_of (ring ?r) = map_of (ring r)" by (rule ext)
  with inv(2) have "ring ?r = ring r"
    by (intro omap.entries_determined [OF ring_inv_om [OF assms(1)]]) (simp_all add: om_invar_def)
  moreover have "filter (\<lambda>m. m \<noteq> n) (nodes r) = nodes r"
    using assms(2) by (auto simp: filter_id_conv)
  ultimately show ?thesis by (intro ConsistentHashRing.equality) simp_all
qed

theorem remove_node_undoes_add_node_witness:
  "remove_node (add_node (build_ring (Suc 0) demo_ids) ''c:3'') ''c:3'' = build_ring (Suc 0) demo_ids"
  by (rule remove_node_undoes_add_node [OF ring_inv_build_ring])
    (simp_all add: demo_ring vnodes_def demo_positions lessThan_Suc)



text \<open>
  C36: The documentation says that with fewer distinct nodes than asked for, \<^verbatim>\<open>get_nodes\<close> returns
  however many exist. With a node listed twice it does not return: \<^verbatim>\<open>nodes_\<close> counts the duplicate,
  and the loop searches for a node that is not on the ring.
\<close>

theorem get_nodes_diverges_on_duplicate_nodes:
  assumes "0 < v" and "\<not> distinct ids" and "length ids \<le> count"
  shows "get_nodes (build_ring v ids) k count = None"
proof -
  let ?r = "build_ring v ids"
  have "card (snd ` set (ring ?r)) \<le> card (set ids)"
    by (intro card_mono owners_subset_build_ring) simp
  also have "\<dots> < length ids"
    using assms(2) card_distinct card_length le_neq_implies_less by blast
  finally have "length (preference ?r k) < length ids" by (simp add: length_preference)
  moreover have "ring ?r \<noteq> []" using assms by (intro ring_build_ring_nonempty) auto
  ultimately show ?thesis using get_nodes_eq [of ?r k count] assms(3) by simp
qed

theorem get_nodes_diverges_on_duplicate_nodes_witness:
  "get_nodes (build_ring 150 [''127.0.0.1:7001'', ''127.0.0.1:7001'']) ''k'' 2 = None"
  by (rule get_nodes_diverges_on_duplicate_nodes) simp_all

end
