(* ===== verification/Hash_Report.thy ===== *)
theory Hash_Report
  imports Json Hash_Ring "HOL-Library.List_Lexorder" "HOL-Library.Char_ord"
begin

text \<open>
  \<^verbatim>\<open>src/tools/hash_report.cpp\<close>: the two metrics of \<^verbatim>\<open>kvhashreport\<close>, the balance of keys over nodes and the fraction of
  keys that move when a node is added, for modulo hashing and for the ring; its arguments, the text it prints and the file it writes.
  Rounding is not modelled, but a fraction of no keys is a NaN.

  Shown: the counts of a balance are the numbers of keys of each node, the remap fraction of the ring is the
  share of the keys that the added node owns, and the file reads back as the report.
\<close>

section \<open>The metrics\<close>

definition make_keys :: "nat \<Rightarrow> bytes list" where
  "make_keys n = map (\<lambda>i. ''key:'' @ to_string i) [0..<n]"

record BalanceStats =
  counts :: "(bytes, nat) omap"
  expected :: real
  max_deviation_pct :: real

text \<open>\<^verbatim>\<open>counts[node]++\<close>: an absent key starts at 0.\<close>

definition increment :: "(bytes, nat) omap \<Rightarrow> bytes \<Rightarrow> (bytes, nat) omap" where
  "increment m node = om_assign node ((case map_of m node of None \<Rightarrow> 0 | Some c \<Rightarrow> c) + 1) m"

definition zero_counts :: "bytes list \<Rightarrow> (bytes, nat) omap" where
  "zero_counts ids = foldl (\<lambda>m node. om_assign node 0 m) [] ids"

text \<open>
  The common end of both balance functions. Without keys every deviation is NaN, which \<^verbatim>\<open>std::max\<close> does not take; the maximum is 0
  then, as it is with the quotient 0 of HOL.
\<close>

definition balance_stats :: "(bytes, nat) omap \<Rightarrow> nat \<Rightarrow> nat \<Rightarrow> BalanceStats" where
  "balance_stats m num_keys num_nodes =
     (let ideal = real num_keys / real num_nodes in
      \<lparr>counts = m, expected = ideal,
       max_deviation_pct = foldl (\<lambda>d (node, count). max d (\<bar>real count - ideal\<bar> / ideal * 100)) 0 m\<rparr>)"

definition node_name :: "nat \<Rightarrow> bytes" where
  "node_name i = ''node'' @ to_string i"

definition compute_modulo_balance :: "bytes list \<Rightarrow> nat \<Rightarrow> BalanceStats option" where
  "compute_modulo_balance keys num_nodes =
     map_option (\<lambda>m. balance_stats m (length keys) num_nodes)
       (foldl (\<lambda>m k. Option.bind m (\<lambda>m. map_option (\<lambda>i. increment m (node_name i)) (modulo_hash_node k num_nodes)))
         (Some (zero_counts (map node_name [0..<num_nodes]))) keys)"

fun count_owners :: "ConsistentHashRing \<Rightarrow> bytes list \<Rightarrow> (bytes, nat) omap \<Rightarrow> exn + (bytes, nat) omap" where
  "count_owners r [] m = Inr m"
| "count_owners r (k # ks) m = (case get_node r k of Inl e \<Rightarrow> Inl e | Inr node \<Rightarrow> count_owners r ks (increment m node))"

definition compute_ring_balance :: "bytes list \<Rightarrow> bytes list \<Rightarrow> nat \<Rightarrow> exn + BalanceStats" where
  "compute_ring_balance keys node_ids vnodes_per_node =
     map_sum id (\<lambda>m. balance_stats m (length keys) (length node_ids))
       (count_owners (build_ring vnodes_per_node node_ids) keys (zero_counts node_ids))"

definition modulo_remap_fraction :: "bytes list \<Rightarrow> nat \<Rightarrow> nat \<Rightarrow> double" where
  "modulo_remap_fraction keys before_n after_n =
     ddiv (real (length (filter (\<lambda>k. modulo_hash_node k before_n \<noteq> modulo_hash_node k after_n) keys))) (real (length keys))"

fun owners_before :: "ConsistentHashRing \<Rightarrow> bytes list \<Rightarrow> exn + bytes list" where
  "owners_before r [] = Inr []"
| "owners_before r (k # ks) = (case get_node r k of Inl e \<Rightarrow> Inl e | Inr node \<Rightarrow> map_sum id (Cons node) (owners_before r ks))"

fun count_moved :: "ConsistentHashRing \<Rightarrow> (bytes \<times> bytes) list \<Rightarrow> nat \<Rightarrow> exn + nat" where
  "count_moved r [] moved = Inr moved"
| "count_moved r ((k, node) # ks) moved =
     (case get_node r k of Inl e \<Rightarrow> Inl e | Inr node' \<Rightarrow> count_moved r ks (if node' \<noteq> node then moved + 1 else moved))"

definition ring_remap_fraction :: "bytes list \<Rightarrow> bytes list \<Rightarrow> bytes \<Rightarrow> nat \<Rightarrow> exn + double" where
  "ring_remap_fraction keys node_ids added_node_id vnodes_per_node =
     (let r = build_ring vnodes_per_node node_ids in
      case owners_before r keys of
        Inl e \<Rightarrow> Inl e
      | Inr before \<Rightarrow>
          map_sum id (\<lambda>moved. ddiv (real moved) (real (length keys)))
            (count_moved (add_node r added_node_id) (zip keys before) 0))"

section \<open>The program\<close>

record ReportOptions =
  key_space :: nat
  report_vnodes :: nat
  output_path :: bytes

definition default_report_options :: ReportOptions where
  "default_report_options = \<lparr>key_space = 1000, report_vnodes = 150, output_path = []\<rparr>"

text \<open>The argument loop; \<^verbatim>\<open>next()\<close> is the following argument, or an empty string at the end. Nothing catches what \<^verbatim>\<open>stoul\<close> throws.\<close>

fun report_args :: "ReportOptions \<Rightarrow> bytes list \<Rightarrow> exn + ReportOptions arguments" where
  "report_args opts [] = Inr (Options opts)"
| "report_args opts (arg # args) =
     (let next_arg = (if args = [] then [] else hd args) in
      if arg = ''--key-space'' then
        (case stoul next_arg of Inl e \<Rightarrow> Inl e | Inr n \<Rightarrow> report_args (opts\<lparr>key_space := n\<rparr>) (tl args))
      else if arg = ''--vnodes'' then
        (case stoul next_arg of Inl e \<Rightarrow> Inl e | Inr n \<Rightarrow> report_args (opts\<lparr>report_vnodes := n\<rparr>) (tl args))
      else if arg = ''--output'' then report_args (opts\<lparr>output_path := next_arg\<rparr>) (tl args)
      else if arg = ''--help'' then Inr Help
      else Inr (Unknown arg))"

record HashReport =
  modulo_stats :: BalanceStats
  ring_stats :: BalanceStats
  modulo_remap :: double
  ring_remap :: double

definition hash_report :: "nat \<Rightarrow> nat \<Rightarrow> exn + HashReport" where
  "hash_report num_keys vnodes_per_node =
     (let keys = make_keys num_keys; nodes3 = [''nodeA'', ''nodeB'', ''nodeC''];
          modulo = the (compute_modulo_balance keys 3) in
      case compute_ring_balance keys nodes3 vnodes_per_node of
        Inl e \<Rightarrow> Inl e
      | Inr balance \<Rightarrow>
          map_sum id (\<lambda>remap. \<lparr>modulo_stats = modulo, ring_stats = balance,
              modulo_remap = modulo_remap_fraction keys 3 4, ring_remap = remap\<rparr>)
            (ring_remap_fraction keys nodes3 ''nodeD'' vnodes_per_node))"

definition print_balance :: "bytes \<Rightarrow> BalanceStats \<Rightarrow> bytes" where
  "print_balance label stats =
     label @ '' (expected ~'' @ show_double (Fin (expected stats)) @ '' keys/node):'' @ [LF] @
     concat (map (\<lambda>(node, count). ''  '' @ node @ '': '' @ to_string count @ [LF]) (counts stats)) @
     ''  max deviation from ideal: '' @ show_double (Fin (max_deviation_pct stats)) @ ''%'' @ [LF]"

definition report_usage :: "bytes \<Rightarrow> bytes" where
  "report_usage prog =
     ''Usage: '' @ prog @ '' [--key-space N] [--vnodes N] [--output PATH]'' @ [LF] @
     ''  --key-space N   number of keys to distribute (default: 1000, '' @
       ''matches kvbench's default keyspace)'' @ [LF] @
     ''  --vnodes N      virtual nodes per physical node (default: 150)'' @ [LF] @
     ''  --output PATH   also write a JSON summary to PATH'' @ [LF]"

definition report_text :: "ReportOptions \<Rightarrow> HashReport \<Rightarrow> bytes" where
  "report_text opts report =
     ''=== Static distribution balance across 3 nodes ('' @ to_string (key_space opts) @ '' keys) ==='' @ [LF, LF] @
     print_balance ''Modulo hashing'' (modulo_stats report) @ [LF] @
     print_balance (''Consistent hashing ('' @ to_string (report_vnodes opts) @ '' vnodes/node)'') (ring_stats report) @
     [LF] @ ''=== Remap fraction when scaling 3 -> 4 nodes ('' @ to_string (key_space opts) @ '' keys) ==='' @ [LF] @
     ''  Modulo hashing:      '' @ show_double (dscale (modulo_remap report) 100) @ ''% of keys change node'' @ [LF] @
     ''  Consistent hashing:  '' @ show_double (dscale (ring_remap report) 100) @
       ''% of keys change node (theoretical ideal: ~25%)'' @ [LF]"

definition report_json :: "ReportOptions \<Rightarrow> HashReport \<Rightarrow> bytes" where
  "report_json opts report =
     ''{'' @ [LF] @
     ''  '' @ quoted ''key_space'' @ '': '' @ to_string (key_space opts) @ '','' @ [LF] @
     ''  '' @ quoted ''vnodes_per_node'' @ '': '' @ to_string (report_vnodes opts) @ '','' @ [LF] @
     ''  '' @ quoted ''static_balance'' @ '': {'' @ [LF] @
     ''    '' @ quoted ''modulo_max_deviation_pct'' @ '': '' @ show_double (Fin (max_deviation_pct (modulo_stats report))) @ '','' @ [LF] @
     ''    '' @ quoted ''consistent_hash_max_deviation_pct'' @ '': '' @ show_double (Fin (max_deviation_pct (ring_stats report))) @ [LF] @
     ''  },'' @ [LF] @
     ''  '' @ quoted ''remap_on_scale_3_to_4'' @ '': {'' @ [LF] @
     ''    '' @ quoted ''modulo_remap_pct'' @ '': '' @ show_double (dscale (modulo_remap report) 100) @ '','' @ [LF] @
     ''    '' @ quoted ''consistent_hash_remap_pct'' @ '': '' @ show_double (dscale (ring_remap report) 100) @ [LF] @
     ''  }'' @ [LF] @
     ''}'' @ [LF]"

text \<open>\<open>opens\<close> tells which files can be opened for writing. An exception nobody catches ends the program.\<close>

definition report_main :: "(bytes \<Rightarrow> bool) \<Rightarrow> bytes \<Rightarrow> bytes list \<Rightarrow> exn + outcome" where
  "report_main opens prog args =
     (case report_args default_report_options args of
        Inl e \<Rightarrow> Inl e
      | Inr Help \<Rightarrow> Inr (exits 0 (report_usage prog))
      | Inr (Unknown arg) \<Rightarrow>
          Inr (exits 1 (''Unknown argument: '' @ arg @ [LF] @ report_usage prog))
      | Inr (Options opts) \<Rightarrow>
          map_sum id (\<lambda>report.
            if output_path opts = [] then
              \<lparr>exit_code = 0, out_text = report_text opts report, err_text = [], files = []\<rparr>
            else if \<not> opens (output_path opts) then
              \<lparr>exit_code = 1, out_text = report_text opts report,
               err_text = ''kvhashreport: could not open '' @ output_path opts @ '' for writing'' @ [LF], files = []\<rparr>
            else
              \<lparr>exit_code = 0, out_text = report_text opts report @ [LF] @ ''Results written to '' @ output_path opts @ [LF],
               err_text = [], files = [(output_path opts, report_json opts report)]\<rparr>)
            (hash_report (key_space opts) (report_vnodes opts)))"

section \<open>What they count\<close>

text \<open>The keys a ring gives to a node.\<close>

definition keys_of :: "ConsistentHashRing \<Rightarrow> bytes list \<Rightarrow> bytes \<Rightarrow> nat" where
  "keys_of r keys node = length (filter (\<lambda>k. get_node r k = Inr node) keys)"

lemma get_node_Inr: "ring r \<noteq> [] \<Longrightarrow> \<exists>node \<in> snd ` set (ring r). get_node r k = Inr node"
  using get_node_preference [of r k] set_preference [of r k] by (metis hd_in_set)

lemma map_of_increment: "map_of (increment m node) = (map_of m)(node \<mapsto> (case map_of m node of None \<Rightarrow> 0 | Some c \<Rightarrow> c) + 1)"
  by (simp add: increment_def map_of_om_assign)

lemma map_of_zero_counts: "map_of (zero_counts ids) node = (if node \<in> set ids then Some 0 else None)"
proof -
  have "map_of (foldl (\<lambda>m node. om_assign node 0 m) m ids) node = (if node \<in> set ids then Some 0 else map_of m node)"
    for m :: "(bytes, nat) omap"
    by (induction ids arbitrary: m) (auto simp: map_of_om_assign)
  from this [of "[]"] show ?thesis by (simp add: zero_counts_def)
qed

lemma count_owners_counts:
  assumes "ring r \<noteq> []"
  shows "\<exists>m'. count_owners r keys m = Inr m' \<and>
    (\<forall>node. (case map_of m' node of None \<Rightarrow> 0 | Some c \<Rightarrow> c) = (case map_of m node of None \<Rightarrow> 0 | Some c \<Rightarrow> c) + keys_of r keys node)"
proof (induction keys arbitrary: m)
  case Nil
  show ?case by (simp add: keys_of_def)
next
  case (Cons k ks)
  obtain node where node: "get_node r k = Inr node" using get_node_Inr [OF assms] by blast
  from Cons [of "increment m node"] obtain m' where m': "count_owners r ks (increment m node) = Inr m'"
    "\<forall>x. (case map_of m' x of None \<Rightarrow> 0 | Some c \<Rightarrow> c)
      = (case map_of (increment m node) x of None \<Rightarrow> 0 | Some c \<Rightarrow> c) + keys_of r ks x" by blast
  have "(case map_of m' x of None \<Rightarrow> 0 | Some c \<Rightarrow> c) = (case map_of m x of None \<Rightarrow> 0 | Some c \<Rightarrow> c) + keys_of r (k # ks) x" for x
    using m'(2) [THEN spec, of x] node by (simp add: map_of_increment keys_of_def)
  with m'(1) node show ?case by simp
qed

lemma owners_before_zip:
  assumes "ring r \<noteq> []"
  shows "owners_before r keys = Inr (map (\<lambda>k. projr (get_node r k)) keys)"
  using get_node_Inr [OF assms] by (induction keys) (auto split: sum.split, metis sum.distinct(1))

lemma count_moved_counts:
  assumes "ring r \<noteq> []"
  shows "count_moved r (zip keys (map f keys)) moved = Inr (moved + length (filter (\<lambda>k. projr (get_node r k) \<noteq> f k) keys))"
proof (induction keys arbitrary: moved)
  case (Cons k ks)
  obtain node where node: "get_node r k = Inr node" using get_node_Inr [OF assms] by blast
  with Cons show ?case by simp
qed simp

lemma sum_zero_counts: "om_invar (zero_counts ids) \<and> sum_list (map snd (zero_counts ids)) = 0"
proof -
  have "om_invar (foldl (\<lambda>m node. om_assign node 0 m) m ids) \<and> sum_list (map snd (foldl (\<lambda>m node. om_assign node 0 m) m ids)) = 0"
    if "om_invar m" "sum_list (map snd m) = 0" for m :: "(bytes, nat) omap"
    using that
  proof (induction ids arbitrary: m)
    case (Cons x ids)
    have "sum_list (map snd (om_assign x 0 m)) = 0" using sum_om_assign [where f = "\<lambda>x. x", OF Cons.prems(1), of x 0] Cons.prems(2) by linarith
    with Cons.IH [of "om_assign x 0 m"] om_invar_assign [OF Cons.prems(1)] show ?case by (simp only: foldl_Cons)
  qed simp
  from this [of "[]"] show ?thesis by (simp add: zero_counts_def om_invar_def)
qed

lemma count_owners_sum:
  assumes "count_owners r keys m = Inr m'" "om_invar m"
  shows "sum_list (map snd m') = sum_list (map snd m) + length keys"
  using assms
proof (induction keys arbitrary: m)
  case (Cons k ks)
  then obtain node where node: "get_node r k = Inr node" by (auto split: sum.splits)
  have "sum_list (map snd (increment m node)) = sum_list (map snd m) + 1"
    using sum_om_assign [where f = "\<lambda>x. x", OF Cons.prems(2), of node "(case map_of m node of None \<Rightarrow> 0 | Some c \<Rightarrow> c) + 1"]
    unfolding increment_def by linarith
  moreover have "om_invar (increment m node)" using om_invar_assign [OF Cons.prems(2)] by (simp add: increment_def)
  ultimately show ?case using Cons.IH [of "increment m node"] Cons.prems(1) node by simp
qed simp

lemma count_owners_dom: "count_owners r keys m = Inr m' \<Longrightarrow> dom (map_of m) \<subseteq> dom (map_of m')"
proof (induction keys arbitrary: m)
  case (Cons k ks)
  then obtain node where node: "get_node r k = Inr node" by (auto split: sum.splits)
  then have "dom (map_of (increment m node)) \<subseteq> dom (map_of m')" using Cons.IH [of "increment m node"] Cons.prems by simp
  then show ?case by (simp only: map_of_increment dom_fun_upd) simp
qed simp

lemma counts_balance_stats [simp]: "counts (balance_stats m num_keys num_nodes) = m"
  by (simp add: balance_stats_def Let_def)

lemma compute_ring_balance_counts:
  assumes "0 < v" "ids \<noteq> []"
  obtains stats where "compute_ring_balance keys ids v = Inr stats"
    "\<And>node. node \<in> set ids \<Longrightarrow> map_of (counts stats) node = Some (keys_of (build_ring v ids) keys node)"
    "sum_list (map snd (counts stats)) = length keys"
proof -
  let ?r = "build_ring v ids"
  have ne: "ring ?r \<noteq> []" by (rule ring_build_ring_nonempty [OF assms])
  obtain m where m: "count_owners ?r keys (zero_counts ids) = Inr m"
    "\<forall>node. (case map_of m node of None \<Rightarrow> 0 | Some c \<Rightarrow> c)
      = (case map_of (zero_counts ids) node of None \<Rightarrow> 0 | Some c \<Rightarrow> c) + keys_of ?r keys node"
    using count_owners_counts [OF ne, of keys "zero_counts ids"] by blast
  have "map_of m node = Some (keys_of ?r keys node)" if "node \<in> set ids" for node
  proof -
    from that have zero: "map_of (zero_counts ids) node = Some 0" by (simp add: map_of_zero_counts)
    then obtain c where "map_of m node = Some c" using count_owners_dom [OF m(1)] by blast
    with m(2) [THEN spec, of node] zero show ?thesis by simp
  qed
  moreover have "sum_list (map snd m) = length keys" using count_owners_sum [OF m(1)] sum_zero_counts [of ids] by simp
  moreover have "compute_ring_balance keys ids v = Inr (balance_stats m (length keys) (length ids))"
    by (simp add: compute_ring_balance_def m(1))
  ultimately show ?thesis by (intro that [of "balance_stats m (length keys) (length ids)"]) simp_all
qed

lemma remap_counts_new_owner:
  assumes "0 < v" "ids \<noteq> []" "added \<notin> set ids"
  shows "projr (get_node (build_ring v (ids @ [added])) k) \<noteq> projr (get_node (build_ring v ids) k)
    \<longleftrightarrow> get_node (build_ring v (ids @ [added])) k = Inr added"
proof -
  obtain node where node: "node \<in> set ids" "get_node (build_ring v ids) k = Inr node"
    using get_node_Inr [OF ring_build_ring_nonempty [OF assms(1,2)], of k] owners_subset_build_ring [of v ids] by blast
  then have "node \<noteq> added" using assms(3) by blast
  with get_node_add_node [OF ring_inv_build_ring node(2), of added] node(2) show ?thesis by (auto simp: build_ring_snoc)
qed

lemma ring_remap_new_owner:
  assumes "0 < v" "ids \<noteq> []" "added \<notin> set ids"
  shows "ring_remap_fraction keys ids added v = Inr (ddiv (real (keys_of (build_ring v (ids @ [added])) keys added)) (real (length keys)))"
proof -
  let ?r = "build_ring v ids" and ?r' = "build_ring v (ids @ [added])"
  have ne: "ring ?r \<noteq> []" "ring ?r' \<noteq> []" using assms by (simp_all add: ring_build_ring_nonempty)
  have "length (filter (\<lambda>k. projr (get_node ?r' k) \<noteq> projr (get_node ?r k)) keys) = keys_of ?r' keys added"
    by (simp add: keys_of_def remap_counts_new_owner [OF assms])
  with count_moved_counts [OF ne(2), of keys "\<lambda>k. projr (get_node ?r k)" 0]
  show ?thesis by (simp add: ring_remap_fraction_def Let_def owners_before_zip [OF ne(1)] flip: build_ring_snoc)
qed

section \<open>Properties\<close>

text \<open>
  C26: The report measures what consistent hashing promises. When a node is added, the fraction of keys
  \<^verbatim>\<open>ring_remap_fraction\<close> reports is exactly the share of the keys the new node owns, which is what
  \<^verbatim>\<open>compute_ring_balance\<close> counts for it on the larger ring; the counts of that balance are the numbers of
  keys of each node and add up to the number of keys. Nothing throws as long as there is a virtual node.
\<close>

theorem ring_remap_is_share_of_new_node:
  assumes "0 < v" "ids \<noteq> []" "added \<notin> set ids"
  shows "\<exists>stats. compute_ring_balance keys (ids @ [added]) v = Inr stats \<and>
    (\<forall>node \<in> set (ids @ [added]). map_of (counts stats) node = Some (keys_of (build_ring v (ids @ [added])) keys node)) \<and>
    sum_list (map snd (counts stats)) = length keys \<and>
    ring_remap_fraction keys ids added v = Inr (ddiv (real (the (map_of (counts stats) added))) (real (length keys)))"
  using ring_remap_new_owner [OF assms, of keys] compute_ring_balance_counts [of v "ids @ [added]" keys] assms(1)
  by (metis append_is_Nil_conv in_set_conv_decomp not_Cons_self2 option.sel)

theorem ring_remap_is_share_of_new_node_witness:
  "\<exists>stats. compute_ring_balance (make_keys 10) (demo_ids @ [''c:3'']) (Suc 0) = Inr stats \<and>
    sum_list (map snd (counts stats)) = 10 \<and>
    ring_remap_fraction (make_keys 10) demo_ids ''c:3'' (Suc 0) = Inr (Fin (real (the (map_of (counts stats) ''c:3'')) / 10))"
  using ring_remap_is_share_of_new_node [of "Suc 0" demo_ids "''c:3''" "make_keys 10"] by (auto simp: make_keys_def ddiv_def)

text \<open>
  C39: What \<^verbatim>\<open>kvhashreport\<close> writes with \<^verbatim>\<open>--output\<close> is a JSON file that reads back as its report: the options, and the four percentages to six
  digits. With \<^verbatim>\<open>--key-space 0\<close> the fractions are not numbers, and the file is not JSON.
\<close>

theorem report_file_reads_back:
  assumes "report_args default_report_options args = Inr (Options opts)" "0 < report_vnodes opts"
    and "output_path opts \<noteq> []" "opens (output_path opts)"
  shows "\<exists>report out s. hash_report (key_space opts) (report_vnodes opts) = Inr report \<and>
    report_main opens prog args = Inr out \<and> exit_code out = 0 \<and> files out = [(output_path opts, s)] \<and>
    (if key_space opts = 0 then json_lex s = None
     else \<exists>m c. modulo_remap report = Fin m \<and> ring_remap report = Fin c \<and>
       json_text s (JObj [(''key_space'', JNum (real (key_space opts))), (''vnodes_per_node'', JNum (real (report_vnodes opts))),
         (''static_balance'', JObj [(''modulo_max_deviation_pct'', JNum (printed_value (max_deviation_pct (modulo_stats report)))),
           (''consistent_hash_max_deviation_pct'', JNum (printed_value (max_deviation_pct (ring_stats report))))]),
         (''remap_on_scale_3_to_4'', JObj [(''modulo_remap_pct'', JNum (printed_value (m * 100))),
           (''consistent_hash_remap_pct'', JNum (printed_value (c * 100)))])]))"
proof -
  let ?nodes = "[''nodeA'', ''nodeB'', ''nodeC'']" and ?keys = "make_keys (key_space opts)"
  have nodes: "?nodes \<noteq> []" "''nodeD'' \<notin> set ?nodes" by simp_all
  obtain stats where stats: "compute_ring_balance ?keys ?nodes (report_vnodes opts) = Inr stats"
    by (rule compute_ring_balance_counts [OF assms(2) nodes(1)])
  note remap = ring_remap_new_owner [OF assms(2) nodes, of ?keys]
  have len: "length ?keys = key_space opts" by (simp add: make_keys_def)
  obtain report where report: "hash_report (key_space opts) (report_vnodes opts) = Inr report"
    and "\<exists>a b. modulo_remap report = ddiv (real a) (real (key_space opts)) \<and> ring_remap report = ddiv (real b) (real (key_space opts)) \<and>
      (key_space opts = 0 \<longrightarrow> a = 0)"
    by (rule that, simp add: hash_report_def Let_def stats remap, auto simp: modulo_remap_fraction_def len make_keys_def)
  then obtain a b where ab: "modulo_remap report = ddiv (real a) (real (key_space opts))" "ring_remap report = ddiv (real b) (real (key_space opts))"
    "key_space opts = 0 \<longrightarrow> a = 0" by (elim exE conjE) (rule that)
  let ?s = "report_json opts report"
  have "if key_space opts = 0 then json_lex ?s = None else
    json_text ?s (JObj [(''key_space'', JNum (real (key_space opts))), (''vnodes_per_node'', JNum (real (report_vnodes opts))),
         (''static_balance'', JObj [(''modulo_max_deviation_pct'', JNum (printed_value (max_deviation_pct (modulo_stats report)))),
           (''consistent_hash_max_deviation_pct'', JNum (printed_value (max_deviation_pct (ring_stats report))))]),
         (''remap_on_scale_3_to_4'', JObj [(''modulo_remap_pct'', JNum (printed_value (real a / real (key_space opts) * 100))),
           (''consistent_hash_remap_pct'', JNum (printed_value (real b / real (key_space opts) * 100)))])])"
    using ab by (simp add: report_json_def json_text_def ddiv_def json_read del: show_double.simps)
  moreover have "report_main opens prog args = Inr \<lparr>exit_code = 0,
    out_text = report_text opts report @ [LF] @ ''Results written to '' @ output_path opts @ [LF], err_text = [],
    files = [(output_path opts, ?s)]\<rparr>"
    using assms report by (simp add: report_main_def)
  ultimately show ?thesis using report ab by (auto simp: ddiv_def intro!: exI [of _ report])
qed

theorem report_file_reads_back_witness:
  "\<exists>out s. report_main (\<lambda>_. True) ''kvhashreport'' [''--key-space'', ''0'', ''--output'', ''r.json''] = Inr out \<and>
     files out = [(''r.json'', s)] \<and> json_lex s = None"
proof -
  let ?opts = "\<lparr>key_space = 0, report_vnodes = 150, output_path = ''r.json''\<rparr>"
  have "stoul ''0'' = Inr 0" by (simp add: parse_unsigned_def isspace_def isdigit_def stoull_def)
  then have "report_args default_report_options [''--key-space'', ''0'', ''--output'', ''r.json''] = Inr (Options ?opts)"
    by (simp add: default_report_options_def)
  from report_file_reads_back [OF this, of "\<lambda>_. True" "''kvhashreport''"] show ?thesis by auto
qed

end
