(* ===== verification/Kv_Store.thy ===== *)
theory Kv_Store
  imports Hashing
begin

text \<open>
  \<^verbatim>\<open>KVStore\<close> of \<^verbatim>\<open>src/server/kv_store.hpp\<close> and \<^verbatim>\<open>src/server/kv_store.cpp\<close>: sixteen shards chosen by the
  hash of the key, and a size counter kept beside them. A shard's \<^verbatim>\<open>unordered_map\<close> is a partial
  function; the atomic \<^verbatim>\<open>size_t\<close> counter is a 64-bit word. Here every operation is one atomic step,
  which is what the shard's lock gives; \<^verbatim>\<open>Store_Concurrency\<close> opens the operations up.

  The contract of a store is the locale \<open>key_value_store\<close>: it behaves like one flat map, and its size
  is the number of keys of that map. The sharded store is shown to satisfy it.
\<close>

section \<open>The contract of a store\<close>

text \<open>A writing operation on a store, for statements about sequences of operations.\<close>

datatype write_op = Write bytes bytes | Erase bytes

fun op_key :: "write_op \<Rightarrow> bytes" where
  "op_key (Write k v) = k"
| "op_key (Erase k) = k"

fun op_result :: "write_op \<Rightarrow> bytes option" where
  "op_result (Write k v) = Some v"
| "op_result (Erase k) = None"

text \<open>What a map holds for \<open>k\<close> after \<open>ops\<close>: what the last operation on \<open>k\<close> left there.\<close>

definition last_write :: "(bytes \<rightharpoonup> bytes) \<Rightarrow> write_op list \<Rightarrow> bytes \<rightharpoonup> bytes" where
  "last_write m ops k =
     (let ws = filter (\<lambda>w. op_key w = k) ops in if ws = [] then m k else op_result (last ws))"

lemma last_write_Nil [simp]: "last_write m [] = m"
  by (simp add: last_write_def fun_eq_iff)

lemma last_write_snoc [simp]: "last_write m (ops @ [w]) = (last_write m ops)(op_key w := op_result w)"
  by (auto simp: last_write_def Let_def fun_eq_iff)

locale key_value_store =
  fixes abs :: "'s \<Rightarrow> bytes \<rightharpoonup> bytes"
    and invar :: "'s \<Rightarrow> bool"
    and get :: "'s \<Rightarrow> bytes \<Rightarrow> bytes option"
    and set' :: "'s \<Rightarrow> bytes \<Rightarrow> bytes \<Rightarrow> 's"
    and remove :: "'s \<Rightarrow> bytes \<Rightarrow> bool \<times> 's"
    and size' :: "'s \<Rightarrow> 64 word"
  assumes get_abs: "invar s \<Longrightarrow> get s k = abs s k"
    and set_abs: "invar s \<Longrightarrow> abs (set' s k v) = (abs s)(k \<mapsto> v)"
    and remove_abs: "invar s \<Longrightarrow> abs (snd (remove s k)) = (abs s)(k := None)"
    and remove_found: "invar s \<Longrightarrow> fst (remove s k) \<longleftrightarrow> abs s k \<noteq> None"
    and size_abs: "invar s \<Longrightarrow> size' s = of_nat (card (dom (abs s)))"
    and finite_abs: "invar s \<Longrightarrow> finite (dom (abs s))"
    and invar_set: "invar s \<Longrightarrow> invar (set' s k v)"
    and invar_remove: "invar s \<Longrightarrow> invar (snd (remove s k))"
begin

fun apply_op :: "'s \<Rightarrow> write_op \<Rightarrow> 's" where
  "apply_op s (Write k v) = set' s k v"
| "apply_op s (Erase k) = snd (remove s k)"

lemma invar_apply_op: "invar s \<Longrightarrow> invar (apply_op s w)"
  by (cases w) (simp_all add: invar_set invar_remove)

lemma abs_apply_op: "invar s \<Longrightarrow> abs (apply_op s w) = (abs s)(op_key w := op_result w)"
  by (cases w) (simp_all add: set_abs remove_abs)

lemma invar_apply_ops: "invar s \<Longrightarrow> invar (foldl apply_op s ops)"
  by (induction ops arbitrary: s) (simp_all add: invar_apply_op)

lemma abs_apply_ops:
  assumes "invar s"
  shows "abs (foldl apply_op s ops) = last_write (abs s) ops"
  using assms
  by (induction ops rule: rev_induct) (simp_all add: abs_apply_op invar_apply_ops)

text \<open>After any operations, a lookup returns what the last write to that key left.\<close>

lemma get_after_ops: "invar s \<Longrightarrow> get (foldl apply_op s ops) k = last_write (abs s) ops k"
  by (simp add: get_abs invar_apply_ops abs_apply_ops)

lemma size_after_ops:
  assumes "invar s" and "card (dom (last_write (abs s) ops)) < 2 ^ 64"
  shows "unat (size' (foldl apply_op s ops)) = card (dom (last_write (abs s) ops))"
  using size_abs [OF invar_apply_ops [OF assms(1)], of ops] assms
  by (simp add: abs_apply_ops unat_of_nat)

end

section \<open>The sharded store\<close>

definition kShardCount :: nat where
  "kShardCount = 16"

record KVStore =
  shards :: "(bytes \<rightharpoonup> bytes) list"
  size_counter :: "64 word"

definition new_store :: KVStore where
  "new_store = \<lparr>shards = replicate kShardCount Map.empty, size_counter = 0\<rparr>"

text \<open>The index that \<^verbatim>\<open>shard_for\<close> selects.\<close>

definition shard_for :: "bytes \<Rightarrow> nat" where
  "shard_for k = unat (fnv1a_hash k) mod kShardCount"

definition kv_get :: "KVStore \<Rightarrow> bytes \<Rightarrow> bytes option" where
  "kv_get s k = (shards s ! shard_for k) k"

definition kv_set :: "KVStore \<Rightarrow> bytes \<Rightarrow> bytes \<Rightarrow> KVStore" where
  "kv_set s k v =
     (let i = shard_for k; m = shards s ! i in
      if m k \<noteq> None then s\<lparr>shards := (shards s)[i := m(k \<mapsto> v)]\<rparr>
      else s\<lparr>shards := (shards s)[i := m(k \<mapsto> v)], size_counter := size_counter s + 1\<rparr>)"

definition kv_remove :: "KVStore \<Rightarrow> bytes \<Rightarrow> bool \<times> KVStore" where
  "kv_remove s k =
     (let i = shard_for k; m = shards s ! i in
      if m k = None then (False, s)
      else (True, s\<lparr>shards := (shards s)[i := m(k := None)], size_counter := size_counter s - 1\<rparr>))"

definition kv_size :: "KVStore \<Rightarrow> 64 word" where
  "kv_size s = size_counter s"

section \<open>The sharded store is a map\<close>

definition kv_abs :: "KVStore \<Rightarrow> bytes \<rightharpoonup> bytes" where
  "kv_abs s k = (shards s ! shard_for k) k"

definition kv_inv :: "KVStore \<Rightarrow> bool" where
  "kv_inv s \<longleftrightarrow> length (shards s) = kShardCount \<and> finite (dom (kv_abs s)) \<and>
     (\<forall>i < kShardCount. \<forall>k \<in> dom (shards s ! i). shard_for k = i) \<and>
     size_counter s = of_nat (card (dom (kv_abs s)))"

lemma shard_for_less: "shard_for k < kShardCount"
  by (simp add: shard_for_def kShardCount_def)

lemma kv_abs_update:
  assumes "length (shards s) = kShardCount"
  shows "kv_abs (s\<lparr>shards := (shards s)[shard_for k := (shards s ! shard_for k)(k := x)]\<rparr>) = (kv_abs s)(k := x)"
  using assms shard_for_less by (auto simp: kv_abs_def fun_eq_iff nth_list_update)

lemma kv_abs_size_counter [simp]: "kv_abs (s\<lparr>size_counter := n\<rparr>) = kv_abs s"
  by (simp add: kv_abs_def fun_eq_iff)

lemma kv_inv_new [inv_intros]: "kv_inv new_store"
proof -
  have "kv_abs new_store = Map.empty"
    using shard_for_less by (simp add: kv_abs_def new_store_def fun_eq_iff)
  then show ?thesis by (simp add: kv_inv_def) (simp add: new_store_def)
qed

lemma kv_abs_set: "kv_inv s \<Longrightarrow> kv_abs (kv_set s k v) = (kv_abs s)(k \<mapsto> v)"
  using kv_abs_update [of s k "Some v"]
  by (auto simp: kv_set_def kv_inv_def Let_def kv_abs_def)

lemma kv_abs_remove: "kv_inv s \<Longrightarrow> kv_abs (snd (kv_remove s k)) = (kv_abs s)(k := None)"
  using kv_abs_update [of s k None]
  by (auto simp: kv_remove_def kv_inv_def Let_def kv_abs_def fun_eq_iff)

lemma shards_update_inv:
  assumes "kv_inv s" "i < kShardCount"
  shows "\<forall>k' \<in> dom ((shards s)[shard_for k := (shards s ! shard_for k)(k := x)] ! i). shard_for k' = i"
  using assms shard_for_less [of k]
  by (cases "i = shard_for k") (auto simp: kv_inv_def dom_def nth_list_update split: if_splits)

lemma kv_set_fields:
  "shards (kv_set s k v) = (shards s)[shard_for k := (shards s ! shard_for k)(k \<mapsto> v)]"
  "size_counter (kv_set s k v) = (if kv_abs s k = None then size_counter s + 1 else size_counter s)"
  by (simp_all add: kv_set_def kv_abs_def Let_def)

lemma kv_remove_fields:
  assumes "kv_abs s k = Some v"
  shows "shards (snd (kv_remove s k)) = (shards s)[shard_for k := (shards s ! shard_for k)(k := None)]"
    and "size_counter (snd (kv_remove s k)) = size_counter s - 1"
  using assms by (simp_all add: kv_remove_def kv_abs_def Let_def)

lemma kv_inv_set [inv_intros]:
  assumes "kv_inv s"
  shows "kv_inv (kv_set s k v)"
  unfolding kv_inv_def kv_abs_set [OF assms]
proof (intro conjI allI impI)
  show "length (shards (kv_set s k v)) = kShardCount" "finite (dom ((kv_abs s)(k \<mapsto> v)))"
    using assms by (simp_all add: kv_set_fields kv_inv_def)
  show "\<forall>k' \<in> dom (shards (kv_set s k v) ! i). shard_for k' = i" if "i < kShardCount" for i
    unfolding kv_set_fields by (rule shards_update_inv [OF assms that])
  show "size_counter (kv_set s k v) = of_nat (card (dom ((kv_abs s)(k \<mapsto> v))))"
    using assms by (simp add: kv_set_fields kv_inv_def card_insert_if domIff)
qed

lemma kv_inv_remove [inv_intros]:
  assumes "kv_inv s"
  shows "kv_inv (snd (kv_remove s k))"
proof (cases "kv_abs s k")
  case None
  with assms show ?thesis by (simp add: kv_remove_def kv_abs_def)
next
  case (Some v)
  have card: "card (dom (kv_abs s)) = Suc (card (dom (kv_abs s) - {k}))"
    using assms Some by (intro card.remove) (auto simp: kv_inv_def)
  show ?thesis unfolding kv_inv_def kv_abs_remove [OF assms]
  proof (intro conjI allI impI)
    show "length (shards (snd (kv_remove s k))) = kShardCount" "finite (dom ((kv_abs s)(k := None)))"
      using assms by (simp_all add: kv_remove_fields [OF Some] kv_inv_def)
    show "\<forall>k' \<in> dom (shards (snd (kv_remove s k)) ! i). shard_for k' = i" if "i < kShardCount" for i
      unfolding kv_remove_fields [OF Some] by (rule shards_update_inv [OF assms that])
    have "size_counter s = of_nat (Suc (card (dom (kv_abs s) - {k})))"
      using assms card by (simp add: kv_inv_def)
    then show "size_counter (snd (kv_remove s k)) = of_nat (card (dom ((kv_abs s)(k := None))))"
      by (simp add: kv_remove_fields [OF Some])
  qed
qed

interpretation store: key_value_store kv_abs kv_inv kv_get kv_set kv_remove kv_size
proof unfold_locales
  fix s k v assume inv: "kv_inv s"
  show "kv_get s k = kv_abs s k" by (simp add: kv_get_def kv_abs_def)
  show "kv_abs (kv_set s k v) = (kv_abs s)(k \<mapsto> v)" by (rule kv_abs_set [OF inv])
  show "kv_abs (snd (kv_remove s k)) = (kv_abs s)(k := None)" by (rule kv_abs_remove [OF inv])
  show "fst (kv_remove s k) \<longleftrightarrow> kv_abs s k \<noteq> None" by (simp add: kv_remove_def kv_abs_def Let_def)
  show "kv_inv (kv_set s k v)" "kv_inv (snd (kv_remove s k))" by (simp_all add: inv_intros inv)
next
  fix s assume "kv_inv s"
  then show "kv_size s = of_nat (card (dom (kv_abs s)))" "finite (dom (kv_abs s))"
    by (simp_all add: kv_size_def kv_inv_def)
qed

section \<open>Properties\<close>

text \<open>One call of a writing operation of the store.\<close>

fun kv_apply :: "KVStore \<Rightarrow> write_op \<Rightarrow> KVStore" where
  "kv_apply s (Write k v) = kv_set s k v"
| "kv_apply s (Erase k) = snd (kv_remove s k)"

lemma kv_apply_store: "kv_apply = store.apply_op"
proof (intro ext)
  show "kv_apply s w = store.apply_op s w" for s w by (cases w) simp_all
qed

lemma kv_abs_new [simp]: "kv_abs new_store = Map.empty"
  using shard_for_less by (simp add: kv_abs_def new_store_def fun_eq_iff)

text \<open>
  C14: The sharded store is one map. After any sequence of \<^verbatim>\<open>set\<close> and \<^verbatim>\<open>remove\<close> calls on a fresh store,
  \<^verbatim>\<open>get\<close> returns what the last call for that key left, and \<^verbatim>\<open>size()\<close> is exactly the number of keys
  present (as long as that number fits the 64-bit counter).
\<close>

theorem kv_store_is_a_map:
  assumes "card (dom (last_write Map.empty ops)) < 2 ^ 64"
  shows "kv_get (foldl kv_apply new_store ops) k = last_write Map.empty ops k \<and>
    unat (kv_size (foldl kv_apply new_store ops)) = card (dom (last_write Map.empty ops))"
  using store.get_after_ops [OF kv_inv_new, of ops k] store.size_after_ops [OF kv_inv_new, of ops] assms
  by (simp add: kv_apply_store)

theorem kv_store_is_a_map_witness:
  "kv_get (foldl kv_apply new_store [Write ''a'' ''1'', Write ''b'' ''2'', Write ''a'' ''3'', Erase ''b'']) ''a'' = Some ''3'' \<and>
   unat (kv_size (foldl kv_apply new_store [Write ''a'' ''1'', Write ''b'' ''2'', Write ''a'' ''3'', Erase ''b''])) = 1"
proof -
  let ?ops = "[Write ''a'' ''1'', Write ''b'' ''2'', Write ''a'' ''3'', Erase ''b'']"
  have m: "last_write Map.empty ?ops = [''a'' \<mapsto> ''3'']"
    by (auto simp: last_write_def Let_def fun_eq_iff)
  then have c: "card (dom (last_write Map.empty ?ops)) = 1" by simp
  then have "card (dom (last_write Map.empty ?ops)) < 2 ^ 64" by (simp only:) simp
  from kv_store_is_a_map [OF this, of "''a''"] m c show ?thesis by simp
qed

text \<open>
  \<^verbatim>\<open>remove\<close> reports whether the key was present, afterwards the key is absent, removing it once
  more reports absence and changes nothing, and no other key is affected.
\<close>

theorem kv_remove_contract:
  assumes "kv_inv s"
  shows "fst (kv_remove s k) = (kv_get s k \<noteq> None) \<and> kv_get (snd (kv_remove s k)) k = None \<and>
    kv_remove (snd (kv_remove s k)) k = (False, snd (kv_remove s k)) \<and>
    (\<forall>k'. k' \<noteq> k \<longrightarrow> kv_get (snd (kv_remove s k)) k' = kv_get s k')"
proof (intro conjI allI impI)
  have inv: "kv_inv (snd (kv_remove s k))" by (rule kv_inv_remove [OF assms])
  show "fst (kv_remove s k) = (kv_get s k \<noteq> None)"
    by (simp add: store.remove_found store.get_abs assms)
  show gone: "kv_get (snd (kv_remove s k)) k = None"
    by (simp add: store.get_abs inv store.remove_abs assms)
  then show "kv_remove (snd (kv_remove s k)) k = (False, snd (kv_remove s k))"
    by (simp add: kv_remove_def [of "snd (kv_remove s k)"] kv_get_def)
  show "kv_get (snd (kv_remove s k)) k' = kv_get s k'" if "k' \<noteq> k" for k'
    using that by (simp add: store.get_abs inv store.remove_abs assms)
qed

theorem kv_remove_contract_witness:
  "fst (kv_remove (kv_set new_store ''a'' ''1'') ''a'') = (kv_get (kv_set new_store ''a'' ''1'') ''a'' \<noteq> None)"
  using kv_remove_contract [OF kv_inv_set [OF kv_inv_new], of "''a''" "''1''" "''a''"] by blast

text \<open>
  The striping is sound: operations on keys of different shards commute as whole-state
  transformations, and an operation leaves every other shard untouched.
\<close>

theorem kv_operations_on_different_shards_commute:
  assumes "shard_for (op_key a) \<noteq> shard_for (op_key b)"
  shows "kv_apply (kv_apply s a) b = kv_apply (kv_apply s b) a \<and>
    shards (kv_apply s a) ! shard_for (op_key b) = shards s ! shard_for (op_key b)"
  using assms
  by (cases a; cases b)
    (auto simp: kv_set_def kv_remove_def Let_def list_update_swap intro!: KVStore.equality)

theorem kv_operations_on_different_shards_commute_witness:
  "shard_for ''a'' = 11 \<and> shard_for ''b'' = 0 \<and>
   kv_apply (kv_apply new_store (Write ''a'' ''1'')) (Erase ''b'') = kv_apply (kv_apply new_store (Erase ''b'')) (Write ''a'' ''1'')"
proof -
  have h: "fnv1a_hash ''a'' = 9413272369427828315" "fnv1a_hash ''b'' = 7955382828454826704" by code_simp+
  have "shard_for ''a'' = 11" "shard_for ''b'' = 0" by (simp_all add: shard_for_def kShardCount_def h)
  with kv_operations_on_different_shards_commute [of "Write ''a'' ''1''" "Erase ''b''" new_store]
  show ?thesis by simp
qed

end
