(* ===== verification/Store_Concurrency.thy ===== *)
theory Store_Concurrency
  imports Kv_Store
begin

text \<open>
  The same store under concurrent calls. Each operation of \<^verbatim>\<open>src/server/kv_store.cpp\<close> is opened into
  the steps between which another thread can run: taking the shard's \<^verbatim>\<open>shared_mutex\<close> (shared for
  \<^verbatim>\<open>get\<close>, exclusive for \<^verbatim>\<open>set\<close> and \<^verbatim>\<open>remove\<close>), looking the key up, changing the map, changing the
  atomic counter, and releasing the lock. Any number of threads interleave these steps freely.

  Shown: the locks exclude what they must, what a thread saw under its lock is still true when it
  acts on it, every run is linearizable (the map after the run and the results handed out are
  those of the operations executed one after the other at their linearization points), and the
  counter is off by exactly the operations that have changed the map but not yet the counter.
\<close>

section \<open>Threads, locks and steps\<close>

type_synonym tid = nat

text \<open>Where a thread is inside an operation; the comment is the next thing it does.\<close>

datatype pc =
    Idle
  | GetCall bytes \<comment> \<open>\<open>shared_lock lock(shard.mutex)\<close>\<close>
  | GetLocked bytes \<comment> \<open>\<open>shard.map.find(key)\<close>, copy the value out\<close>
  | GetDone bytes "bytes option" \<comment> \<open>return, unlocking\<close>
  | SetCall bytes bytes \<comment> \<open>\<open>unique_lock lock(shard.mutex)\<close>\<close>
  | SetLocked bytes bytes \<comment> \<open>\<open>shard.map.find(key)\<close>\<close>
  | SetFound bytes bytes bool \<comment> \<open>assign through the iterator, or \<open>emplace\<close>\<close>
  | SetEmplaced bytes \<comment> \<open>\<open>size_.fetch_add(1)\<close>\<close>
  | SetDone bytes \<comment> \<open>return, unlocking\<close>
  | RemoveCall bytes \<comment> \<open>\<open>unique_lock lock(shard.mutex)\<close>\<close>
  | RemoveLocked bytes \<comment> \<open>\<open>shard.map.erase(key)\<close>\<close>
  | RemoveErased bytes \<comment> \<open>\<open>size_.fetch_sub(1)\<close>\<close>
  | RemoveDone bytes bool \<comment> \<open>return, unlocking\<close>

record shared_mutex =
  writer :: "tid option"
  readers :: "tid set"

record cstate =
  cstore :: KVStore
  mutexes :: "nat \<Rightarrow> shared_mutex"
  pcs :: "tid \<Rightarrow> pc"

text \<open>The events of a run: linearization points with the results they fix, and silent steps.\<close>

datatype event = Tau | LinGet tid bytes "bytes option" | LinSet tid bytes bytes | LinRemove tid bytes bool

definition shard_map :: "KVStore \<Rightarrow> bytes \<Rightarrow> bytes \<rightharpoonup> bytes" where
  "shard_map s k = shards s ! shard_for k"

definition update_shard :: "KVStore \<Rightarrow> bytes \<Rightarrow> bytes option \<Rightarrow> KVStore" where
  "update_shard s k x = s\<lparr>shards := (shards s)[shard_for k := (shard_map s k)(k := x)]\<rparr>"

definition goto :: "cstate \<Rightarrow> tid \<Rightarrow> pc \<Rightarrow> cstate" where
  "goto s t p = s\<lparr>pcs := (pcs s)(t := p)\<rparr>"

definition with_mutex :: "cstate \<Rightarrow> bytes \<Rightarrow> shared_mutex \<Rightarrow> cstate" where
  "with_mutex s k m = s\<lparr>mutexes := (mutexes s)(shard_for k := m)\<rparr>"

abbreviation mutex_of :: "cstate \<Rightarrow> bytes \<Rightarrow> shared_mutex" where
  "mutex_of s k \<equiv> mutexes s (shard_for k)"

inductive cstep :: "cstate \<Rightarrow> event \<Rightarrow> cstate \<Rightarrow> bool" where
  call_get: "pcs s t = Idle \<Longrightarrow> cstep s Tau (goto s t (GetCall k))"
| call_set: "pcs s t = Idle \<Longrightarrow> cstep s Tau (goto s t (SetCall k v))"
| call_remove: "pcs s t = Idle \<Longrightarrow> cstep s Tau (goto s t (RemoveCall k))"
| get_lock: "pcs s t = GetCall k \<Longrightarrow> writer (mutex_of s k) = None \<Longrightarrow>
    cstep s Tau (goto (with_mutex s k (mutex_of s k\<lparr>readers := insert t (readers (mutex_of s k))\<rparr>)) t (GetLocked k))"
| get_find: "pcs s t = GetLocked k \<Longrightarrow>
    cstep s (LinGet t k (shard_map (cstore s) k k)) (goto s t (GetDone k (shard_map (cstore s) k k)))"
| get_unlock: "pcs s t = GetDone k r \<Longrightarrow>
    cstep s Tau (goto (with_mutex s k (mutex_of s k\<lparr>readers := readers (mutex_of s k) - {t}\<rparr>)) t Idle)"
| set_lock: "pcs s t = SetCall k v \<Longrightarrow> writer (mutex_of s k) = None \<Longrightarrow> readers (mutex_of s k) = {} \<Longrightarrow>
    cstep s Tau (goto (with_mutex s k (mutex_of s k\<lparr>writer := Some t\<rparr>)) t (SetLocked k v))"
| set_find: "pcs s t = SetLocked k v \<Longrightarrow>
    cstep s Tau (goto s t (SetFound k v (shard_map (cstore s) k k \<noteq> None)))"
| set_assign: "pcs s t = SetFound k v True \<Longrightarrow>
    cstep s (LinSet t k v) (goto (s\<lparr>cstore := update_shard (cstore s) k (Some v)\<rparr>) t (SetDone k))"
| set_emplace: "pcs s t = SetFound k v False \<Longrightarrow>
    cstep s (LinSet t k v) (goto (s\<lparr>cstore := update_shard (cstore s) k (Some v)\<rparr>) t (SetEmplaced k))"
| set_count: "pcs s t = SetEmplaced k \<Longrightarrow>
    cstep s Tau (goto (s\<lparr>cstore := (cstore s)\<lparr>size_counter := size_counter (cstore s) + 1\<rparr>\<rparr>) t (SetDone k))"
| set_unlock: "pcs s t = SetDone k \<Longrightarrow>
    cstep s Tau (goto (with_mutex s k (mutex_of s k\<lparr>writer := None\<rparr>)) t Idle)"
| remove_lock: "pcs s t = RemoveCall k \<Longrightarrow> writer (mutex_of s k) = None \<Longrightarrow> readers (mutex_of s k) = {} \<Longrightarrow>
    cstep s Tau (goto (with_mutex s k (mutex_of s k\<lparr>writer := Some t\<rparr>)) t (RemoveLocked k))"
| remove_absent: "pcs s t = RemoveLocked k \<Longrightarrow> shard_map (cstore s) k k = None \<Longrightarrow>
    cstep s (LinRemove t k False) (goto s t (RemoveDone k False))"
| remove_erase: "pcs s t = RemoveLocked k \<Longrightarrow> shard_map (cstore s) k k \<noteq> None \<Longrightarrow>
    cstep s (LinRemove t k True) (goto (s\<lparr>cstore := update_shard (cstore s) k None\<rparr>) t (RemoveErased k))"
| remove_count: "pcs s t = RemoveErased k \<Longrightarrow>
    cstep s Tau (goto (s\<lparr>cstore := (cstore s)\<lparr>size_counter := size_counter (cstore s) - 1\<rparr>\<rparr>) t (RemoveDone k True))"
| remove_unlock: "pcs s t = RemoveDone k r \<Longrightarrow>
    cstep s Tau (goto (with_mutex s k (mutex_of s k\<lparr>writer := None\<rparr>)) t Idle)"

definition init_cstate :: cstate where
  "init_cstate = \<lparr>cstore = new_store, mutexes = (\<lambda>_. \<lparr>writer = None, readers = {}\<rparr>), pcs = (\<lambda>_. Idle)\<rparr>"

text \<open>Runs from the initial state, with the events in order.\<close>

inductive crun :: "event list \<Rightarrow> cstate \<Rightarrow> bool" where
  init: "crun [] init_cstate"
| step: "crun es s \<Longrightarrow> cstep s e s' \<Longrightarrow> crun (es @ [e]) s'"

section \<open>Invariants\<close>

text \<open>The key whose shard a thread has locked exclusively, and shared.\<close>

fun xkey :: "pc \<Rightarrow> bytes option" where
  "xkey (SetLocked k v) = Some k"
| "xkey (SetFound k v b) = Some k"
| "xkey (SetEmplaced k) = Some k"
| "xkey (SetDone k) = Some k"
| "xkey (RemoveLocked k) = Some k"
| "xkey (RemoveErased k) = Some k"
| "xkey (RemoveDone k b) = Some k"
| "xkey _ = None"

fun skey :: "pc \<Rightarrow> bytes option" where
  "skey (GetLocked k) = Some k"
| "skey (GetDone k r) = Some k"
| "skey _ = None"

definition xshard :: "pc \<Rightarrow> nat option" where
  "xshard p = map_option shard_for (xkey p)"

definition sshard :: "pc \<Rightarrow> nat option" where
  "sshard p = map_option shard_for (skey p)"

definition lock_inv :: "cstate \<Rightarrow> bool" where
  "lock_inv s \<longleftrightarrow> (\<forall>i t.
     (writer (mutexes s i) = Some t \<longleftrightarrow> xshard (pcs s t) = Some i) \<and>
     (t \<in> readers (mutexes s i) \<longleftrightarrow> sshard (pcs s t) = Some i) \<and>
     (writer (mutexes s i) \<noteq> None \<longrightarrow> readers (mutexes s i) = {}))"

lemma goto_simps [simp]:
  "pcs (goto s t p) = (pcs s)(t := p)" "cstore (goto s t p) = cstore s" "mutexes (goto s t p) = mutexes s"
  by (simp_all add: goto_def)

lemma with_mutex_simps [simp]:
  "pcs (with_mutex s k m) = pcs s" "cstore (with_mutex s k m) = cstore s"
  "mutexes (with_mutex s k m) = (mutexes s)(shard_for k := m)"
  by (simp_all add: with_mutex_def)

lemma lock_inv_sym:
  assumes "lock_inv s"
  shows "xshard (pcs s u) = Some i \<longleftrightarrow> writer (mutexes s i) = Some u"
    and "sshard (pcs s u) = Some i \<longleftrightarrow> u \<in> readers (mutexes s i)"
    and "writer (mutexes s i) \<noteq> None \<Longrightarrow> readers (mutexes s i) = {}"
  using assms by (auto simp: lock_inv_def)

lemma lock_inv_cstore [simp]: "lock_inv (s\<lparr>cstore := c\<rparr>) = lock_inv s"
  by (simp add: lock_inv_def)

lemma lock_inv_goto:
  assumes "lock_inv s" "xshard p = xshard (pcs s t)" "sshard p = sshard (pcs s t)"
  shows "lock_inv (goto s t p)"
  using assms by (auto simp: lock_inv_def)

text \<open>
  One rule for the four lock operations: thread \<open>t\<close> goes to \<open>p\<close> and the mutex of \<open>k\<close> becomes \<open>m\<close>. Other
  shards see no change of what \<open>t\<close> holds, and \<open>m\<close> records what \<open>p\<close> holds.
\<close>

lemma lock_inv_mutex:
  assumes inv: "lock_inv s"
    and other: "\<And>i. i \<noteq> shard_for k \<Longrightarrow>
      (xshard p = Some i \<longleftrightarrow> xshard (pcs s t) = Some i) \<and> (sshard p = Some i \<longleftrightarrow> sshard (pcs s t) = Some i)"
    and w: "\<And>u. writer m = Some u \<longleftrightarrow>
      (if u = t then xshard p = Some (shard_for k) else writer (mutex_of s k) = Some u)"
    and r: "\<And>u. u \<in> readers m \<longleftrightarrow>
      (if u = t then sshard p = Some (shard_for k) else u \<in> readers (mutex_of s k))"
    and x: "writer m \<noteq> None \<Longrightarrow> readers m = {}"
  shows "lock_inv (goto (with_mutex s k m) t p)"
  unfolding lock_inv_def
proof (intro allI)
  fix i u
  let ?s = "goto (with_mutex s k m) t p"
  show "(writer (mutexes ?s i) = Some u \<longleftrightarrow> xshard (pcs ?s u) = Some i) \<and>
    (u \<in> readers (mutexes ?s i) \<longleftrightarrow> sshard (pcs ?s u) = Some i) \<and>
    (writer (mutexes ?s i) \<noteq> None \<longrightarrow> readers (mutexes ?s i) = {})"
  proof (cases "i = shard_for k")
    case True
    then show ?thesis using w [of u] r [of u] x by (simp add: lock_inv_sym [OF inv])
  next
    case False
    then show ?thesis using other [of i] lock_inv_sym(3) [OF inv, of i] by (simp add: lock_inv_sym [OF inv])
  qed
qed

lemma shards_of_pc [simp]:
  "xshard Idle = None" "xshard (GetCall k) = None" "xshard (GetLocked k) = None" "xshard (GetDone k r) = None"
  "xshard (SetCall k v) = None" "xshard (SetLocked k v) = Some (shard_for k)"
  "xshard (SetFound k v b) = Some (shard_for k)" "xshard (SetEmplaced k) = Some (shard_for k)"
  "xshard (SetDone k) = Some (shard_for k)" "xshard (RemoveCall k) = None"
  "xshard (RemoveLocked k) = Some (shard_for k)" "xshard (RemoveErased k) = Some (shard_for k)"
  "xshard (RemoveDone k b) = Some (shard_for k)"
  "sshard Idle = None" "sshard (GetCall k) = None" "sshard (GetLocked k) = Some (shard_for k)"
  "sshard (GetDone k r) = Some (shard_for k)"
  "sshard (SetCall k v) = None" "sshard (SetLocked k v) = None" "sshard (SetFound k v b) = None"
  "sshard (SetEmplaced k) = None" "sshard (SetDone k) = None" "sshard (RemoveCall k) = None"
  "sshard (RemoveLocked k) = None" "sshard (RemoveErased k) = None" "sshard (RemoveDone k b) = None"
  by (simp_all add: xshard_def sshard_def)

lemma lock_inv_step: "cstep s e s' \<Longrightarrow> lock_inv s \<Longrightarrow> lock_inv s'"
proof (induction rule: cstep.induct)
  case (get_lock s t k)
  then show ?case by (intro lock_inv_mutex) (auto simp: lock_inv_sym(2) [symmetric])
next
  case (get_unlock s t k r)
  then show ?case
    using lock_inv_sym(1,2) [OF get_unlock.prems, of t "shard_for k"]
    by (intro lock_inv_mutex) (auto simp: lock_inv_sym(3))
next
  case (set_lock s t k v)
  then show ?case by (intro lock_inv_mutex) auto
next
  case (set_unlock s t k)
  then show ?case
    using lock_inv_sym(1,2) [OF set_unlock.prems, of t "shard_for k"]
    by (intro lock_inv_mutex) auto
next
  case (remove_lock s t k)
  then show ?case by (intro lock_inv_mutex) auto
next
  case (remove_unlock s t k r)
  then show ?case
    using lock_inv_sym(1,2) [OF remove_unlock.prems, of t "shard_for k"]
    by (intro lock_inv_mutex) auto
qed (simp_all add: lock_inv_goto)

lemma lock_inv_run: "crun es s \<Longrightarrow> lock_inv s"
proof (induction rule: crun.induct)
  case init
  show ?case by (simp add: lock_inv_def init_cstate_def)
qed (rule lock_inv_step)

text \<open>Two threads never hold the same shard, unless both only read.\<close>

lemma exclusive:
  assumes "lock_inv s" "xshard (pcs s t) = Some i" "xshard (pcs s u) = Some i \<or> sshard (pcs s u) = Some i"
  shows "u = t"
  using assms lock_inv_sym [OF assms(1)] by (metis empty_iff option.inject option.simps(3))

section \<open>What a thread saw under its lock stays true\<close>

definition shape_inv :: "KVStore \<Rightarrow> bool" where
  "shape_inv s \<longleftrightarrow> length (shards s) = kShardCount \<and> finite (dom (kv_abs s))"

definition seen_inv :: "cstate \<Rightarrow> bool" where
  "seen_inv s \<longleftrightarrow>
     (\<forall>t k v b. pcs s t = SetFound k v b \<longrightarrow> b = (kv_abs (cstore s) k \<noteq> None)) \<and>
     (\<forall>t k r. pcs s t = GetDone k r \<longrightarrow> r = kv_abs (cstore s) k)"

lemma shard_map_abs: "shard_map s k k = kv_abs s k"
  by (simp add: shard_map_def kv_abs_def)

lemma kv_abs_update_shard: "shape_inv s \<Longrightarrow> kv_abs (update_shard s k x) = (kv_abs s)(k := x)"
  unfolding update_shard_def shard_map_def by (rule kv_abs_update) (simp add: shape_inv_def)

lemma shape_inv_update_shard: "shape_inv s \<Longrightarrow> shape_inv (update_shard s k x)"
  using kv_abs_update_shard [of s k x] finite_subset [of "dom ((kv_abs s)(k := x))" "insert k (dom (kv_abs s))"]
  by (auto simp: shape_inv_def update_shard_def)

lemma shape_inv_size [simp]: "shape_inv (s\<lparr>size_counter := n\<rparr>) = shape_inv s"
  by (simp add: shape_inv_def)

lemma shape_inv_step: "cstep s e s' \<Longrightarrow> shape_inv (cstore s) \<Longrightarrow> shape_inv (cstore s')"
  by (induction rule: cstep.induct) (simp_all add: shape_inv_update_shard)

lemma seen_inv_goto:
  assumes "seen_inv s" "cstore s' = cstore s" "pcs s' = (pcs s)(t := p)"
    and "\<And>k v b. p = SetFound k v b \<Longrightarrow> b = (kv_abs (cstore s) k \<noteq> None)"
    and "\<And>k r. p = GetDone k r \<Longrightarrow> r = kv_abs (cstore s) k"
  shows "seen_inv s'"
  using assms by (auto simp: seen_inv_def)

text \<open>A write under the exclusive lock cannot invalidate what others have seen.\<close>

lemma seen_inv_write:
  assumes "seen_inv s" "lock_inv s" "shape_inv (cstore s)" "xshard (pcs s t) = Some (shard_for k)"
    and "\<And>k v b. p \<noteq> SetFound k v b" "\<And>k r. p \<noteq> GetDone k r"
  shows "seen_inv (goto (s\<lparr>cstore := update_shard (cstore s) k x\<rparr>) t p)"
proof -
  have "u = t" if "pcs s u = SetFound k v b \<or> pcs s u = GetDone k r" for u v b r
    using that assms(2,4) by (auto intro: exclusive)
  with assms(1,3,5,6) show ?thesis
    by (auto simp: seen_inv_def kv_abs_update_shard)
qed

lemma seen_inv_step:
  "cstep s e s' \<Longrightarrow> seen_inv s \<Longrightarrow> lock_inv s \<Longrightarrow> shape_inv (cstore s) \<Longrightarrow> seen_inv s'"
proof (induction rule: cstep.induct)
  case (set_count s t k)
  then show ?case by (auto simp: seen_inv_def)
next
  case (remove_count s t k)
  then show ?case by (auto simp: seen_inv_def)
qed (auto simp: seen_inv_write, auto simp: seen_inv_def shard_map_abs)

section \<open>The counter\<close>

definition emplaced :: "cstate \<Rightarrow> tid set" where
  "emplaced s = {t. \<exists>k. pcs s t = SetEmplaced k}"

definition erased :: "cstate \<Rightarrow> tid set" where
  "erased s = {t. \<exists>k. pcs s t = RemoveErased k}"

definition busy :: "cstate \<Rightarrow> tid set" where
  "busy s = {t. pcs s t \<noteq> Idle}"

definition count_inv :: "cstate \<Rightarrow> bool" where
  "count_inv s \<longleftrightarrow> finite (busy s) \<and>
     size_counter (cstore s) + of_nat (card (emplaced s)) = of_nat (card (dom (kv_abs (cstore s)))) + of_nat (card (erased s))"

lemma emplaced_goto: "emplaced (goto s t p) = (if \<exists>k. p = SetEmplaced k then insert t (emplaced s) else emplaced s - {t})"
  by (auto simp: emplaced_def)

lemma erased_goto: "erased (goto s t p) = (if \<exists>k. p = RemoveErased k then insert t (erased s) else erased s - {t})"
  by (auto simp: erased_def)

lemma in_flight_unchanged [simp]:
  "emplaced (with_mutex s k m) = emplaced s" "erased (with_mutex s k m) = erased s"
  "emplaced (s\<lparr>cstore := c\<rparr>) = emplaced s" "erased (s\<lparr>cstore := c\<rparr>) = erased s"
  "busy (with_mutex s k m) = busy s" "busy (s\<lparr>cstore := c\<rparr>) = busy s"
  by (simp_all add: emplaced_def erased_def busy_def)

lemma in_flight_pc:
  "pcs s t = p \<Longrightarrow> t \<in> emplaced s \<longleftrightarrow> (\<exists>k. p = SetEmplaced k)"
  "pcs s t = p \<Longrightarrow> t \<in> erased s \<longleftrightarrow> (\<exists>k. p = RemoveErased k)"
  by (auto simp: emplaced_def erased_def)

lemma finite_in_flight:
  assumes "finite (busy s)"
  shows "finite (emplaced s)" "finite (erased s)"
  using assms by (auto simp: emplaced_def erased_def busy_def intro: finite_subset [of _ "busy s", unfolded busy_def])

lemma finite_busy_goto: "finite (busy s) \<Longrightarrow> finite (busy (goto s t p))"
  by (rule finite_subset [of _ "insert t (busy s)"]) (auto simp: busy_def)

lemma size_counter_update_shard [simp]: "size_counter (update_shard s k x) = size_counter s"
  by (simp add: update_shard_def)

lemma shape_finite: "shape_inv s \<Longrightarrow> finite (dom (kv_abs s))"
  by (simp add: shape_inv_def)

lemma count_inv_step:
  "cstep s e s' \<Longrightarrow> count_inv s \<Longrightarrow> seen_inv s \<Longrightarrow> shape_inv (cstore s) \<Longrightarrow> count_inv s'"
proof (induction rule: cstep.induct)
  case (set_assign s t k v)
  then have "k \<in> dom (kv_abs (cstore s))" "t \<notin> emplaced s" "t \<notin> erased s"
    unfolding seen_inv_def by (blast, simp_all add: in_flight_pc)
  with set_assign show ?case
    by (simp add: count_inv_def emplaced_goto erased_goto kv_abs_update_shard finite_busy_goto insert_absorb)
next
  case (set_emplace s t k v)
  then have "k \<notin> dom (kv_abs (cstore s))" "t \<notin> emplaced s" "t \<notin> erased s"
    unfolding seen_inv_def by (blast, simp_all add: in_flight_pc)
  with set_emplace show ?case
    by (simp add: count_inv_def emplaced_goto erased_goto kv_abs_update_shard finite_busy_goto
        finite_in_flight shape_finite)
next
  case (set_count s t k)
  then have "t \<in> emplaced s" "t \<notin> erased s" by (simp_all add: in_flight_pc)
  moreover from this(1) have "card (emplaced s) = Suc (card (emplaced s - {t}))"
    using set_count.prems(1) by (intro card.remove) (simp_all add: count_inv_def finite_in_flight)
  ultimately show ?case
    using set_count.prems(1) by (simp add: count_inv_def emplaced_goto erased_goto finite_busy_goto algebra_simps)
next
  case (remove_erase s t k)
  then have "t \<notin> emplaced s" "t \<notin> erased s" by (simp_all add: in_flight_pc)
  moreover have "card (dom (kv_abs (cstore s))) = Suc (card (dom (kv_abs (cstore s)) - {k}))"
    using remove_erase by (intro card.remove) (simp_all add: shape_finite shard_map_abs domIff)
  ultimately show ?case
    using remove_erase.prems
    by (simp add: count_inv_def emplaced_goto erased_goto kv_abs_update_shard finite_busy_goto
        finite_in_flight algebra_simps)
next
  case (remove_count s t k)
  then have "t \<notin> emplaced s" "t \<in> erased s" by (simp_all add: in_flight_pc)
  moreover from this(2) have "card (erased s) = Suc (card (erased s - {t}))"
    using remove_count.prems(1) by (intro card.remove) (simp_all add: count_inv_def finite_in_flight)
  ultimately show ?case
    using remove_count.prems(1) by (simp add: count_inv_def emplaced_goto erased_goto finite_busy_goto algebra_simps)
qed (simp_all add: count_inv_def emplaced_goto erased_goto finite_busy_goto in_flight_pc)

section \<open>Linearizability\<close>

text \<open>The sequential specification: an event is possible if its recorded result is the map's.\<close>

fun spec_event :: "(bytes \<rightharpoonup> bytes) \<Rightarrow> event \<Rightarrow> (bytes \<rightharpoonup> bytes) option" where
  "spec_event m Tau = Some m"
| "spec_event m (LinGet t k r) = (if r = m k then Some m else None)"
| "spec_event m (LinSet t k v) = Some (m(k \<mapsto> v))"
| "spec_event m (LinRemove t k b) = (if b = (m k \<noteq> None) then Some (m(k := None)) else None)"

fun spec_run :: "(bytes \<rightharpoonup> bytes) \<Rightarrow> event list \<Rightarrow> (bytes \<rightharpoonup> bytes) option" where
  "spec_run m [] = Some m"
| "spec_run m (e # es) = (case spec_event m e of None \<Rightarrow> None | Some m' \<Rightarrow> spec_run m' es)"

lemma spec_run_snoc: "spec_run m (es @ [e]) = (case spec_run m es of None \<Rightarrow> None | Some m' \<Rightarrow> spec_event m' e)"
  by (induction es arbitrary: m) (auto split: option.splits)

lemma cstep_simulates:
  "cstep s e s' \<Longrightarrow> shape_inv (cstore s) \<Longrightarrow> spec_event (kv_abs (cstore s)) e = Some (kv_abs (cstore s'))"
  by (induction rule: cstep.induct) (auto simp: shard_map_abs kv_abs_update_shard fun_upd_idem)

lemma crun_invariants: "crun es s \<Longrightarrow> lock_inv s \<and> shape_inv (cstore s) \<and> seen_inv s \<and> count_inv s"
proof (induction rule: crun.induct)
  case init
  have "kv_abs (cstore init_cstate) = Map.empty" by (simp add: init_cstate_def)
  then show ?case
    by (simp add: lock_inv_run [OF crun.init] shape_inv_def count_inv_def)
      (simp add: init_cstate_def seen_inv_def new_store_def emplaced_def erased_def busy_def)
next
  case (step es s e s')
  then show ?case
    using lock_inv_step shape_inv_step seen_inv_step count_inv_step by blast
qed

lemma crun_spec: "crun es s \<Longrightarrow> spec_run Map.empty es = Some (kv_abs (cstore s))"
proof (induction rule: crun.induct)
  case init
  show ?case by (simp add: init_cstate_def)
next
  case (step es s e s')
  then show ?case
    using crun_invariants [OF step.hyps(1)] by (simp add: spec_run_snoc cstep_simulates)
qed

lemma holder_can_step:
  assumes "pcs s t \<noteq> Idle" "\<And>k. pcs s t \<noteq> GetCall k" "\<And>k v. pcs s t \<noteq> SetCall k v" "\<And>k. pcs s t \<noteq> RemoveCall k"
  shows "\<exists>e s'. cstep s e s' \<and> pcs s' t \<noteq> pcs s t"
proof (cases "pcs s t")
  case (SetFound k v b)
  then show ?thesis
    using cstep.set_assign [of s t k v] cstep.set_emplace [of s t k v] by (cases b) fastforce+
next
  case (RemoveLocked k)
  then show ?thesis
    using cstep.remove_absent [of s t k] cstep.remove_erase [of s t k]
    by (cases "shard_map (cstore s) k k") fastforce+
next
  case (GetLocked k)
  then show ?thesis using cstep.get_find [of s t k] by fastforce
next
  case (GetDone k r)
  then show ?thesis using cstep.get_unlock [of s t k r] by fastforce
next
  case (SetLocked k v)
  then show ?thesis using cstep.set_find [of s t k v] by fastforce
next
  case (SetEmplaced k)
  then show ?thesis using cstep.set_count [of s t k] by fastforce
next
  case (SetDone k)
  then show ?thesis using cstep.set_unlock [of s t k] by fastforce
next
  case (RemoveErased k)
  then show ?thesis using cstep.remove_count [of s t k] by fastforce
next
  case (RemoveDone k r)
  then show ?thesis using cstep.remove_unlock [of s t k r] by fastforce
qed (use assms in simp_all)

text \<open>A thread that waits for a lock waits for a thread that holds it, and holders can always step.\<close>

lemma holder_steps:
  assumes "lock_inv s" "writer (mutexes s i) = Some t \<or> t \<in> readers (mutexes s i)"
  shows "\<exists>e s'. cstep s e s' \<and> pcs s' t \<noteq> pcs s t"
  using assms(2) by (intro holder_can_step) (auto simp flip: lock_inv_sym(1,2) [OF assms(1)])

lemma busy_can_step:
  assumes inv: "lock_inv s" and busy: "pcs s t \<noteq> Idle"
  shows "\<exists>u e s'. u \<in> busy s \<and> cstep s e s' \<and> pcs s' u \<noteq> pcs s u"
proof (cases "\<exists>i u. writer (mutexes s i) = Some u \<or> u \<in> readers (mutexes s i)")
  case True
  then obtain i u where u: "writer (mutexes s i) = Some u \<or> u \<in> readers (mutexes s i)" by blast
  then have "u \<in> busy s" using lock_inv_sym(1,2) [OF inv, of u i] by (auto simp: busy_def)
  with holder_steps [OF inv u] show ?thesis by blast
next
  case False
  then have free: "writer (mutexes s i) = None" "readers (mutexes s i) = {}" for i
    by (cases "writer (mutexes s i)"; simp) (use False in blast)
  have "\<exists>e s'. cstep s e s' \<and> pcs s' t \<noteq> pcs s t"
  proof (cases "pcs s t")
    case (GetCall k)
    then show ?thesis using cstep.get_lock [of s t k] free by fastforce
  next
    case (SetCall k v)
    then show ?thesis using cstep.set_lock [of s t k v] free by fastforce
  next
    case (RemoveCall k)
    then show ?thesis using cstep.remove_lock [of s t k] free by fastforce
  qed (use busy holder_can_step [of s t] in \<open>auto simp del: fun_upd_apply\<close>)
  with busy show ?thesis by (auto simp: busy_def)
qed

section \<open>Properties\<close>

text \<open>A run for the concrete instances: thread 0 is inside \<^verbatim>\<open>set("a", "1")\<close>, between the map and the counter.\<close>

lemma demo_crun: "\<exists>s. crun [Tau, Tau, Tau, LinSet 0 ''a'' ''1''] s \<and> pcs s 0 = SetEmplaced ''a'' \<and> (\<forall>u. u \<noteq> 0 \<longrightarrow> pcs s u = Idle)"
proof -
  let ?k = "''a''" and ?v = "''1''"
  define s1 where "s1 = goto init_cstate 0 (SetCall ?k ?v)"
  define s2 where "s2 = goto (with_mutex s1 ?k (mutex_of s1 ?k\<lparr>writer := Some 0\<rparr>)) 0 (SetLocked ?k ?v)"
  define s3 where "s3 = goto s2 0 (SetFound ?k ?v (shard_map (cstore s2) ?k ?k \<noteq> None))"
  define s4 where "s4 = goto (s3\<lparr>cstore := update_shard (cstore s3) ?k (Some ?v)\<rparr>) 0 (SetEmplaced ?k)"
  have absent: "shard_map (cstore s2) ?k ?k = None"
    by (simp add: s2_def s1_def init_cstate_def shard_map_abs)
  have "crun ([] @ [Tau]) s1"
    unfolding s1_def by (rule crun.step [OF crun.init], rule cstep.call_set) (simp add: init_cstate_def)
  then have "crun (([] @ [Tau]) @ [Tau]) s2"
    unfolding s2_def by (rule crun.step, intro cstep.set_lock) (simp_all add: s1_def init_cstate_def)
  then have "crun ((([] @ [Tau]) @ [Tau]) @ [Tau]) s3"
    unfolding s3_def by (rule crun.step, intro cstep.set_find) (simp add: s2_def)
  then have "crun (((([] @ [Tau]) @ [Tau]) @ [Tau]) @ [LinSet 0 ?k ?v]) s4"
    unfolding s4_def by (rule crun.step, intro cstep.set_emplace) (simp add: s3_def absent)
  moreover have "pcs s4 0 = SetEmplaced ?k" "\<forall>u. u \<noteq> 0 \<longrightarrow> pcs s4 u = Idle"
    by (simp_all add: s4_def s3_def s2_def s1_def init_cstate_def)
  ultimately show ?thesis by auto
qed



text \<open>
  C32: The size counter is exact up to operations in flight: at every moment it is the number of keys,
  minus the threads that have inserted a key and not yet counted it, plus the threads that have erased
  one and not yet counted that. So it is exact whenever no operation is between these two steps.
\<close>

theorem store_size_counter:
  assumes "crun es s"
  shows "kv_size (cstore s) = of_nat (card (dom (kv_abs (cstore s)))) - of_nat (card (emplaced s)) + of_nat (card (erased s))"
  using crun_invariants [OF assms] by (simp add: count_inv_def kv_size_def algebra_simps)

theorem store_size_counter_witness:
  "\<exists>s. crun [Tau, Tau, Tau, LinSet 0 ''a'' ''1''] s \<and> emplaced s = {0} \<and> erased s = {} \<and>
     dom (kv_abs (cstore s)) = {''a''} \<and> kv_size (cstore s) = 0"
proof -
  obtain s where run: "crun [Tau, Tau, Tau, LinSet 0 ''a'' ''1''] s" and pc: "pcs s 0 = SetEmplaced ''a''"
    and others: "\<forall>u. u \<noteq> 0 \<longrightarrow> pcs s u = Idle" using demo_crun by blast
  have "emplaced s = {0}" "erased s = {}"
  proof -
    have "t \<in> emplaced s \<longleftrightarrow> t = 0" "t \<notin> erased s" for t
      using pc others by (cases "t = 0"; simp add: emplaced_def erased_def)+
    then show "emplaced s = {0}" "erased s = {}" by auto
  qed
  moreover have "kv_abs (cstore s) = [''a'' \<mapsto> ''1'']" using crun_spec [OF run] by simp
  ultimately show ?thesis using store_size_counter [OF run] run by (intro exI [of _ s]) simp
qed

text \<open>
  C33: Mutual exclusion and absence of deadlock. A thread that holds a shard exclusively is the only one
  that holds it in any way, and whenever some operation is in progress, some thread that is inside an
  operation can take its next step.
\<close>

theorem store_locks_safe_and_live:
  assumes "crun es s"
  shows "(\<forall>i t u. xshard (pcs s t) = Some i \<and> (xshard (pcs s u) = Some i \<or> sshard (pcs s u) = Some i) \<longrightarrow> u = t) \<and>
    (busy s \<noteq> {} \<longrightarrow> (\<exists>u e s'. u \<in> busy s \<and> cstep s e s' \<and> pcs s' u \<noteq> pcs s u))"
  using exclusive [OF lock_inv_run [OF assms]] busy_can_step [OF lock_inv_run [OF assms]]
  by (auto simp: busy_def)

theorem store_locks_safe_and_live_witness:
  "\<exists>s. crun [Tau, Tau, Tau, LinSet 0 ''a'' ''1''] s \<and> busy s \<noteq> {} \<and>
     (\<exists>u e s'. u \<in> busy s \<and> cstep s e s' \<and> pcs s' u \<noteq> pcs s u)"
proof -
  obtain s where run: "crun [Tau, Tau, Tau, LinSet 0 ''a'' ''1''] s" and pc: "pcs s 0 = SetEmplaced ''a''"
    using demo_crun by blast
  then have "0 \<in> busy s" by (simp add: busy_def)
  then have "busy s \<noteq> {}" by blast
  with run store_locks_safe_and_live [OF run] show ?thesis by blast
qed

end
