(* ===== verification/Net_Io.thy ===== *)
theory Net_Io
  imports Protocol "HOL-Library.Word"
begin

text \<open>
  Input and output: \<^verbatim>\<open>src/common/socket_utils.cpp\<close>, the blocking write loops, and
  \<^verbatim>\<open>protocol::send_request\<close>. The kernel and the C library are not part of the program: the record
  \<open>os\<close> holds the calls the program makes, over an arbitrary type \<open>'w\<close> of worlds, and every operation takes
  it as an argument. What the theorems rely on (POSIX behaviour of the calls) is stated by the
  predicates \<open>posix_write\<close>, \<open>posix_read\<close>, \<open>posix_fds\<close> and is a hypothesis where it is used.

  An operation either never returns (\<open>None\<close>), or returns normally or by an exception, in a new world.

  Shown: the write loops return and deliver everything, or deliver a proper prefix and report it
  (the reactor's silently); \<open>send_request\<close> returns the response of the peer from any segmentation, and
  throws if the peer closes early; \<open>connect_to\<close> and \<open>create_listening_socket\<close> leak no descriptor.
\<close>

section \<open>System calls\<close>

datatype errno = EINTR | EAGAIN | EWOULDBLOCK | Errno nat

datatype poll_event = POLLIN | POLLOUT | POLLHUP | POLLERR

datatype sockopt = TCP_NODELAY int | SO_REUSEADDR int | SO_RCVTIMEO "int \<times> int" | SO_SNDTIMEO "int \<times> int"

datatype fcntl_cmd = F_GETFL | F_SETFL int

record addrinfo =
  ai_family :: int
  ai_socktype :: int
  ai_protocol :: int
  ai_addr :: bytes

text \<open>
  The calls as the program sees them: a negative result is a failure, with the reason in \<open>errno\<close>.
  \<open>sys_read\<close> returns \<open>None\<close> for a negative result, and otherwise the bytes, none of them at the end
  of the stream.
\<close>

record 'w os =
  errno_of :: "'w \<Rightarrow> errno"
  set_errno :: "errno \<Rightarrow> 'w \<Rightarrow> 'w"
  strerror :: "errno \<Rightarrow> bytes"
  gai_strerror :: "int \<Rightarrow> bytes"
  sys_write :: "int \<Rightarrow> bytes \<Rightarrow> 'w \<Rightarrow> int \<times> 'w"
  sys_read :: "int \<Rightarrow> nat \<Rightarrow> 'w \<Rightarrow> bytes option \<times> 'w"
  sys_poll :: "(int \<times> poll_event set) list \<Rightarrow> int \<Rightarrow> 'w \<Rightarrow> (int \<times> poll_event set list) \<times> 'w"
  sys_pipe :: "'w \<Rightarrow> (int \<times> int \<times> int) \<times> 'w"
  sys_close :: "int \<Rightarrow> 'w \<Rightarrow> 'w"
  sys_socket :: "int \<Rightarrow> int \<Rightarrow> int \<Rightarrow> 'w \<Rightarrow> int \<times> 'w"
  sys_connect :: "int \<Rightarrow> bytes \<Rightarrow> 'w \<Rightarrow> int \<times> 'w"
  sys_bind :: "int \<Rightarrow> 16 word \<Rightarrow> 'w \<Rightarrow> int \<times> 'w"
  sys_listen :: "int \<Rightarrow> int \<Rightarrow> 'w \<Rightarrow> int \<times> 'w"
  sys_accept :: "int \<Rightarrow> 'w \<Rightarrow> int \<times> 'w"
  sys_fcntl :: "int \<Rightarrow> fcntl_cmd \<Rightarrow> 'w \<Rightarrow> int \<times> 'w"
  sys_setsockopt :: "int \<Rightarrow> sockopt \<Rightarrow> 'w \<Rightarrow> int \<times> 'w"
  sys_getaddrinfo :: "bytes \<Rightarrow> bytes \<Rightarrow> 'w \<Rightarrow> (int \<times> addrinfo list) \<times> 'w"

section \<open>Computations over a world\<close>

type_synonym ('w, 'a) io = "'w \<Rightarrow> ((exn + 'a) \<times> 'w) option"

definition io_return :: "'a \<Rightarrow> ('w, 'a) io" where
  "io_return x w = Some (Inr x, w)"

definition io_throw :: "bytes \<Rightarrow> ('w, 'a) io" where
  "io_throw msg w = Some (Inl (Runtime_error msg), w)"

definition io_bind :: "('w, 'a) io \<Rightarrow> ('a \<Rightarrow> ('w, 'b) io) \<Rightarrow> ('w, 'b) io" where
  "io_bind m f w = Option.bind (m w) (\<lambda>(r, w'). case r of Inl e \<Rightarrow> Some (Inl e, w') | Inr x \<Rightarrow> f x w')"

definition io_catch :: "('w, 'a) io \<Rightarrow> (exn \<Rightarrow> ('w, 'a) io) \<Rightarrow> ('w, 'a) io" where
  "io_catch m h w = Option.bind (m w) (\<lambda>(r, w'). case r of Inl e \<Rightarrow> h e w' | Inr x \<Rightarrow> Some (Inr x, w'))"

text \<open>A call that always returns.\<close>

definition io_call :: "('w \<Rightarrow> 'a \<times> 'w) \<Rightarrow> ('w, 'a) io" where
  "io_call f w = Some (Inr (fst (f w)), snd (f w))"

text \<open>Run \<open>m\<close>, then the destructors \<open>d\<close>, whether \<open>m\<close> returned or threw.\<close>

definition io_finally :: "('w, 'a) io \<Rightarrow> ('w \<Rightarrow> 'w) \<Rightarrow> ('w, 'a) io" where
  "io_finally m d w = Option.bind (m w) (\<lambda>(r, w'). Some (r, d w'))"

lemma io_simps [simp]:
  "io_return x w = Some (Inr x, w)"
  "io_throw msg w = Some (Inl (Runtime_error msg), w)"
  "io_call g w = Some (Inr (fst (g w)), snd (g w))"
  "m w = None \<Longrightarrow> io_bind m f w = None"
  "m w = Some (Inl e, w') \<Longrightarrow> io_bind m f w = Some (Inl e, w')"
  "m w = Some (Inr x, w') \<Longrightarrow> io_bind m f w = f x w'"
  "m' w = None \<Longrightarrow> io_catch m' h w = None"
  "m' w = Some (Inl e, w') \<Longrightarrow> io_catch m' h w = h e w'"
  "m' w = Some (Inr y, w') \<Longrightarrow> io_catch m' h w = Some (Inr y, w')"
  "m' w = Some (r, w') \<Longrightarrow> io_finally m' d w = Some (r, d w')"
  by (simp_all add: io_return_def io_throw_def io_call_def io_bind_def io_catch_def io_finally_def)

lemma io_bind_SomeE:
  assumes "io_bind m f w = Some y"
  obtains (threw) e w1 where "m w = Some (Inl e, w1)" "y = (Inl e, w1)"
  | (returned) x w1 where "m w = Some (Inr x, w1)" "f x w1 = Some y"
proof (cases "m w")
  case (Some rw)
  then show ?thesis
    using assms threw returned by (cases rw; cases "fst rw") auto
qed (use assms in simp)

lemma io_catch_SomeE:
  assumes "io_catch m h w = Some y"
  obtains (threw) e w1 where "m w = Some (Inl e, w1)" "h e w1 = Some y"
  | (returned) x w1 where "m w = Some (Inr x, w1)" "y = (Inr x, w1)"
proof (cases "m w")
  case (Some rw)
  then show ?thesis
    using assms threw returned by (cases rw; cases "fst rw") auto
qed (use assms in simp)

lemma io_finally_SomeE:
  assumes "io_finally m d w = Some y"
  obtains r w1 where "m w = Some (r, w1)" "y = (r, d w1)"
  using assms unfolding io_finally_def by (auto simp: bind_eq_Some_conv)

lemma io_bind_mono [partial_function_mono]:
  assumes "mono_option (\<lambda>f. m f w)" "\<And>x w'. mono_option (\<lambda>f. g f x w')"
  shows "mono_option (\<lambda>f. io_bind (m f) (g f) w)"
  unfolding io_bind_def
proof (rule bind_mono [OF assms(1)])
  show "mono_option (\<lambda>f. case y of (r, w') \<Rightarrow> (case r of Inl e \<Rightarrow> Some (Inl e, w') | Inr x \<Rightarrow> g f x w'))" for y
    by (cases y; cases "fst y") (simp_all add: assms(2) option.const_mono)
qed

section \<open>socket_utils\<close>

definition throw_errno :: "'w os \<Rightarrow> bytes \<Rightarrow> ('w, 'a) io" where
  "throw_errno os msg w = io_throw (msg @ '': '' @ strerror os (errno_of os w)) w"

text \<open>\<^verbatim>\<open>Socket\<close> owns a descriptor; \<open>-1\<close> owns none. Its destructor is \<open>close_if_valid\<close>.\<close>

record Socket =
  sock_fd :: int

definition close_if_valid :: "'w os \<Rightarrow> Socket \<Rightarrow> 'w \<Rightarrow> Socket \<times> 'w" where
  "close_if_valid os s w = (if 0 \<le> sock_fd s then (\<lparr>sock_fd = -1\<rparr>, sys_close os (sock_fd s) w) else (s, w))"

definition destroy_socket :: "'w os \<Rightarrow> Socket \<Rightarrow> 'w \<Rightarrow> 'w" where
  "destroy_socket os s w = snd (close_if_valid os s w)"

text \<open>
  The moves return the target and the moved-from source. Assignment is between different objects;
  a self-assignment does nothing.
\<close>

definition move_socket :: "Socket \<Rightarrow> Socket \<times> Socket" where
  "move_socket other = (\<lparr>sock_fd = sock_fd other\<rparr>, \<lparr>sock_fd = -1\<rparr>)"

definition move_assign :: "'w os \<Rightarrow> Socket \<Rightarrow> Socket \<Rightarrow> 'w \<Rightarrow> (Socket \<times> Socket) \<times> 'w" where
  "move_assign os this other w =
     (let (this', w') = close_if_valid os this w
      in ((this'\<lparr>sock_fd := sock_fd other\<rparr>, \<lparr>sock_fd = -1\<rparr>), w'))"

definition release_socket :: "Socket \<Rightarrow> int \<times> Socket" where
  "release_socket s = (sock_fd s, \<lparr>sock_fd = -1\<rparr>)"

text \<open>The bit \<open>O_NONBLOCK\<close> depends on the platform; \<open>or_nonblock\<close> sets it in the flags.\<close>

definition set_nonblocking :: "'w os \<Rightarrow> (int \<Rightarrow> int) \<Rightarrow> int \<Rightarrow> ('w, unit) io" where
  "set_nonblocking os or_nonblock fd =
     io_bind (io_call (sys_fcntl os fd F_GETFL)) (\<lambda>flags.
       if flags < 0 then throw_errno os ''fcntl(F_GETFL)''
       else io_bind (io_call (sys_fcntl os fd (F_SETFL (or_nonblock flags)))) (\<lambda>rc.
         if rc < 0 then throw_errno os ''fcntl(F_SETFL, O_NONBLOCK)'' else io_return ()))"

definition set_tcp_nodelay :: "'w os \<Rightarrow> int \<Rightarrow> ('w, unit) io" where
  "set_tcp_nodelay os fd =
     io_bind (io_call (sys_setsockopt os fd (TCP_NODELAY 1))) (\<lambda>rc.
       if rc < 0 then throw_errno os ''setsockopt(TCP_NODELAY)'' else io_return ())"

definition set_recv_timeout :: "'w os \<Rightarrow> int \<Rightarrow> nat \<Rightarrow> ('w, unit) io" where
  "set_recv_timeout os fd timeout_ms =
     (let tv = (int (timeout_ms div 1000), int (timeout_ms mod 1000 * 1000)) in
      io_bind (io_call (sys_setsockopt os fd (SO_RCVTIMEO tv))) (\<lambda>rc.
        if rc < 0 then throw_errno os ''setsockopt(SO_RCVTIMEO)''
        else io_bind (io_call (sys_setsockopt os fd (SO_SNDTIMEO tv))) (\<lambda>rc.
          if rc < 0 then throw_errno os ''setsockopt(SO_SNDTIMEO)'' else io_return ())))"

definition AF_INET :: int where "AF_INET = 2"
definition SOCK_STREAM :: int where "SOCK_STREAM = 1"

text \<open>
  The local \<^verbatim>\<open>Socket sock(fd)\<close> is destroyed when an exception leaves the function, and moved to the
  caller otherwise.
\<close>

definition create_listening_socket :: "'w os \<Rightarrow> 16 word \<Rightarrow> int \<Rightarrow> ('w, Socket) io" where
  "create_listening_socket os port backlog =
     io_bind (io_call (sys_socket os AF_INET SOCK_STREAM 0)) (\<lambda>fd.
       if fd < 0 then throw_errno os ''socket''
       else io_catch
         (io_bind (io_call (sys_setsockopt os fd (SO_REUSEADDR 1))) (\<lambda>rc.
            if rc < 0 then throw_errno os ''setsockopt(SO_REUSEADDR)''
            else io_bind (io_call (sys_bind os fd port)) (\<lambda>rc.
              if rc < 0 then throw_errno os ''bind''
              else io_bind (io_call (sys_listen os fd backlog)) (\<lambda>rc.
                if rc < 0 then throw_errno os ''listen''
                else io_return \<lparr>sock_fd = fd\<rparr>))))
         (\<lambda>e w. Some (Inl e, destroy_socket os \<lparr>sock_fd = fd\<rparr> w)))"

text \<open>
  The loop over the resolved addresses (looked up with the fixed hints \<^verbatim>\<open>AF_INET\<close>, \<^verbatim>\<open>SOCK_STREAM\<close>): the 
  descriptor, negative if there is none, and \<^verbatim>\<open>last_errno\<close>.
\<close>

fun connect_any :: "'w os \<Rightarrow> addrinfo list \<Rightarrow> int \<Rightarrow> errno \<Rightarrow> 'w \<Rightarrow> (int \<times> errno) \<times> 'w" where
  "connect_any os [] fd last_errno w = ((fd, last_errno), w)"
| "connect_any os (p # ps) fd last_errno w =
     (let (fd, w1) = sys_socket os (ai_family p) (ai_socktype p) (ai_protocol p) w in
      if fd < 0 then connect_any os ps fd (errno_of os w1) w1
      else let (rc, w2) = sys_connect os fd (ai_addr p) w1 in
        if rc = 0 then ((fd, last_errno), w2)
        else connect_any os ps (-1) (errno_of os w2) (sys_close os fd w2))"

definition connect_to :: "'w os \<Rightarrow> bytes \<Rightarrow> 16 word \<Rightarrow> ('w, Socket) io" where
  "connect_to os host port =
     io_bind (io_call (sys_getaddrinfo os host (to_string (unat port)))) (\<lambda>(rc, result).
       if rc \<noteq> 0 then io_throw (''getaddrinfo('' @ host @ ''): '' @ gai_strerror os rc)
       else io_bind (io_call (connect_any os result (-1) (Errno 0))) (\<lambda>(fd, last_errno).
         if fd < 0
         then (\<lambda>w. throw_errno os (''connect to '' @ host @ '':'' @ to_string (unat port)) (set_errno os last_errno w))
         else io_return \<lparr>sock_fd = fd\<rparr>))"

section \<open>Write loops\<close>

text \<open>
  \<^verbatim>\<open>write_all\<close> of the reactor, on a non-blocking descriptor: it waits in \<^verbatim>\<open>poll\<close> while the send
  buffer is full, and gives up silently on an error.
\<close>

partial_function (option) reactor_write_all :: "'w os \<Rightarrow> int \<Rightarrow> bytes \<Rightarrow> nat \<Rightarrow> ('w, unit) io" where
  "reactor_write_all os fd data sent w =
     (if sent < length data then
        let (n, w1) = sys_write os fd (drop sent data) w in
        if 0 < n then reactor_write_all os fd data (sent + nat n) w1
        else if n < 0 \<and> errno_of os w1 \<in> {EAGAIN, EWOULDBLOCK}
        then reactor_write_all os fd data sent (snd (sys_poll os [(fd, {POLLOUT})] (-1) w1))
        else if n < 0 \<and> errno_of os w1 = EINTR then reactor_write_all os fd data sent w1
        else Some (Inr (), w1)
      else Some (Inr (), w))"

text \<open>
  The loop of the router's \<^verbatim>\<open>write_all\<close> and of \<^verbatim>\<open>send_request\<close>, on a blocking descriptor: the same,
  but every error except \<^verbatim>\<open>EINTR\<close> throws. The two differ in the message.
\<close>

partial_function (option) blocking_write :: "'w os \<Rightarrow> int \<Rightarrow> ('w \<Rightarrow> bytes) \<Rightarrow> bytes \<Rightarrow> nat \<Rightarrow> ('w, unit) io" where
  "blocking_write os fd msg data sent w =
     (if sent < length data then
        let (n, w1) = sys_write os fd (drop sent data) w in
        if 0 < n then blocking_write os fd msg data (sent + nat n) w1
        else if n < 0 \<and> errno_of os w1 = EINTR then blocking_write os fd msg data sent w1
        else io_throw (msg w1) w1
      else Some (Inr (), w))"

definition router_write_all :: "'w os \<Rightarrow> int \<Rightarrow> bytes \<Rightarrow> ('w, unit) io" where
  "router_write_all os fd data = blocking_write os fd (\<lambda>w. ''write failed: '' @ strerror os (errno_of os w)) data 0"

section \<open>send_request\<close>

text \<open>
  \<^verbatim>\<open>Response resp;\<close> leaves \<^verbatim>\<open>type\<close> indeterminate; \<^verbatim>\<open>try_parse_response\<close> sets it before it
  answers \<^verbatim>\<open>Complete\<close>.
\<close>

definition new_response :: Response where
  "new_response = \<lparr>resp_type = Value, resp_value = [], resp_message = []\<rparr>"

partial_function (option) read_response :: "'w os \<Rightarrow> int \<Rightarrow> ResponseParser \<Rightarrow> Response \<Rightarrow> ('w, Response) io" where
  "read_response os fd parser resp w =
     (let (status, parser, resp) = try_parse_response parser resp in
      if status = Complete then Some (Inr resp, w)
      else if status = ParseError then io_throw (''protocol error: '' @ error_message parser) w
      else let (r, w1) = sys_read os fd 4096 w in
        (case r of
           None \<Rightarrow> io_throw ''connection closed while waiting for response'' w1
         | Some chunk \<Rightarrow>
             if chunk = [] then io_throw ''connection closed while waiting for response'' w1
             else read_response os fd (feed parser chunk) resp w1))"

definition send_request :: "'w os \<Rightarrow> int \<Rightarrow> Request \<Rightarrow> ('w, Response) io" where
  "send_request os fd req =
     io_bind (blocking_write os fd (\<lambda>_. ''failed to write request'') (encode_request req) 0)
       (\<lambda>_. read_response os fd new_parser new_response)"

section \<open>What the kernel promises\<close>

text \<open>
  \<open>sent w fd\<close> are the bytes handed to the kernel on \<open>fd\<close> so far. A write accepts a prefix of the data,
  and none of it when it fails; \<open>poll\<close> transfers nothing.
\<close>

definition posix_write :: "'w os \<Rightarrow> ('w \<Rightarrow> int \<Rightarrow> bytes) \<Rightarrow> bool" where
  "posix_write os sent \<longleftrightarrow>
     (\<forall>fd d w. fst (sys_write os fd d w) \<le> int (length d) \<and>
        sent (snd (sys_write os fd d w)) = (sent w)(fd := sent w fd @ take (nat (fst (sys_write os fd d w))) d)) \<and>
     (\<forall>fds t w. sent (snd (sys_poll os fds t w)) = sent w)"

text \<open>
  Interruptions do not go on for ever: \<open>budget\<close> bounds how many calls in a row may fail with
  \<^verbatim>\<open>EINTR\<close> or \<^verbatim>\<open>EAGAIN\<close> before one succeeds or fails for good.
\<close>

definition retries_end :: "'w os \<Rightarrow> ('w \<Rightarrow> nat) \<Rightarrow> bool" where
  "retries_end os budget \<longleftrightarrow>
     (\<forall>fd d w. let (n, w1) = sys_write os fd d w in
        n < 0 \<longrightarrow> errno_of os w1 \<in> {EINTR, EAGAIN, EWOULDBLOCK} \<longrightarrow> budget w1 < budget w) \<and>
     (\<forall>fds t w. budget (snd (sys_poll os fds t w)) \<le> budget w)"

text \<open>
  \<open>avail w fd\<close> are the bytes the peer has still to deliver on \<open>fd\<close>. A read that succeeds removes a
  prefix of them, not an empty one before the end of the stream.
\<close>

definition posix_read :: "'w os \<Rightarrow> ('w \<Rightarrow> int \<Rightarrow> bytes) \<Rightarrow> bool" where
  "posix_read os avail \<longleftrightarrow>
     (\<forall>fd n w. case sys_read os fd n w of
        (None, w') \<Rightarrow> avail w' fd = avail w fd
      | (Some d, w') \<Rightarrow> length d \<le> n \<and> avail w fd = d @ avail w' fd \<and> (0 < n \<longrightarrow> d = [] \<longrightarrow> avail w fd = []))"

lemma posix_writeD:
  assumes "posix_write os sent" "sys_write os fd d w = (n, w')"
  shows "n \<le> int (length d)" "sent w' = (sent w)(fd := sent w fd @ take (nat n) d)"
  using assms unfolding posix_write_def by (metis fst_conv snd_conv)+

lemma posix_pollD: "posix_write os sent \<Longrightarrow> sent (snd (sys_poll os fds t w)) = sent w"
  unfolding posix_write_def by blast

lemma retries_endD:
  assumes "retries_end os budget" "sys_write os fd d w = (n, w')" "n < 0"
  shows "errno_of os w' \<in> {EINTR, EAGAIN, EWOULDBLOCK} \<Longrightarrow> budget w' < budget w"
  using assms unfolding retries_end_def by (metis (mono_tags, lifting) case_prod_conv)

lemma retries_end_pollD: "retries_end os budget \<Longrightarrow> budget (snd (sys_poll os fds t w)) \<le> budget w"
  unfolding retries_end_def by blast

section \<open>The write loops\<close>

text \<open>Between the two worlds, bytes \<open>i\<close> to \<open>k\<close> of the data went out on \<open>fd\<close>, and nothing else.\<close>

definition delivered :: "('w \<Rightarrow> int \<Rightarrow> bytes) \<Rightarrow> int \<Rightarrow> bytes \<Rightarrow> nat \<Rightarrow> nat \<Rightarrow> 'w \<Rightarrow> 'w \<Rightarrow> bool" where
  "delivered sent fd data i k w w' \<longleftrightarrow>
     i \<le> k \<and> k \<le> length data \<and> sent w' = (sent w)(fd := sent w fd @ take (k - i) (drop i data))"

lemma delivered_refl: "i \<le> length data \<Longrightarrow> sent w' = sent w \<Longrightarrow> delivered sent fd data i i w w'"
  by (simp add: delivered_def)

lemma delivered_trans:
  assumes "delivered sent fd data i j w w'" "delivered sent fd data j k w' w''"
  shows "delivered sent fd data i k w w''"
proof -
  from assms have "take (j - i) (drop i data) @ take (k - j) (drop j data) = take (k - i) (drop i data)"
    using take_add [of "j - i" "k - j" "drop i data"] by (simp add: delivered_def)
  with assms show ?thesis by (auto simp: delivered_def)
qed

lemma delivered_write:
  assumes "posix_write os sent" "sys_write os fd (drop i data) w = (n, w')" "i \<le> length data"
  shows "delivered sent fd data i (i + nat n) w w'"
  using posix_writeD [OF assms(1,2)] assms(3) by (auto simp: delivered_def)

lemma blocking_write_delivers:
  assumes os: "posix_write os sent" "retries_end os budget" and "i \<le> length data"
  shows "\<exists>r w' k. blocking_write os fd msg data i w = Some (r, w') \<and> delivered sent fd data i k w w' \<and>
    (case r of Inr _ \<Rightarrow> k = length data | Inl e \<Rightarrow> k < length data \<and> e = Runtime_error (msg w'))"
  using assms(3)
proof (induction "(length data - i, budget w)" arbitrary: i w rule: wf_induct_rule [OF wf_lex_prod [OF wf_less_than wf_less_than]])
  case less: (1 i w)
  obtain n w1 where call: "sys_write os fd (drop i data) w = (n, w1)" by fastforce
  note step = delivered_write [OF os(1) call less.prems]
  consider "length data \<le> i" | "i < length data" "0 < n" | "i < length data" "n < 0" "errno_of os w1 = EINTR"
    | "i < length data" "n \<le> 0" "\<not> (n < 0 \<and> errno_of os w1 = EINTR)" by linarith
  then show ?case
  proof cases
    case 1
    with less.prems show ?thesis by (subst blocking_write.simps) (auto simp: delivered_def)
  next
    case 2
    with step have "i + nat n \<le> length data" "length data - (i + nat n) < length data - i"
      by (simp_all add: delivered_def)
    with 2 less.hyps [of "i + nat n" w1] show ?thesis
      by (subst blocking_write.simps) (auto simp: call dest: delivered_trans [OF step])
  next
    case 3
    with less.hyps [of i w1] retries_endD [OF os(2) call] less.prems show ?thesis
      using step by (subst blocking_write.simps) (auto simp: call dest: delivered_trans)
  next
    case 4
    with step show ?thesis by (subst blocking_write.simps) (auto simp: call)
  qed
qed

text \<open>No write fails for good: the peer keeps the connection open.\<close>

definition writes_succeed :: "'w os \<Rightarrow> bool" where
  "writes_succeed os \<longleftrightarrow>
     (\<forall>fd d w. let (n, w1) = sys_write os fd d w in
        d \<noteq> [] \<longrightarrow> 0 < n \<or> n < 0 \<and> errno_of os w1 \<in> {EINTR, EAGAIN, EWOULDBLOCK})"

lemma writes_succeedD:
  assumes "writes_succeed os" "sys_write os fd d w = (n, w1)" "d \<noteq> []"
  shows "0 < n \<or> n < 0 \<and> errno_of os w1 \<in> {EINTR, EAGAIN, EWOULDBLOCK}"
proof -
  from assms(1) have "let (n, w1) = sys_write os fd d w in
      d \<noteq> [] \<longrightarrow> 0 < n \<or> n < 0 \<and> errno_of os w1 \<in> {EINTR, EAGAIN, EWOULDBLOCK}"
    unfolding writes_succeed_def by blast
  with assms(2,3) show ?thesis by simp
qed

lemma reactor_write_all_delivers:
  assumes os: "posix_write os sent" "retries_end os budget" and "i \<le> length data"
  shows "\<exists>w' k. reactor_write_all os fd data i w = Some (Inr (), w') \<and> delivered sent fd data i k w w' \<and>
    (writes_succeed os \<longrightarrow> k = length data)"
  using assms(3)
proof (induction "(length data - i, budget w)" arbitrary: i w rule: wf_induct_rule [OF wf_lex_prod [OF wf_less_than wf_less_than]])
  case less: (1 i w)
  obtain n w1 where call: "sys_write os fd (drop i data) w = (n, w1)" by fastforce
  note step = delivered_write [OF os(1) call less.prems]
  let ?w2 = "snd (sys_poll os [(fd, {POLLOUT})] (-1) w1)"
  have poll: "delivered sent fd data i (i + nat n) w ?w2"
    using step by (simp add: delivered_def posix_pollD [OF os(1)])
  consider "length data \<le> i" | "i < length data" "0 < n"
    | "i < length data" "n < 0" "errno_of os w1 \<in> {EAGAIN, EWOULDBLOCK}"
    | "i < length data" "n < 0" "errno_of os w1 = EINTR"
    | "i < length data" "n \<le> 0" "\<not> (n < 0 \<and> errno_of os w1 \<in> {EINTR, EAGAIN, EWOULDBLOCK})" by fastforce
  then show ?case
  proof cases
    case 1
    with less.prems show ?thesis by (subst reactor_write_all.simps) (auto simp: delivered_def)
  next
    case 2
    with step have "i + nat n \<le> length data" "length data - (i + nat n) < length data - i"
      by (simp_all add: delivered_def)
    with 2 less.hyps [of "i + nat n" w1] show ?thesis
      by (subst reactor_write_all.simps) (auto simp: call dest: delivered_trans [OF step])
  next
    case 3
    with less.hyps [of i ?w2] retries_endD [OF os(2) call] retries_end_pollD [OF os(2), of "[(fd, {POLLOUT})]" "-1" w1]
      less.prems show ?thesis
      using poll by (subst reactor_write_all.simps) (auto simp: call dest: delivered_trans)
  next
    case 4
    with less.hyps [of i w1] retries_endD [OF os(2) call] less.prems show ?thesis
      using step by (subst reactor_write_all.simps) (auto simp: call dest: delivered_trans)
  next
    case 5
    then have "\<not> writes_succeed os" using writes_succeedD [OF _ call] by auto
    with 5 step show ?thesis by (subst reactor_write_all.simps) (auto simp: call)
  qed
qed

lemma reactor_write_all_keeps:
  assumes keeps: "\<And>fd d w. f (snd (sys_write os fd d w)) = f w" "\<And>fds t w. f (snd (sys_poll os fds t w)) = f w"
    and "reactor_write_all os fd data i w = Some y"
  shows "f (snd y) = f w"
proof -
  have "os = os \<longrightarrow> f (snd y) = f w"
  proof (rule reactor_write_all.raw_induct [where P = "\<lambda>os' fd data i w y. os' = os \<longrightarrow> f (snd y) = f w", OF _ assms(3)], intro impI)
    fix g :: "'a os \<Rightarrow> int \<Rightarrow> bytes \<Rightarrow> nat \<Rightarrow> ('a, unit) io" and os' fd data i w y
    assume IH: "\<And>os' fd data i w y. g os' fd data i w = Some y \<Longrightarrow> os' = os \<longrightarrow> f (snd y) = f w"
      and body: "(if i < length data then
        let (n, w1) = sys_write os' fd (drop i data) w in
        if 0 < n then g os' fd data (i + nat n) w1
        else if n < 0 \<and> errno_of os' w1 \<in> {EAGAIN, EWOULDBLOCK}
        then g os' fd data i (snd (sys_poll os' [(fd, {POLLOUT})] (-1) w1))
        else if n < 0 \<and> errno_of os' w1 = EINTR then g os' fd data i w1
        else Some (Inr (), w1)
      else Some (Inr (), w)) = Some y" and os': "os' = os"
    obtain n w1 where call: "sys_write os fd (drop i data) w = (n, w1)" by fastforce
    have "f w1 = f w" using keeps(1) [of fd "drop i data" w] call by simp
    with body IH show "f (snd y) = f w"
      unfolding os' call by (auto simp: keeps(2) split: if_splits)
  qed
  then show ?thesis by simp
qed

lemma blocking_write_keeps:
  assumes keeps: "\<And>fd d w. f (snd (sys_write os fd d w)) = f w"
    and "blocking_write os fd msg data i w = Some y"
  shows "f (snd y) = f w"
proof -
  have "os = os \<longrightarrow> f (snd y) = f w"
  proof (rule blocking_write.raw_induct [where P = "\<lambda>os' fd msg data i w y. os' = os \<longrightarrow> f (snd y) = f w", OF _ assms(2)], intro impI)
    fix g :: "'a os \<Rightarrow> int \<Rightarrow> ('a \<Rightarrow> bytes) \<Rightarrow> bytes \<Rightarrow> nat \<Rightarrow> ('a, unit) io" and os' fd msg data i w y
    assume IH: "\<And>os' fd msg data i w y. g os' fd msg data i w = Some y \<Longrightarrow> os' = os \<longrightarrow> f (snd y) = f w"
      and body: "(if i < length data then
        let (n, w1) = sys_write os' fd (drop i data) w in
        if 0 < n then g os' fd msg data (i + nat n) w1
        else if n < 0 \<and> errno_of os' w1 = EINTR then g os' fd msg data i w1
        else io_throw (msg w1) w1
      else Some (Inr (), w)) = Some y" and os': "os' = os"
    obtain n w1 where call: "sys_write os fd (drop i data) w = (n, w1)" by fastforce
    have "f w1 = f w" using keeps [of fd "drop i data" w] call by simp
    with body IH show "f (snd y) = f w"
      unfolding os' call by (auto split: if_splits)
  qed
  then show ?thesis by simp
qed

lemma read_response_keeps:
  assumes keeps: "\<And>fd n w. f (snd (sys_read os fd n w)) = f w"
    and "read_response os fd p resp w = Some y"
  shows "f (snd y) = f w"
proof -
  have "os = os \<longrightarrow> f (snd y) = f w"
  proof (rule read_response.raw_induct [where P = "\<lambda>os' fd p resp w y. os' = os \<longrightarrow> f (snd y) = f w", OF _ assms(2)], intro impI)
    fix g :: "'a os \<Rightarrow> int \<Rightarrow> ResponseParser \<Rightarrow> Response \<Rightarrow> ('a, Response) io" and os' fd p resp w y
    assume IH: "\<And>os' fd p resp w y. g os' fd p resp w = Some y \<Longrightarrow> os' = os \<longrightarrow> f (snd y) = f w"
      and body: "(let (status, parser, resp) = try_parse_response p resp in
        if status = Complete then Some (Inr resp, w)
        else if status = ParseError then io_throw (''protocol error: '' @ error_message parser) w
        else let (r, w1) = sys_read os' fd 4096 w in
          (case r of
             None \<Rightarrow> io_throw ''connection closed while waiting for response'' w1
           | Some chunk \<Rightarrow>
               if chunk = [] then io_throw ''connection closed while waiting for response'' w1
               else g os' fd (feed parser chunk) resp w1)) = Some y" and os': "os' = os"
    obtain r w1 where call: "sys_read os fd 4096 w = (r, w1)" by fastforce
    obtain st q resp' where parse: "try_parse_response p resp = (st, q, resp')" by (metis surj_pair)
    have "f w1 = f w" using keeps [of fd 4096 w] call by simp
    with body IH show "f (snd y) = f w"
      unfolding os' call parse by (auto split: if_splits option.splits)
  qed
  then show ?thesis by simp
qed

lemma send_request_keeps:
  assumes "\<And>fd d w. f (snd (sys_write os fd d w)) = f w" "\<And>fd n w. f (snd (sys_read os fd n w)) = f w"
    and "send_request os fd req w = Some y"
  shows "f (snd y) = f w"
  using assms(3) unfolding send_request_def
proof (cases rule: io_bind_SomeE)
  case (threw e w1)
  with blocking_write_keeps [of f, OF assms(1) threw(1)] show ?thesis by simp
next
  case (returned x w1)
  with blocking_write_keeps [of f, OF assms(1) returned(1)] read_response_keeps [of f, OF assms(2) returned(2)]
  show ?thesis by simp
qed

lemma reactor_write_all_no_throw:
  assumes "reactor_write_all os fd data i w = Some (r, w')"
  shows "r = Inr ()"
  using reactor_write_all.raw_induct [where P = "\<lambda>_ _ _ _ _ y. fst y = Inr ()", OF _ assms]
  by (fastforce split: if_splits prod.splits)

section \<open>Reading the response\<close>

text \<open>No read on \<open>fd\<close> fails, while the peer still has bytes to deliver.\<close>

definition reads_succeed :: "'w os \<Rightarrow> ('w \<Rightarrow> int \<Rightarrow> bytes) \<Rightarrow> int \<Rightarrow> bool" where
  "reads_succeed os avail fd \<longleftrightarrow> (\<forall>n w. avail w fd \<noteq> [] \<longrightarrow> fst (sys_read os fd n w) \<noteq> None)"

lemma posix_readD:
  assumes "posix_read os avail" "sys_read os fd n w = (x, w')"
  shows "case x of None \<Rightarrow> avail w' fd = avail w fd
    | Some d \<Rightarrow> length d \<le> n \<and> avail w fd = d @ avail w' fd \<and> (0 < n \<longrightarrow> d = [] \<longrightarrow> avail w fd = [])"
  using assms(1) [unfolded posix_read_def, THEN spec [where x = fd], THEN spec [where x = n], THEN spec [where x = w]] assms(2)
  by (cases x) auto

lemma read_chunk:
  assumes "posix_read os avail" "reads_succeed os avail fd" "avail w fd \<noteq> []" "0 < n"
  obtains d w' where "sys_read os fd n w = (Some d, w')" "d \<noteq> []" "avail w fd = d @ avail w' fd"
proof -
  obtain r w' where call: "sys_read os fd n w = (r, w')" by fastforce
  with assms(2,3) have "r \<noteq> None" unfolding reads_succeed_def by (metis fst_conv)
  then obtain d where "r = Some d" by blast
  with assms(3,4) have "d \<noteq> []" "avail w fd = d @ avail w' fd"
    using posix_readD [OF assms(1) call] by auto
  with that call \<open>r = Some d\<close> show ?thesis by blast
qed

lemma settle_new_response: "wf_response m \<Longrightarrow> resp_type (settle_response m new_response) = resp_type m"
  by (simp add: settle_response_def split: ResponseType.splits)

lemma read_response_frame:
  assumes os: "posix_read os avail" "reads_succeed os avail fd" and "wf_response m"
    and "buffer p @ avail w fd = encode_response m @ rest"
  shows "\<exists>w'. read_response os fd p out w = Some (Inr (settle_response m out), w')"
  using assms(4)
proof (induction "length (avail w fd)" arbitrary: p w rule: less_induct)
  case less
  from less.prems have "prefix (buffer p) (encode_response m @ rest)" by (metis prefixI)
  then consider q where "buffer p = encode_response m @ q" | "strict_prefix (buffer p) (encode_response m)"
    by (cases "buffer p = encode_response m") (auto simp: prefix_append strict_prefix_def)
  then show ?case
  proof cases
    case 1
    from response_codec.parse_frame [OF assms(3) this] show ?thesis by (subst read_response.simps) simp
  next
    case 2
    note incomplete = response_codec.parse_partial [OF assms(3) 2]
    from 2 less.prems have "avail w fd \<noteq> []" by (auto simp: strict_prefix_def)
    then obtain d w1 where call: "sys_read os fd 4096 w = (Some d, w1)" and d: "d \<noteq> []" "avail w fd = d @ avail w1 fd"
      by (rule read_chunk [OF os _ zero_less_numeral])
    then have "\<exists>w'. read_response os fd (feed p d) out w1 = Some (Inr (settle_response m out), w')"
      using less.prems by (intro less.hyps) simp_all
    then show ?thesis using d by (subst read_response.simps) (simp add: incomplete call)
  qed
qed

text \<open>If the stream ends inside the response, the loop throws.\<close>

lemma read_response_closed:
  assumes os: "posix_read os avail" and "wf_response m"
    and "strict_prefix (buffer p @ avail w fd) (encode_response m)"
  shows "\<exists>w'. read_response os fd p out w = Some (Inl (Runtime_error ''connection closed while waiting for response''), w')"
  using assms(3)
proof (induction "length (avail w fd)" arbitrary: p w rule: less_induct)
  case less
  from less.prems have "strict_prefix (buffer p) (encode_response m)"
    by (meson append_prefixD prefix_order.le_less_trans prefixI)
  note incomplete = response_codec.parse_partial [OF assms(2) this]
  obtain r w1 where call: "sys_read os fd 4096 w = (r, w1)" by fastforce
  show ?case
  proof (cases "r = None \<or> r = Some []")
    case True
    then show ?thesis by (subst read_response.simps) (auto simp: incomplete call)
  next
    case False
    then obtain d where d: "r = Some d" "d \<noteq> []" by (cases r) simp_all
    then have "avail w fd = d @ avail w1 fd" using posix_readD [OF os call] by simp
    with d less.prems have "\<exists>w'. read_response os fd (feed p d) out w1
        = Some (Inl (Runtime_error ''connection closed while waiting for response''), w')"
      by (intro less.hyps) simp_all
    with d show ?thesis by (subst read_response.simps) (simp add: incomplete call)
  qed
qed

section \<open>Descriptors\<close>

text \<open>
  \<open>opened w\<close> are the descriptors of the process. \<^verbatim>\<open>socket\<close> returns a fresh one or fails, \<^verbatim>\<open>close\<close> gives
  one back, and the other calls of this file keep the set.
\<close>

definition posix_fds :: "'w os \<Rightarrow> ('w \<Rightarrow> int set) \<Rightarrow> bool" where
  "posix_fds os opened \<longleftrightarrow>
     (\<forall>a b c w. let (fd, w') = sys_socket os a b c w in
        if fd < 0 then opened w' = opened w else fd \<notin> opened w \<and> opened w' = insert fd (opened w)) \<and>
     (\<forall>fd w. opened (sys_close os fd w) = opened w - {fd}) \<and>
     (\<forall>fd a w. opened (snd (sys_connect os fd a w)) = opened w) \<and>
     (\<forall>fd p w. opened (snd (sys_bind os fd p w)) = opened w) \<and>
     (\<forall>fd b w. opened (snd (sys_listen os fd b w)) = opened w) \<and>
     (\<forall>fd opt w. opened (snd (sys_setsockopt os fd opt w)) = opened w) \<and>
     (\<forall>h s w. opened (snd (sys_getaddrinfo os h s w)) = opened w) \<and>
     (\<forall>e w. opened (set_errno os e w) = opened w)"

lemma posix_fdsD:
  assumes "posix_fds os opened"
  shows "sys_socket os a b c w = (fd, w') \<Longrightarrow> fd < 0 \<Longrightarrow> opened w' = opened w"
    and "sys_socket os a b c w = (fd, w') \<Longrightarrow> \<not> fd < 0 \<Longrightarrow> fd \<notin> opened w \<and> opened w' = insert fd (opened w)"
    and "opened (sys_close os fd w) = opened w - {fd}"
    and "opened (snd (sys_connect os fd addr w)) = opened w"
    and "opened (snd (sys_bind os fd p w)) = opened w"
    and "opened (snd (sys_listen os fd bl w)) = opened w"
    and "opened (snd (sys_setsockopt os fd opt w)) = opened w"
    and "opened (snd (sys_getaddrinfo os h s w)) = opened w"
    and "opened (set_errno os e w) = opened w"
  using assms unfolding posix_fds_def by (fastforce split: prod.splits)+

lemma connect_any_fds:
  assumes "posix_fds os opened" "connect_any os ps fd e w = ((fd', e'), w')" "fd < 0"
  shows "(if fd' < 0 then opened w' = opened w else fd' \<notin> opened w \<and> opened w' = insert fd' (opened w))"
  using assms(2,3)
proof (induction ps arbitrary: fd e w)
  case Nil
  then show ?case by simp
next
  case (Cons p ps)
  obtain s w1 where sock: "sys_socket os (ai_family p) (ai_socktype p) (ai_protocol p) w = (s, w1)" by fastforce
  obtain rc w2 where conn: "sys_connect os s (ai_addr p) w1 = (rc, w2)" by fastforce
  have w2: "opened w2 = opened w1" using posix_fdsD(4) [OF assms(1), of s "ai_addr p" w1] conn by simp
  note fds = posix_fdsD(1,2) [OF assms(1) sock] posix_fdsD(3) [OF assms(1)]
  show ?case
  proof (cases "s < 0")
    case True
    with Cons.prems sock fds Cons.IH [of s "errno_of os w1" w1] show ?thesis by (simp split: if_splits)
  next
    case False
    with Cons.prems sock conn fds w2 Cons.IH [of "-1" "errno_of os w2" "sys_close os s w2"] show ?thesis
      by (cases "rc = 0") auto
  qed
qed

text \<open>A function that returns a socket owns one new descriptor; one that throws owns none.\<close>

definition acquires :: "('w \<Rightarrow> int set) \<Rightarrow> 'w \<Rightarrow> ((exn + Socket) \<times> 'w) option \<Rightarrow> bool" where
  "acquires opened w res \<longleftrightarrow>
     (case res of
        None \<Rightarrow> False
      | Some (Inl e, w') \<Rightarrow> opened w' = opened w
      | Some (Inr s, w') \<Rightarrow> 0 \<le> sock_fd s \<and> sock_fd s \<notin> opened w \<and> opened w' = insert (sock_fd s) (opened w))"

lemma connect_to_acquires:
  assumes "posix_fds os opened"
  shows "acquires opened w (connect_to os host port w)"
proof -
  obtain rc ps w1 where gai: "sys_getaddrinfo os host (to_string (unat port)) w = ((rc, ps), w1)"
    by (metis surj_pair)
  obtain fd e w2 where conn: "connect_any os ps (-1) (Errno 0) w1 = ((fd, e), w2)" by (metis surj_pair)
  have w1: "opened w1 = opened w" using posix_fdsD(8) [OF assms, of host "to_string (unat port)" w] gai by simp
  from connect_any_fds [OF assms conn] have w2:
    "fd < 0 \<Longrightarrow> opened w2 = opened w" "\<not> fd < 0 \<Longrightarrow> fd \<notin> opened w \<and> opened w2 = insert fd (opened w)"
    by (simp_all add: w1)
  show ?thesis
    using w1 w2 posix_fdsD(9) [OF assms]
    by (cases "rc = 0"; cases "fd < 0")
      (simp_all add: connect_to_def gai conn acquires_def throw_errno_def)
qed

lemma create_listening_socket_acquires:
  assumes "posix_fds os opened"
  shows "acquires opened w (create_listening_socket os port backlog w)"
proof -
  obtain fd w1 where sock: "sys_socket os AF_INET SOCK_STREAM 0 w = (fd, w1)" by (metis surj_pair)
  obtain r1 w2 where opt: "sys_setsockopt os fd (SO_REUSEADDR 1) w1 = (r1, w2)" by (metis surj_pair)
  obtain r2 w3 where bound: "sys_bind os fd port w2 = (r2, w3)" by (metis surj_pair)
  obtain r3 w4 where lst: "sys_listen os fd backlog w3 = (r3, w4)" by (metis surj_pair)
  note fds = posix_fdsD(1,2) [OF assms sock]
  have same: "opened w2 = opened w1" "opened w3 = opened w1" "opened w4 = opened w1"
    using posix_fdsD(5-7) [OF assms] opt bound lst by (metis snd_conv)+
  consider "fd < 0" | "\<not> fd < 0" "r1 < 0" | "\<not> fd < 0" "\<not> r1 < 0" "r2 < 0"
    | "\<not> fd < 0" "\<not> r1 < 0" "\<not> r2 < 0" "r3 < 0" | "\<not> fd < 0" "\<not> r1 < 0" "\<not> r2 < 0" "\<not> r3 < 0" by blast
  then show ?thesis
    by cases (use fds in \<open>auto simp: create_listening_socket_def sock opt bound lst throw_errno_def acquires_def
      destroy_socket_def close_if_valid_def posix_fdsD(3) [OF assms] same\<close>)
qed

section \<open>A concrete kernel\<close>

text \<open>
  An instance of \<open>os\<close> on which the contracts hold, for concrete runs: writes take at most three bytes,
  reads deliver at most two, every other call succeeds, and a peer is a queue of bytes.
\<close>

record small_world =
  dw_sent :: "int \<Rightarrow> bytes"
  dw_avail :: "int \<Rightarrow> bytes"
  dw_open :: "int list"

definition small_os :: "small_world os" where
  "small_os =
    \<lparr>errno_of = (\<lambda>w. EINTR), set_errno = (\<lambda>e w. w), strerror = (\<lambda>e. ''error''), gai_strerror = (\<lambda>e. ''error''),
     sys_write = (\<lambda>fd d w. (int (min 3 (length d)), w\<lparr>dw_sent := (dw_sent w)(fd := dw_sent w fd @ take 3 d)\<rparr>)),
     sys_read = (\<lambda>fd n w. (Some (take (min 2 n) (dw_avail w fd)),
        w\<lparr>dw_avail := (dw_avail w)(fd := drop (min 2 n) (dw_avail w fd))\<rparr>)),
     sys_poll = (\<lambda>fds t w. ((int (length fds), map snd fds), w)),
     sys_pipe = (\<lambda>w. ((0, 3, 4), w)),
     sys_close = (\<lambda>fd w. w\<lparr>dw_open := filter (\<lambda>x. x \<noteq> fd) (dw_open w)\<rparr>),
     sys_socket = (\<lambda>a b c w. (let fd = fold max (dw_open w) 2 + 1 in (fd, w\<lparr>dw_open := fd # dw_open w\<rparr>))),
     sys_connect = (\<lambda>fd a w. (0, w)), sys_bind = (\<lambda>fd p w. (0, w)), sys_listen = (\<lambda>fd b w. (0, w)),
     sys_accept = (\<lambda>fd w. (-1, w)), sys_fcntl = (\<lambda>fd c w. (0, w)), sys_setsockopt = (\<lambda>fd opt w. (0, w)),
     sys_getaddrinfo = (\<lambda>h s w.
       ((0, [\<lparr>ai_family = AF_INET, ai_socktype = SOCK_STREAM, ai_protocol = 0, ai_addr = h @ s\<rparr>]), w))\<rparr>"

definition small_world0 :: "(int \<Rightarrow> bytes) \<Rightarrow> small_world" where
  "small_world0 avail = \<lparr>dw_sent = (\<lambda>_. []), dw_avail = avail, dw_open = [0, 1, 2]\<rparr>"

lemma small_os_simps [simp]:
  "errno_of small_os w = EINTR"
  "sys_write small_os fd d w = (int (min 3 (length d)), w\<lparr>dw_sent := (dw_sent w)(fd := dw_sent w fd @ take 3 d)\<rparr>)"
  "sys_read small_os fd n w = (Some (take (min 2 n) (dw_avail w fd)),
     w\<lparr>dw_avail := (dw_avail w)(fd := drop (min 2 n) (dw_avail w fd))\<rparr>)"
  "sys_poll small_os fds t w = ((int (length fds), map snd fds), w)"
  by (simp_all add: small_os_def)

lemma fold_max_ge: "a \<le> fold max xs a" "x \<in> set xs \<Longrightarrow> x \<le> fold max xs (a :: int)"
proof -
  show acc: "b \<le> fold max ys b" for b and ys :: "int list"
  proof (induction ys arbitrary: b)
    case (Cons y ys)
    from Cons [of "max y b"] show ?case by simp
  qed simp
  show "x \<in> set xs \<Longrightarrow> x \<le> fold max xs a"
  proof (induction xs arbitrary: a)
    case (Cons y ys)
    with acc [of "max y a" ys] show ?case by auto
  qed simp
qed

lemma small_os_contracts:
  "posix_write small_os dw_sent" "retries_end small_os (\<lambda>_. 0)" "posix_read small_os dw_avail"
  "reads_succeed small_os dw_avail fd" "posix_fds small_os (\<lambda>w. set (dw_open w))"
proof -
  show "posix_write small_os dw_sent" by (auto simp: posix_write_def min_def)
  show "retries_end small_os (\<lambda>_. 0)" by (simp add: retries_end_def)
  show "posix_read small_os dw_avail" by (auto simp: posix_read_def min_def)
  show "reads_succeed small_os dw_avail fd" by (simp add: reads_succeed_def)
  have fresh: "fold max xs 2 + 1 \<notin> set xs" "\<not> fold max xs 2 + 1 < (0 :: int)" for xs :: "int list"
    using fold_max_ge(1) [of 2 xs] fold_max_ge(2) [of "fold max xs 2 + 1" xs 2] by auto
  show "posix_fds small_os (\<lambda>w. set (dw_open w))"
    unfolding posix_fds_def small_os_def by (auto simp: Let_def fresh)
qed

section \<open>Properties\<close>

text \<open>
  The blocking write loop of the router and of \<^verbatim>\<open>send_request\<close> always returns, and either all of
  the data and nothing else was handed to the kernel on that descriptor, or the loop throws after a
  proper prefix of it. Short writes and interruptions lose and repeat nothing.
\<close>

theorem blocking_write_all_or_throw:
  assumes "posix_write os sent" "retries_end os budget"
  shows "\<exists>r w' k. blocking_write os fd msg data 0 w = Some (r, w') \<and>
    sent w' = (sent w)(fd := sent w fd @ take k data) \<and>
    (case r of Inr _ \<Rightarrow> k = length data | Inl e \<Rightarrow> k < length data \<and> e = Runtime_error (msg w'))"
  using blocking_write_delivers [OF assms, of 0 data fd msg w] by (fastforce simp: delivered_def)

theorem blocking_write_all_or_throw_witness:
  "\<exists>r w' k. blocking_write small_os 5 (\<lambda>_. []) ''GET a'' 0 (small_world0 (\<lambda>_. [])) = Some (r, w') \<and>
    dw_sent w' = (\<lambda>_. [])(5 := take k ''GET a'') \<and> (case r of Inr _ \<Rightarrow> k = length ''GET a'' | Inl e \<Rightarrow> k < length ''GET a'' \<and> e = Runtime_error [])"
  using blocking_write_all_or_throw [OF small_os_contracts(1,2), of 5 "\<lambda>_. []" "''GET a''" "small_world0 (\<lambda>_. [])"]
  by (simp add: small_world0_def)

text \<open>
  The reactor's \<^verbatim>\<open>write_all\<close> always returns and never throws; what it handed to the kernel is a
  prefix of the response, on this client's descriptor only.
\<close>

theorem reactor_write_all_sends_prefix:
  assumes "posix_write os sent" "retries_end os budget"
  shows "\<exists>w' k. reactor_write_all os fd data 0 w = Some (Inr (), w') \<and>
    k \<le> length data \<and> sent w' = (sent w)(fd := sent w fd @ take k data)"
  using reactor_write_all_delivers [OF assms, of 0 data fd w] by (fastforce simp: delivered_def)

theorem reactor_write_all_sends_prefix_witness:
  "\<exists>w' k. reactor_write_all small_os 5 ''PONG'' 0 (small_world0 (\<lambda>_. [])) = Some (Inr (), w') \<and>
    k \<le> length ''PONG'' \<and> dw_sent w' = (\<lambda>_. [])(5 := take k ''PONG'')"
  using reactor_write_all_sends_prefix [OF small_os_contracts(1,2), of 5 "''PONG''" "small_world0 (\<lambda>_. [])"]
  by (simp add: small_world0_def)

text \<open>
  \<^verbatim>\<open>send_request\<close> always returns when the peer answers a completely sent request with the encoding
  of a response: it returns that response, however the answer is segmented, or it throws because the
  request could not be sent.
\<close>

theorem send_request_returns_response:
  assumes "posix_write os sent" "retries_end os budget" "posix_read os avail" "reads_succeed os avail fd"
    and "wf_response m"
    and "\<And>w1. blocking_write os fd (\<lambda>_. ''failed to write request'') (encode_request req) 0 w = Some (Inr (), w1)
      \<Longrightarrow> avail w1 fd = encode_response m @ rest"
  shows "\<exists>r w'. send_request os fd req w = Some (r, w') \<and>
    (r = Inr (settle_response m new_response) \<or>
     r = Inl (Runtime_error ''failed to write request'') \<and>
       (\<exists>k < length (encode_request req). sent w' fd = sent w fd @ take k (encode_request req)))"
proof -
  let ?msg = "\<lambda>_. ''failed to write request''"
  obtain r w1 k where wr: "blocking_write os fd ?msg (encode_request req) 0 w = Some (r, w1)"
    and k: "delivered sent fd (encode_request req) 0 k w w1"
      "case r of Inr _ \<Rightarrow> k = length (encode_request req)
        | Inl e \<Rightarrow> k < length (encode_request req) \<and> e = Runtime_error (?msg w1)"
    using blocking_write_delivers [OF assms(1,2), of 0 "encode_request req" fd ?msg w] by auto
  show ?thesis
  proof (cases r)
    case (Inl e)
    with k wr show ?thesis by (auto simp: send_request_def delivered_def intro!: exI [of _ k])
  next
    case (Inr u)
    with wr have "avail w1 fd = encode_response m @ rest" by (intro assms(6)) simp
    then obtain w2 where "read_response os fd new_parser new_response w1 = Some (Inr (settle_response m new_response), w2)"
      using read_response_frame [OF assms(3-5), of new_parser w1 rest] by auto
    with wr Inr show ?thesis by (simp add: send_request_def)
  qed
qed

theorem send_request_returns_response_witness:
  "\<exists>r w'. send_request small_os 5 \<lparr>command = Ping, key = [], req_value = []\<rparr> (small_world0 (\<lambda>_. encode_pong_response)) = Some (r, w') \<and>
    (r = Inr \<lparr>resp_type = Pong, resp_value = [], resp_message = []\<rparr> \<or>
     r = Inl (Runtime_error ''failed to write request'') \<and> (\<exists>k < length (''PING'' @ [LF]). dw_sent w' 5 = take k (''PING'' @ [LF])))"
proof -
  let ?w = "small_world0 (\<lambda>_. encode_pong_response)" and ?m = "\<lparr>resp_type = Pong, resp_value = [], resp_message = []\<rparr>"
    and ?req = "\<lparr>command = Ping, key = [], req_value = []\<rparr>"
  have avail: "dw_avail w1 5 = encode_response ?m @ []"
    if "blocking_write small_os 5 (\<lambda>_. ''failed to write request'') (encode_request ?req) 0 ?w = Some (Inr (), w1)" for w1
    using that
    by (simp add: blocking_write.simps encode_request_def encode_response_def small_world0_def)
      (auto simp: encode_pong_response_def)
  have wf: "wf_response ?m" by (simp add: wf_response_def)
  have eqs: "settle_response ?m new_response = ?m" "encode_request ?req = ''PING'' @ [LF]" "dw_sent ?w 5 = []"
    by (simp_all add: settle_response_def new_response_def encode_request_def small_world0_def)
  from send_request_returns_response [where req = ?req and w = ?w and rest = "[]", OF small_os_contracts(1-4) wf avail]
  show ?thesis unfolding eqs by simp
qed

text \<open>
  If the stream of the peer ends inside its response (the backend crashed), \<^verbatim>\<open>send_request\<close> throws;
  it neither returns a truncated response nor waits for ever.
\<close>

theorem send_request_throws_on_close:
  assumes "posix_read os avail" "wf_response m"
    and "blocking_write os fd (\<lambda>_. ''failed to write request'') (encode_request req) 0 w = Some (Inr (), w1)"
    and "strict_prefix (avail w1 fd) (encode_response m)"
  shows "\<exists>w'. send_request os fd req w = Some (Inl (Runtime_error ''connection closed while waiting for response''), w')"
  using read_response_closed [OF assms(1,2), of new_parser w1 fd new_response] assms(3,4)
  by (auto simp: send_request_def)

theorem send_request_throws_on_close_witness:
  "\<exists>w'. send_request small_os 5 \<lparr>command = Ping, key = [], req_value = []\<rparr> (small_world0 (\<lambda>_. ''PON''))
    = Some (Inl (Runtime_error ''connection closed while waiting for response''), w')"
proof (rule send_request_throws_on_close [where avail = dw_avail and m = "\<lparr>resp_type = Pong, resp_value = [], resp_message = []\<rparr>"])
  show "posix_read small_os dw_avail" by (rule small_os_contracts)
  show "wf_response \<lparr>resp_type = Pong, resp_value = [], resp_message = []\<rparr>" by (simp add: wf_response_def)
  show "blocking_write small_os 5 (\<lambda>_. ''failed to write request'') (encode_request \<lparr>command = Ping, key = [], req_value = []\<rparr>) 0
      (small_world0 (\<lambda>_. ''PON'')) = Some (Inr (), (small_world0 (\<lambda>_. ''PON''))\<lparr>dw_sent := (\<lambda>_. [])(5 := ''PING'' @ [LF])\<rparr>)"
    by (simp add: blocking_write.simps encode_request_def small_world0_def)
  show "strict_prefix (dw_avail ((small_world0 (\<lambda>_. ''PON''))\<lparr>dw_sent := (\<lambda>_. [])(5 := ''PING'' @ [LF])\<rparr>) 5)
      (encode_response \<lparr>resp_type = Pong, resp_value = [], resp_message = []\<rparr>)"
    by (simp add: small_world0_def encode_response_def encode_pong_response_def strict_prefix_def)
qed

text \<open>
  C22: \<^verbatim>\<open>connect_to\<close> and \<^verbatim>\<open>create_listening_socket\<close> leak no descriptor: on success the returned socket owns
  the one new descriptor of the process, and when they throw, on whatever call, the descriptors are those
  from before.
\<close>

theorem socket_functions_leak_nothing:
  assumes "posix_fds os opened"
  shows "acquires opened w (connect_to os host port w) \<and> acquires opened w (create_listening_socket os port backlog w)"
  using connect_to_acquires [OF assms] create_listening_socket_acquires [OF assms] by blast

theorem socket_functions_leak_nothing_witness:
  "acquires (\<lambda>w. set (dw_open w)) (small_world0 (\<lambda>_. [])) (connect_to small_os ''localhost'' 6380 (small_world0 (\<lambda>_. [])))
   \<and> acquires (\<lambda>w. set (dw_open w)) (small_world0 (\<lambda>_. [])) (create_listening_socket small_os 6380 128 (small_world0 (\<lambda>_. [])))"
  by (rule socket_functions_leak_nothing [OF small_os_contracts(5)])

end
