(* ===== verification/Failure_Detector.thy ===== *)
theory Failure_Detector
  imports Net_Io
begin

text \<open>
  \<^verbatim>\<open>src/router/node_address.hpp\<close> and \<^verbatim>\<open>src/router/failure_detector.cpp\<close>: the table of live nodes the
  router consults, kept by a background heartbeat and by the request threads. The locale
  \<open>liveness_table\<close> states what the router relies on; it is interpreted on the model's operations. Each of
  the three operations runs under the detector's mutex and is one step of the model.

  Shown: how marks accumulate, that nodes start alive and unknown ones never are, that a ping
  answers \<^verbatim>\<open>true\<close> exactly for a node that replies with \<^verbatim>\<open>PONG\<close>, never throws and leaks no
  descriptor, and that a heartbeat pass leaves every node marked by its own last ping.
\<close>

section \<open>Nodes\<close>

record NodeAddress =
  host :: bytes
  port :: "16 word"

definition node_id :: "NodeAddress \<Rightarrow> bytes" where
  "node_id a = host a @ '':'' @ to_string (unat (port a))"

section \<open>The interface\<close>

locale liveness_table =
  fixes alive_in :: "'d \<Rightarrow> bytes \<Rightarrow> bool"
    and down :: "'d \<Rightarrow> bytes \<Rightarrow> 'd"
    and up :: "'d \<Rightarrow> bytes \<Rightarrow> 'd"
  assumes alive_down: "alive_in (down d n) m \<longleftrightarrow> m \<noteq> n \<and> alive_in d m"
    and alive_up: "alive_in (up d n) m \<longleftrightarrow> m = n \<or> alive_in d m"
begin

text \<open>Request threads only mark nodes down, heartbeats mark each node they pinged.\<close>

lemma alive_after_downs: "alive_in (foldl down d ns) m \<longleftrightarrow> alive_in d m \<and> m \<notin> set ns"
  by (induction ns arbitrary: d) (auto simp: alive_down)

definition observe :: "'d \<Rightarrow> bytes \<times> bool \<Rightarrow> 'd" where
  "observe d ob = (if snd ob then up d (fst ob) else down d (fst ob))"

lemma alive_observe: "alive_in (observe d ob) m \<longleftrightarrow> (if fst ob = m then snd ob else alive_in d m)"
  by (auto simp: observe_def alive_down alive_up)

lemma alive_after_observations:
  "alive_in (foldl observe d obs) m \<longleftrightarrow> (case map_of (rev obs) m of None \<Rightarrow> alive_in d m | Some b \<Rightarrow> b)"
proof (induction obs rule: rev_induct)
  case (snoc ob obs)
  then show ?case by (cases ob) (simp add: alive_observe)
qed simp

end

section \<open>The detector\<close>

record FailureDetector =
  fd_nodes :: "NodeAddress list"
  interval :: nat
  timeout :: nat
  alive :: "bytes \<rightharpoonup> bool"
  running :: bool

definition new_detector :: "NodeAddress list \<Rightarrow> nat \<Rightarrow> nat \<Rightarrow> FailureDetector" where
  "new_detector nodes intv tmo =
     \<lparr>fd_nodes = nodes, interval = intv, timeout = tmo,
      alive = foldl (\<lambda>m n. m(node_id n \<mapsto> True)) Map.empty nodes, running = False\<rparr>"

text \<open>\<^verbatim>\<open>start\<close> also launches the thread that runs \<open>heartbeat_loop\<close>, and \<^verbatim>\<open>stop\<close> joins it.\<close>

definition start :: "FailureDetector \<Rightarrow> FailureDetector" where
  "start d = d\<lparr>running := True\<rparr>"

definition stop :: "FailureDetector \<Rightarrow> FailureDetector" where
  "stop d = d\<lparr>running := False\<rparr>"

definition is_alive :: "FailureDetector \<Rightarrow> bytes \<Rightarrow> bool" where
  "is_alive d n = (case alive d n of None \<Rightarrow> False | Some b \<Rightarrow> b)"

definition mark_down :: "FailureDetector \<Rightarrow> bytes \<Rightarrow> FailureDetector" where
  "mark_down d n = d\<lparr>alive := (alive d)(n \<mapsto> False)\<rparr>"

definition mark_up :: "FailureDetector \<Rightarrow> bytes \<Rightarrow> FailureDetector" where
  "mark_up d n = d\<lparr>alive := (alive d)(n \<mapsto> True)\<rparr>"

text \<open>The socket is destroyed on every way out of the block; exceptions become \<^verbatim>\<open>false\<close>.\<close>

definition ping_once :: "'w os \<Rightarrow> FailureDetector \<Rightarrow> NodeAddress \<Rightarrow> ('w, bool) io" where
  "ping_once os d addr =
     io_catch
       (io_bind (connect_to os (host addr) (port addr)) (\<lambda>sock.
          io_finally
            (io_bind (set_recv_timeout os (sock_fd sock) (timeout d)) (\<lambda>_.
               io_bind (send_request os (sock_fd sock) \<lparr>command = Ping, key = [], req_value = []\<rparr>) (\<lambda>resp.
                 io_return (resp_type resp = Pong))))
            (destroy_socket os sock)))
       (\<lambda>_. io_return False)"

text \<open>One pass of the heartbeat over a list of nodes; \<^verbatim>\<open>running_\<close> is read before each.\<close>

fun heartbeat_pass :: "'w os \<Rightarrow> NodeAddress list \<Rightarrow> FailureDetector \<Rightarrow> ('w, FailureDetector) io" where
  "heartbeat_pass os [] d = io_return d"
| "heartbeat_pass os (addr # addrs) d =
     (if \<not> running d then io_return d
      else io_bind (ping_once os d addr) (\<lambda>up.
        heartbeat_pass os addrs (if up then mark_up d (node_id addr) else mark_down d (node_id addr))))"

text \<open>The loop; \<open>sleep\<close> is \<^verbatim>\<open>this_thread::sleep_for(interval_)\<close>.\<close>

partial_function (option) heartbeat_loop :: "'w os \<Rightarrow> (nat \<Rightarrow> 'w \<Rightarrow> 'w) \<Rightarrow> FailureDetector \<Rightarrow> ('w, FailureDetector) io" where
  "heartbeat_loop os sleep d w =
     (if running d then
        io_bind (heartbeat_pass os (fd_nodes d) d) (\<lambda>d w. heartbeat_loop os sleep d (sleep (interval d) w)) w
      else Some (Inr d, w))"

interpretation table: liveness_table is_alive mark_down mark_up
  by unfold_locales (auto simp: is_alive_def mark_down_def mark_up_def)

lemma is_alive_new: "is_alive (new_detector nodes intv tmo) n \<longleftrightarrow> n \<in> node_id ` set nodes"
proof -
  have "foldl (\<lambda>m n. m(node_id n \<mapsto> True)) m nodes n = (if n \<in> node_id ` set nodes then Some True else m n)" for m
    by (induction nodes arbitrary: m) auto
  then show ?thesis by (simp add: is_alive_def new_detector_def)
qed

lemma marks_keep [simp]:
  "running (mark_down d n) = running d" "running (mark_up d n) = running d"
  "timeout (mark_down d n) = timeout d" "timeout (mark_up d n) = timeout d"
  "fd_nodes (mark_down d n) = fd_nodes d" "fd_nodes (mark_up d n) = fd_nodes d"
  by (simp_all add: mark_down_def mark_up_def)

section \<open>Pings\<close>

lemma ping_once_no_throw: "ping_once os d addr w = Some (r, w') \<Longrightarrow> \<exists>b. r = Inr b"
  unfolding ping_once_def by (erule io_catch_SomeE) auto

text \<open>The results of pinging the nodes one after the other.\<close>

fun pings :: "'w os \<Rightarrow> FailureDetector \<Rightarrow> NodeAddress list \<Rightarrow> ('w, bool list) io" where
  "pings os d [] = io_return []"
| "pings os d (addr # addrs) = io_bind (ping_once os d addr) (\<lambda>b. io_bind (pings os d addrs) (\<lambda>bs. io_return (b # bs)))"

lemma ping_once_detector: "timeout d = timeout d' \<Longrightarrow> ping_once os d = ping_once os d'"
  by (simp add: ping_once_def fun_eq_iff)

lemma pings_detector: "timeout d = timeout d' \<Longrightarrow> pings os d addrs = pings os d' addrs"
  by (induction addrs) (simp_all add: ping_once_detector [of d d'])

lemma heartbeat_pass_observes:
  assumes "running d" "pings os d addrs w = Some (Inr bs, w')"
  shows "heartbeat_pass os addrs d w = Some (Inr (foldl table.observe d (zip (map node_id addrs) bs)), w') \<and> length bs = length addrs"
  using assms
proof (induction addrs arbitrary: d w bs)
  case Nil
  then show ?case by simp
next
  case (Cons addr addrs)
  from Cons.prems(2) obtain b w1 bs' where
    ping: "ping_once os d addr w = Some (Inr b, w1)" and rest: "pings os d addrs w1 = Some (Inr bs', w')" and bs: "bs = b # bs'"
    by (auto elim!: io_bind_SomeE)
  let ?d = "if b then mark_up d (node_id addr) else mark_down d (node_id addr)"
  have "running ?d" "timeout ?d = timeout d" using Cons.prems(1) by simp_all
  with rest Cons.IH [of ?d w1 bs'] pings_detector [of ?d d os addrs]
  have "heartbeat_pass os addrs ?d w1 = Some (Inr (foldl table.observe ?d (zip (map node_id addrs) bs')), w')"
    "length bs' = length addrs" by simp_all
  moreover have "table.observe d (node_id addr, b) = ?d" by (simp add: table.observe_def)
  ultimately show ?case using ping bs Cons.prems(1) by simp
qed

text \<open>Transfers do not open or close descriptors.\<close>

definition transfers_keep_fds :: "'w os \<Rightarrow> ('w \<Rightarrow> int set) \<Rightarrow> bool" where
  "transfers_keep_fds os opened \<longleftrightarrow>
     (\<forall>fd d w. opened (snd (sys_write os fd d w)) = opened w) \<and> (\<forall>fd n w. opened (snd (sys_read os fd n w)) = opened w)"

lemma transfers_keep_fdsD:
  assumes "transfers_keep_fds os opened"
  shows "opened (snd (sys_write os fd d w)) = opened w" "opened (snd (sys_read os fd n w)) = opened w"
  using assms by (simp_all add: transfers_keep_fds_def)

lemma set_recv_timeout_keeps:
  assumes "posix_fds os opened" "set_recv_timeout os fd t w = Some y"
  shows "opened (snd y) = opened w"
  using assms(2) posix_fdsD(7) [OF assms(1)]
  by (simp add: set_recv_timeout_def throw_errno_def Let_def split: if_splits) auto

lemma ping_once_fds:
  assumes os: "posix_fds os opened" "transfers_keep_fds os opened" and ping: "ping_once os d addr w = Some y"
  shows "opened (snd y) = opened w"
proof -
  let ?talk = "\<lambda>sock. io_bind (set_recv_timeout os (sock_fd sock) (timeout d)) (\<lambda>_.
    io_bind (send_request os (sock_fd sock) \<lparr>command = Ping, key = [], req_value = []\<rparr>) (\<lambda>resp. io_return (resp_type resp = Pong)))"
  have talk: "opened (snd y) = opened w" if "?talk sock w = Some y" for sock w y
    using that
  proof (cases rule: io_bind_SomeE)
    case (threw e w1)
    with set_recv_timeout_keeps [OF os(1) threw(1)] show ?thesis by simp
  next
    case (returned x w1)
    note w1 = set_recv_timeout_keeps [OF os(1) returned(1)]
    from returned(2) show ?thesis
    proof (cases rule: io_bind_SomeE)
      case (threw e w2)
      with send_request_keeps [of opened, OF transfers_keep_fdsD [OF os(2)] threw(1)] w1 show ?thesis by simp
    next
      case (returned resp w2)
      with send_request_keeps [of opened, OF transfers_keep_fdsD [OF os(2)] returned(1)] w1 show ?thesis by auto
    qed
  qed
  have block: "opened w' = opened w"
    if "io_bind (connect_to os (host addr) (port addr)) (\<lambda>sock. io_finally (?talk sock) (destroy_socket os sock)) w = Some (r, w')" for r w'
    using that
  proof (cases rule: io_bind_SomeE)
    case (threw e w1)
    with connect_to_acquires [OF os(1), of w "host addr" "port addr"] show ?thesis by (simp add: acquires_def)
  next
    case (returned sock w1)
    with connect_to_acquires [OF os(1), of w "host addr" "port addr"]
    have sock: "0 \<le> sock_fd sock" "sock_fd sock \<notin> opened w" "opened w1 = insert (sock_fd sock) (opened w)"
      by (simp_all add: acquires_def)
    from returned(2) obtain x w2 where "?talk sock w1 = Some (x, w2)" "w' = destroy_socket os sock w2"
      by (auto elim: io_finally_SomeE)
    with talk [of sock w1 "(x, w2)"] sock show ?thesis
      by (simp add: destroy_socket_def close_if_valid_def posix_fdsD(3) [OF os(1)])
  qed
  from ping show ?thesis unfolding ping_once_def
    by (cases rule: io_catch_SomeE) (auto dest: block)
qed

section \<open>Properties\<close>

text \<open>
  C21: A heartbeat pass that completes leaves every configured node marked alive exactly if its own ping
  in this pass was answered with \<^verbatim>\<open>PONG\<close>, whatever it was marked before, and touches no other entry.
\<close>

theorem heartbeat_marks_by_own_ping:
  assumes "running d" "distinct (map node_id (fd_nodes d))" "pings os d (fd_nodes d) w = Some (Inr bs, w')"
  shows "\<exists>d'. heartbeat_pass os (fd_nodes d) d w = Some (Inr d', w') \<and>
    (\<forall>i < length (fd_nodes d). is_alive d' (node_id (fd_nodes d ! i)) = bs ! i) \<and>
    (\<forall>n. n \<notin> node_id ` set (fd_nodes d) \<longrightarrow> is_alive d' n = is_alive d n)"
proof -
  let ?obs = "zip (map node_id (fd_nodes d)) bs"
  from heartbeat_pass_observes [OF assms(1,3)] have
    pass: "heartbeat_pass os (fd_nodes d) d w = Some (Inr (foldl table.observe d ?obs), w')" and len: "length bs = length (fd_nodes d)"
    by simp_all
  have keys: "map fst ?obs = map node_id (fd_nodes d)" using len by simp
  have look: "map_of (rev ?obs) = map_of ?obs"
    using assms(2) keys by (subst map_of_inject_set) (simp_all only: rev_map [symmetric] distinct_rev set_rev)
  have "map_of ?obs (node_id (fd_nodes d ! i)) = Some (bs ! i)" if "i < length (fd_nodes d)" for i
    using that len assms(2) keys by (intro map_of_is_SomeI) (auto simp: set_zip intro!: exI [of _ i])
  moreover have "map_of ?obs n = None" if "n \<notin> node_id ` set (fd_nodes d)" for n
    using that keys by (metis image_set map_of_eq_None_iff)
  ultimately show ?thesis
    using pass by (intro exI [of _ "foldl table.observe d ?obs"]) (simp add: table.alive_after_observations look)
qed

text \<open>A kernel for the instances: only hosts named \<^verbatim>\<open>up\<close> accept connections, transfers are never short.\<close>

definition half_os :: "small_world os" where
  "half_os = small_os\<lparr>
     sys_connect := \<lambda>fd a w. (if prefix ''up'' a then 0 else - 1, w),
     sys_write := \<lambda>fd d w. (int (length d), w\<lparr>dw_sent := (dw_sent w)(fd := dw_sent w fd @ d)\<rparr>),
     sys_read := \<lambda>fd n w. (Some (take n (dw_avail w fd)), w\<lparr>dw_avail := (dw_avail w)(fd := drop n (dw_avail w fd))\<rparr>)\<rparr>"

definition demo_detector :: FailureDetector where
  "demo_detector = start (new_detector [\<lparr>host = ''up'', port = 1\<rparr>, \<lparr>host = ''gone'', port = 2\<rparr>] 200 400)"

lemma half_os_transfers:
  "sys_write half_os fd d w = (int (length d), w\<lparr>dw_sent := (dw_sent w)(fd := dw_sent w fd @ d)\<rparr>)"
  "sys_read half_os fd n w = (Some (take n (dw_avail w fd)), w\<lparr>dw_avail := (dw_avail w)(fd := drop n (dw_avail w fd))\<rparr>)"
  by (simp_all add: half_os_def)

lemma half_os_ping:
  assumes "dw_avail w fd = encode_pong_response"
  shows "send_request half_os fd \<lparr>command = Ping, key = [], req_value = []\<rparr> w
    = Some (Inr \<lparr>resp_type = Pong, resp_value = [], resp_message = []\<rparr>,
        w\<lparr>dw_sent := (dw_sent w)(fd := dw_sent w fd @ ''PING'' @ [LF]), dw_avail := (dw_avail w)(fd := [])\<rparr>)"
proof -
  let ?w1 = "w\<lparr>dw_sent := (dw_sent w)(fd := dw_sent w fd @ ''PING'' @ [LF])\<rparr>"
  have wr: "blocking_write half_os fd msg (''PING'' @ [LF]) 0 w = Some (Inr (), ?w1)" for msg
    by (subst blocking_write.simps, simp add: half_os_transfers, subst blocking_write.simps, simp)
  have "try_parse_response new_parser new_response = (Incomplete, new_parser, new_response)"
    by (rule response_codec.parse_empty) simp
  moreover have "try_parse_response (feed new_parser encode_pong_response) new_response
      = (Complete, new_parser, \<lparr>resp_type = Pong, resp_value = [], resp_message = []\<rparr>)"
    by (simp add: codec_simps encode_pong_response_def new_response_def feed_def)
  ultimately have "read_response half_os fd new_parser new_response ?w1
      = Some (Inr \<lparr>resp_type = Pong, resp_value = [], resp_message = []\<rparr>, ?w1\<lparr>dw_avail := (dw_avail w)(fd := [])\<rparr>)"
    using assms
    by (subst read_response.simps, simp add: half_os_transfers encode_pong_response_def, subst read_response.simps, simp)
  with wr show ?thesis by (simp add: send_request_def encode_request_def)
qed

lemma demo_pings:
  "\<exists>w'. pings half_os demo_detector (fd_nodes demo_detector) (small_world0 (\<lambda>_. encode_pong_response)) = Some (Inr [True, False], w')"
proof -
  let ?w0 = "small_world0 (\<lambda>_. encode_pong_response)"
  have up: "\<exists>w'. ping_once half_os demo_detector \<lparr>host = ''up'', port = 1\<rparr> ?w0 = Some (Inr True, w')"
  proof -
    have "connect_to half_os ''up'' 1 ?w0 = Some (Inr \<lparr>sock_fd = 3\<rparr>, ?w0\<lparr>dw_open := [3, 0, 1, 2]\<rparr>)"
      by (simp add: connect_to_def half_os_def small_os_def small_world0_def)
    moreover have "set_recv_timeout half_os fd t w = Some (Inr (), w)" for fd t w
      by (simp add: set_recv_timeout_def half_os_def small_os_def Let_def)
    moreover have "dw_avail (?w0\<lparr>dw_open := [3, 0, 1, 2]\<rparr>) 3 = encode_pong_response" by (simp add: small_world0_def)
    note half_os_ping [OF this]
    ultimately show ?thesis by (simp add: ping_once_def io_finally_def)
  qed
  have "\<exists>w'. ping_once half_os demo_detector \<lparr>host = ''gone'', port = 2\<rparr> w = Some (Inr False, w')" for w
  proof -
    have "\<not> fold max (dw_open w) 2 + 1 < 0" using fold_max_ge(1) [of 2 "dw_open w"] by simp
    then have "\<exists>e w'. connect_to half_os ''gone'' 2 w = Some (Inl e, w')"
      by (simp add: connect_to_def half_os_def small_os_def throw_errno_def Let_def)
    then obtain e w' where "connect_to half_os ''gone'' 2 w = Some (Inl e, w')" by blast
    then show ?thesis by (simp add: ping_once_def)
  qed
  then obtain w1 w2 where "ping_once half_os demo_detector \<lparr>host = ''up'', port = 1\<rparr> ?w0 = Some (Inr True, w1)"
    "ping_once half_os demo_detector \<lparr>host = ''gone'', port = 2\<rparr> w1 = Some (Inr False, w2)"
    using up by meson
  moreover have "fd_nodes demo_detector = [\<lparr>host = ''up'', port = 1\<rparr>, \<lparr>host = ''gone'', port = 2\<rparr>]"
    by (simp add: demo_detector_def start_def new_detector_def)
  ultimately show ?thesis by (simp add: io_bind_def)
qed

theorem heartbeat_marks_by_own_ping_witness:
  "\<exists>d' w'. heartbeat_pass half_os (fd_nodes demo_detector) demo_detector (small_world0 (\<lambda>_. encode_pong_response)) = Some (Inr d', w') \<and>
    is_alive d' ''up:1'' \<and> \<not> is_alive d' ''gone:2''"
proof -
  obtain w' where p: "pings half_os demo_detector (fd_nodes demo_detector) (small_world0 (\<lambda>_. encode_pong_response)) = Some (Inr [True, False], w')"
    using demo_pings by blast
  have d: "running demo_detector" "distinct (map node_id (fd_nodes demo_detector))"
    by (simp_all add: demo_detector_def start_def new_detector_def node_id_def codec_simps)
  from heartbeat_marks_by_own_ping [OF d p] obtain d' where
    d': "heartbeat_pass half_os (fd_nodes demo_detector) demo_detector (small_world0 (\<lambda>_. encode_pong_response)) = Some (Inr d', w')"
      "\<And>i. i < length (fd_nodes demo_detector) \<Longrightarrow> is_alive d' (node_id (fd_nodes demo_detector ! i)) = [True, False] ! i"
    by blast
  have "is_alive d' ''up:1''" "\<not> is_alive d' ''gone:2''"
    using d'(2) [of 0] d'(2) [of 1]
    by (simp_all add: demo_detector_def start_def new_detector_def node_id_def codec_simps)
  with d'(1) show ?thesis by blast
qed

text \<open>
  A ping never throws and leaks no descriptor: whatever goes wrong in connecting, in setting the
  timeout or in the exchange, the process holds the same descriptors afterwards, so the heartbeat can go on
  for ever.
\<close>

theorem ping_once_safe:
  assumes "posix_fds os opened" "transfers_keep_fds os opened" "ping_once os d addr w = Some (r, w')"
  shows "(\<exists>b. r = Inr b) \<and> opened w' = opened w"
  using ping_once_no_throw [OF assms(3)] ping_once_fds [OF assms] by simp

theorem ping_once_safe_witness:
  "\<exists>r w'. ping_once half_os demo_detector \<lparr>host = ''gone'', port = 2\<rparr> (small_world0 (\<lambda>_. [])) = Some (r, w') \<and>
     (\<exists>b. r = Inr b) \<and> set (dw_open w') = {0, 1, 2}"
proof -
  let ?w = "small_world0 (\<lambda>_. [])"
  have os: "posix_fds half_os (\<lambda>w. set (dw_open w))" "transfers_keep_fds half_os (\<lambda>w. set (dw_open w))"
    using small_os_contracts(5) by (simp_all add: posix_fds_def half_os_def transfers_keep_fds_def)
  have "\<exists>r w'. ping_once half_os demo_detector \<lparr>host = ''gone'', port = 2\<rparr> ?w = Some (r, w')"
    by (simp add: ping_once_def connect_to_def half_os_def small_os_def small_world0_def throw_errno_def)
  then obtain r w' where "ping_once half_os demo_detector \<lparr>host = ''gone'', port = 2\<rparr> ?w = Some (r, w')" by blast
  with ping_once_safe [OF os this] show ?thesis by (auto simp: small_world0_def)
qed

end
