(* ===== verification/Reactor.thy ===== *)
theory Reactor
  imports Net_Io Protocol_Stream Kv_Store "HOL-Library.Multiset"
begin

text \<open>
  One worker reactor of the server: \<^verbatim>\<open>src/server/worker_reactor.cpp\<close>. Its fields are a record; the
  store it shares with the other reactors is passed and returned, as one thread sees it between two
  calls of the store (\<open>Store_Concurrency\<close> shows that each such call takes effect at one instant).

  Shown: \<open>handle_request\<close> implements an abstract key-value specification; a connection answers
  exactly the requests on its stream, in order; the reactor's bookkeeping is an invariant of every
  operation, so the lookup of a connection's parser never throws; one round services each ready
  connection exactly once, whatever connections close on the way; and an over-long unterminated line
  makes the reactor loop for ever.
\<close>

section \<open>The request handler\<close>

definition handle_request :: "KVStore \<Rightarrow> Request \<Rightarrow> bytes \<times> KVStore" where
  "handle_request store req =
     (case command req of
        Get \<Rightarrow>
          (case kv_get store (key req) of
             Some v \<Rightarrow> (encode_value_response v, store)
           | None \<Rightarrow> (encode_not_found_response, store))
      | Set \<Rightarrow> (encode_ok_response, kv_set store (key req) (req_value req))
      | Delete \<Rightarrow>
          (let (found, store') = kv_remove store (key req)
           in (if found then encode_deleted_response else encode_not_found_response, store'))
      | Ping \<Rightarrow> (encode_pong_response, store))"

section \<open>The reactor\<close>

record pollfd =
  pfd_fd :: int
  pfd_revents :: "poll_event set"

record WorkerReactor =
  wakeup_read_fd :: int
  wakeup_write_fd :: int
  poll_fds :: "pollfd list"
  parsers :: "int \<rightharpoonup> IncrementalParser"
  pending_clients :: "int list"

definition new_reactor :: "'w os \<Rightarrow> (int \<Rightarrow> int) \<Rightarrow> ('w, WorkerReactor) io" where
  "new_reactor os or_nonblock =
     io_bind (io_call (sys_pipe os)) (\<lambda>(rc, rfd, wfd).
       if rc < 0 then throw_errno os ''pipe''
       else io_bind (set_nonblocking os or_nonblock rfd) (\<lambda>_.
         io_bind (set_nonblocking os or_nonblock wfd) (\<lambda>_.
           io_return \<lparr>wakeup_read_fd = rfd, wakeup_write_fd = wfd,
             poll_fds = [\<lparr>pfd_fd = rfd, pfd_revents = {}\<rparr>], parsers = Map.empty, pending_clients = []\<rparr>)))"

definition enqueue_client :: "'w os \<Rightarrow> WorkerReactor \<Rightarrow> int \<Rightarrow> ('w, WorkerReactor) io" where
  "enqueue_client os r fd =
     (let r = r\<lparr>pending_clients := pending_clients r @ [fd]\<rparr> in
      io_bind (io_call (sys_write os (wakeup_write_fd r) [CHR 0x01])) (\<lambda>_. io_return r))"

text \<open>\<^verbatim>\<open>Request req;\<close> leaves \<^verbatim>\<open>command\<close> indeterminate; it is read only after a \<^verbatim>\<open>Complete\<close>, which sets it.\<close>

definition new_request :: Request where
  "new_request = \<lparr>command = Get, key = [], req_value = []\<rparr>"

text \<open>The inner loop of \<^verbatim>\<open>service_client\<close>: answer what the parser has.\<close>

partial_function (option) serve_requests ::
  "'w os \<Rightarrow> int \<Rightarrow> IncrementalParser \<Rightarrow> Request \<Rightarrow> KVStore \<Rightarrow> ('w, IncrementalParser \<times> KVStore) io" where
  "serve_requests os fd parser req store w =
     (let (status, parser, req) = try_parse_request parser req in
      if status = Incomplete then Some (Inr (parser, store), w)
      else let (response, store) =
          (if status = ParseError then (encode_error_response (error_message parser), store)
           else handle_request store req)
        in io_bind (reactor_write_all os fd response 0) (\<lambda>_. serve_requests os fd parser req store) w)"

text \<open>The outer loop: \<^verbatim>\<open>should_close\<close>, the reactor and the store.\<close>

partial_function (option) service_reads ::
  "'w os \<Rightarrow> int \<Rightarrow> WorkerReactor \<Rightarrow> KVStore \<Rightarrow> ('w, bool \<times> WorkerReactor \<times> KVStore) io" where
  "service_reads os fd r store w =
     (let (n, w1) = sys_read os fd 4096 w in
      (case n of
         Some chunk \<Rightarrow>
           if chunk = [] then Some (Inr (True, r, store), w1)
           else (case parsers r fd of
               None \<Rightarrow> Some (Inl (Out_of_range ''unordered_map::at''), w1)
             | Some parser \<Rightarrow>
                 io_bind (serve_requests os fd (feed parser chunk) new_request store) (\<lambda>(parser, store) w.
                   let r = r\<lparr>parsers := (parsers r)(fd \<mapsto> parser)\<rparr> in
                   if length chunk < 4096 then Some (Inr (False, r, store), w)
                   else service_reads os fd r store w) w1)
       | None \<Rightarrow>
           if errno_of os w1 \<in> {EAGAIN, EWOULDBLOCK} then Some (Inr (False, r, store), w1)
           else if errno_of os w1 = EINTR then service_reads os fd r store w1
           else Some (Inr (True, r, store), w1)))"

definition close_client :: "'w os \<Rightarrow> WorkerReactor \<Rightarrow> nat \<Rightarrow> ('w, WorkerReactor) io" where
  "close_client os r poll_index =
     (let fd = pfd_fd (poll_fds r ! poll_index) in
      io_bind (io_call (\<lambda>w. ((), sys_close os fd w))) (\<lambda>_.
        io_return (r\<lparr>parsers := (parsers r)(fd := None),
          poll_fds := butlast ((poll_fds r)[poll_index := last (poll_fds r)])\<rparr>)))"

definition service_client ::
  "'w os \<Rightarrow> WorkerReactor \<Rightarrow> KVStore \<Rightarrow> nat \<Rightarrow> ('w, WorkerReactor \<times> KVStore) io" where
  "service_client os r store poll_index =
     io_bind (service_reads os (pfd_fd (poll_fds r ! poll_index)) r store) (\<lambda>(should_close, r, store).
       if should_close
       then io_bind (close_client os r poll_index) (\<lambda>r. io_return (r, store))
       else io_return (r, store))"

text \<open>
  The loop of \<^verbatim>\<open>run\<close> over the polled descriptors. The call it makes for a ready one is a parameter
  here; the reactor passes \<open>service_client\<close>.
\<close>

definition ready :: "pollfd \<Rightarrow> bool" where
  "ready p \<longleftrightarrow> pfd_revents p \<inter> {POLLIN, POLLHUP, POLLERR} \<noteq> {}"

partial_function (option) sweep ::
  "(WorkerReactor \<Rightarrow> KVStore \<Rightarrow> nat \<Rightarrow> ('w, WorkerReactor \<times> KVStore) io) \<Rightarrow>
   WorkerReactor \<Rightarrow> KVStore \<Rightarrow> nat \<Rightarrow> ('w, WorkerReactor \<times> KVStore) io" where
  "sweep service r store i w =
     (if i < length (poll_fds r) then
        if ready (poll_fds r ! i) then
          let before = length (poll_fds r) in
          io_bind (service r store i) (\<lambda>(r, store) w.
            if length (poll_fds r) < before then sweep service r store i w else sweep service r store (i + 1) w) w
        else sweep service r store (i + 1) w
      else Some (Inr (r, store), w))"

partial_function (option) drain_wakeup_pipe :: "'w os \<Rightarrow> int \<Rightarrow> ('w, unit) io" where
  "drain_wakeup_pipe os fd w =
     (let (n, w1) = sys_read os fd 256 w in
      (case n of
         Some buf \<Rightarrow> if buf = [] then Some (Inr (), w1) else drain_wakeup_pipe os fd w1
       | None \<Rightarrow> Some (Inr (), w1)))"

fun register_clients :: "'w os \<Rightarrow> (int \<Rightarrow> int) \<Rightarrow> int list \<Rightarrow> WorkerReactor \<Rightarrow> ('w, WorkerReactor) io" where
  "register_clients os or_nonblock [] r = io_return r"
| "register_clients os or_nonblock (fd # fds) r =
     io_bind (set_nonblocking os or_nonblock fd) (\<lambda>_.
       io_bind (set_tcp_nodelay os fd) (\<lambda>_.
         register_clients os or_nonblock fds
           (r\<lparr>poll_fds := poll_fds r @ [\<lparr>pfd_fd = fd, pfd_revents = {}\<rparr>],
             parsers := (case parsers r fd of None \<Rightarrow> (parsers r)(fd \<mapsto> new_parser) | Some _ \<Rightarrow> parsers r)\<rparr>)))"

definition accept_pending_clients :: "'w os \<Rightarrow> (int \<Rightarrow> int) \<Rightarrow> WorkerReactor \<Rightarrow> ('w, WorkerReactor) io" where
  "accept_pending_clients os or_nonblock r =
     register_clients os or_nonblock (pending_clients r) (r\<lparr>pending_clients := []\<rparr>)"

text \<open>One iteration of \<^verbatim>\<open>run\<close>, and the loop, which is left by an exception only.\<close>

definition run_once ::
  "'w os \<Rightarrow> (int \<Rightarrow> int) \<Rightarrow> WorkerReactor \<Rightarrow> KVStore \<Rightarrow> ('w, WorkerReactor \<times> KVStore) io" where
  "run_once os or_nonblock r store =
     io_bind (io_call (sys_poll os (map (\<lambda>p. (pfd_fd p, {POLLIN})) (poll_fds r)) (-1))) (\<lambda>(n, revents).
       if n < 0 then
         (\<lambda>w. if errno_of os w = EINTR then io_return (r, store) w else throw_errno os ''poll'' w)
       else
         let r = r\<lparr>poll_fds := map (\<lambda>(p, ev). p\<lparr>pfd_revents := ev\<rparr>) (zip (poll_fds r) revents)\<rparr> in
         io_bind
           (if POLLIN \<in> pfd_revents (poll_fds r ! 0) then
              io_bind (drain_wakeup_pipe os (wakeup_read_fd r)) (\<lambda>_. accept_pending_clients os or_nonblock r)
            else io_return r)
           (\<lambda>r. sweep (service_client os) r store 1))"

partial_function (option) reactor_run ::
  "'w os \<Rightarrow> (int \<Rightarrow> int) \<Rightarrow> WorkerReactor \<Rightarrow> KVStore \<Rightarrow> ('w, unit) io" where
  "reactor_run os or_nonblock r store w =
     io_bind (run_once os or_nonblock r store) (\<lambda>(r, store). reactor_run os or_nonblock r store) w"

section \<open>What a server promises\<close>

text \<open>The abstract specification: one map, one response per request.\<close>

abbreviation reply :: "ResponseType \<Rightarrow> Response" where
  "reply t \<equiv> \<lparr>resp_type = t, resp_value = [], resp_message = []\<rparr>"

definition spec_step :: "(bytes \<rightharpoonup> bytes) \<Rightarrow> Request \<Rightarrow> Response \<times> (bytes \<rightharpoonup> bytes)" where
  "spec_step m req =
     (case command req of
        Get \<Rightarrow> (case m (key req) of Some v \<Rightarrow> (reply Value)\<lparr>resp_value := v\<rparr> | None \<Rightarrow> reply NotFound, m)
      | Set \<Rightarrow> (reply Ok, m(key req \<mapsto> req_value req))
      | Delete \<Rightarrow> (if m (key req) = None then reply NotFound else reply Deleted, m(key req := None))
      | Ping \<Rightarrow> (reply Pong, m))"

fun spec_steps :: "(bytes \<rightharpoonup> bytes) \<Rightarrow> Request list \<Rightarrow> Response list \<times> (bytes \<rightharpoonup> bytes)" where
  "spec_steps m [] = ([], m)"
| "spec_steps m (req # reqs) =
     (let (resp, m') = spec_step m req; (resps, m'') = spec_steps m' reqs in (resp # resps, m''))"

lemma spec_steps_append:
  "spec_steps m (xs @ ys) =
     (fst (spec_steps m xs) @ fst (spec_steps (snd (spec_steps m xs)) ys), snd (spec_steps (snd (spec_steps m xs)) ys))"
  by (induction xs arbitrary: m) (simp_all add: case_prod_beta Let_def)

lemma handle_request_spec:
  assumes "kv_inv store"
  shows "fst (handle_request store req) = encode_response (fst (spec_step (kv_abs store) req))"
    and "kv_abs (snd (handle_request store req)) = snd (spec_step (kv_abs store) req)"
    and "kv_inv (snd (handle_request store req))"
  using assms
  by (cases "command req"; cases "kv_abs store (key req)";
      simp add: handle_request_def spec_step_def encode_response_def store.get_abs store.set_abs
        store.remove_abs store.remove_found kv_inv_set kv_inv_remove case_prod_beta Let_def)+

section \<open>Serving one connection\<close>

text \<open>A connection that works: the client keeps it open, sends a fixed stream, and takes every byte.\<close>

definition healthy :: "'w os \<Rightarrow> ('w \<Rightarrow> int \<Rightarrow> bytes) \<Rightarrow> ('w \<Rightarrow> int \<Rightarrow> bytes) \<Rightarrow> ('w \<Rightarrow> nat) \<Rightarrow> bool" where
  "healthy os sent avail budget \<longleftrightarrow>
     posix_write os sent \<and> retries_end os budget \<and> posix_read os avail \<and> writes_succeed os \<and>
     (\<forall>fd d w. avail (snd (sys_write os fd d w)) = avail w) \<and>
     (\<forall>fds t w. avail (snd (sys_poll os fds t w)) = avail w) \<and>
     (\<forall>fd n w. sent (snd (sys_read os fd n w)) = sent w) \<and>
     (\<forall>fd n w. let (r, w') = sys_read os fd n w in r = None \<longrightarrow> errno_of os w' = EINTR \<longrightarrow> budget w' < budget w)"

lemma healthyD:
  assumes "healthy os sent avail budget"
  shows "posix_write os sent" "retries_end os budget" "posix_read os avail" "writes_succeed os"
    and "avail (snd (sys_write os fd d w)) = avail w" "avail (snd (sys_poll os fds t w)) = avail w"
    and "sent (snd (sys_read os fd n w)) = sent w"
    and "sys_read os fd n w = (None, w') \<Longrightarrow> errno_of os w' = EINTR \<Longrightarrow> budget w' < budget w"
proof -
  note h = assms [unfolded healthy_def]
  show "posix_write os sent" "retries_end os budget" "posix_read os avail" "writes_succeed os"
    "avail (snd (sys_write os fd d w)) = avail w" "avail (snd (sys_poll os fds t w)) = avail w"
    "sent (snd (sys_read os fd n w)) = sent w"
    using h by (simp_all only:)
  have "let (r, w') = sys_read os fd n w in r = None \<longrightarrow> errno_of os w' = EINTR \<longrightarrow> budget w' < budget w"
    using h by (simp only:)
  then show "sys_read os fd n w = (None, w') \<Longrightarrow> errno_of os w' = EINTR \<Longrightarrow> budget w' < budget w" by simp
qed

lemma healthy_write:
  assumes "healthy os sent avail budget"
  obtains w' where "reactor_write_all os fd data 0 w = Some (Inr (), w')"
    "sent w' = (sent w)(fd := sent w fd @ data)" "avail w' = avail w"
proof -
  obtain w' k where w': "reactor_write_all os fd data 0 w = Some (Inr (), w')" "delivered sent fd data 0 k w w'"
    "k = length data"
    using reactor_write_all_delivers [OF healthyD(1,2) [OF assms], of 0 data fd w] healthyD(4) [OF assms] by auto
  moreover have "avail w' = avail w"
    using reactor_write_all_keeps [OF healthyD(5,6) [OF assms] w'(1)] by simp
  ultimately show ?thesis by (intro that [of w']) (simp_all add: delivered_def)
qed

text \<open>
  Where a connection stands: of the requests its stream encodes, some are done, with the store and
  the output as specified, and the parser and the stream hold the others.
\<close>

definition progress ::
  "Request list \<Rightarrow> (bytes \<rightharpoonup> bytes) \<Rightarrow> bytes \<Rightarrow> nat \<Rightarrow> IncrementalParser \<Rightarrow> KVStore \<Rightarrow> bytes \<Rightarrow> bytes \<Rightarrow> bool" where
  "progress reqs m out0 n p store out stream \<longleftrightarrow>
     n \<le> length reqs \<and> kv_inv store \<and> kv_abs store = snd (spec_steps m (take n reqs)) \<and>
     out = out0 @ concat (map encode_response (fst (spec_steps m (take n reqs)))) \<and>
     buffer p @ stream = concat (map encode_request (drop n reqs))"

definition waiting :: "Request list \<Rightarrow> nat \<Rightarrow> IncrementalParser \<Rightarrow> bool" where
  "waiting reqs n p \<longleftrightarrow> (n < length reqs \<longrightarrow> strict_prefix (buffer p) (encode_request (reqs ! n)))"

lemma progress_step:
  assumes "progress reqs m out0 n p store out stream" "n < length reqs"
    and "buffer p = encode_request (reqs ! n) @ rest"
  shows "progress reqs m out0 (n + 1) (p\<lparr>buffer := rest\<rparr>) (snd (handle_request store (reqs ! n)))
    (out @ fst (handle_request store (reqs ! n))) stream"
proof -
  have "drop n reqs = reqs ! n # drop (n + 1) reqs" using assms(2) by (simp add: Cons_nth_drop_Suc)
  moreover have "take (n + 1) reqs = take n reqs @ [reqs ! n]" using assms(2) by (simp add: take_Suc_conv_app_nth)
  ultimately show ?thesis
    using assms handle_request_spec [of store "reqs ! n"]
    by (simp add: progress_def spec_steps_append case_prod_beta)
qed

lemma serve_requests_progress:
  assumes os: "healthy os sent avail budget" and wf: "list_all wf_request reqs"
    and "progress reqs m out0 n p store (sent w fd) (avail w fd)"
  shows "\<exists>n' p' store' w'. serve_requests os fd p req store w = Some (Inr (p', store'), w') \<and> n \<le> n' \<and>
    progress reqs m out0 n' p' store' (sent w' fd) (avail w' fd) \<and> waiting reqs n' p' \<and> avail w' = avail w"
  using assms(3)
proof (induction "length reqs - n" arbitrary: n p req store w)
  case 0
  then have "n = length reqs" "buffer p = []" by (simp_all add: progress_def)
  with 0 request_codec.parse_empty [of p req] show ?case
    by (subst serve_requests.simps) (auto simp: waiting_def)
next
  case (Suc k)
  then have n: "n < length reqs" by simp
  have wfn: "wf_request (reqs ! n)" using wf n by (simp add: list_all_length)
  have "buffer p @ avail w fd = encode_request (reqs ! n) @ concat (map encode_request (drop (Suc n) reqs))"
    using Suc.prems n by (simp add: progress_def flip: Cons_nth_drop_Suc)
  then have "prefix (buffer p) (encode_request (reqs ! n) @ concat (map encode_request (drop (Suc n) reqs)))"
    by (metis prefixI)
  then consider rest where "buffer p = encode_request (reqs ! n) @ rest" | "strict_prefix (buffer p) (encode_request (reqs ! n))"
    by (cases "buffer p = encode_request (reqs ! n)") (auto simp: prefix_append strict_prefix_def)
  then show ?case
  proof cases
    case 1
    let ?h = "handle_request store (reqs ! n)"
    note parse = request_codec.parse_frame [OF wfn 1, of req]
    obtain w1 where w1: "reactor_write_all os fd (fst ?h) 0 w = Some (Inr (), w1)"
      "sent w1 = (sent w)(fd := sent w fd @ fst ?h)" "avail w1 = avail w"
      using healthy_write [OF os] by blast
    have "progress reqs m out0 (n + 1) (p\<lparr>buffer := rest\<rparr>) (snd ?h) (sent w1 fd) (avail w1 fd)"
      using progress_step [OF Suc.prems n 1] w1 by simp
    moreover have "k = length reqs - (n + 1)" using Suc.hyps(2) by simp
    ultimately obtain n' p' store' w' where
      "serve_requests os fd (p\<lparr>buffer := rest\<rparr>) (reqs ! n) (snd ?h) w1 = Some (Inr (p', store'), w')"
      "n \<le> n'" "progress reqs m out0 n' p' store' (sent w' fd) (avail w' fd)" "waiting reqs n' p'" "avail w' = avail w1"
      using Suc.hyps(1) [of "n + 1" "p\<lparr>buffer := rest\<rparr>" "snd ?h" w1 "reqs ! n"] by (metis add_leD1)
    with w1 show ?thesis by (subst serve_requests.simps) (auto simp: parse case_prod_beta)
  next
    case 2
    with Suc.prems request_codec.parse_partial [OF wfn 2, of req] show ?thesis
      by (subst serve_requests.simps) (auto simp: waiting_def)
  qed
qed

lemma progress_feed:
  "progress reqs m out0 n (feed p c) store out stream = progress reqs m out0 n p store out (c @ stream)"
  by (simp add: progress_def)

lemma service_reads_progress:
  assumes os: "healthy os sent avail budget" and wf: "list_all wf_request reqs"
    and "parsers r fd = Some p" "progress reqs m out0 n p store (sent w fd) (avail w fd)"
  shows "\<exists>b store' w' n' p'. service_reads os fd r store w = Some (Inr (b, r\<lparr>parsers := (parsers r)(fd \<mapsto> p')\<rparr>, store'), w') \<and>
    n \<le> n' \<and> progress reqs m out0 n' p' store' (sent w' fd) (avail w' fd) \<and> (waiting reqs n p \<longrightarrow> waiting reqs n' p')"
  using assms(3,4)
proof (induction "(length (avail w fd), budget w)" arbitrary: r n p store w
    rule: wf_induct_rule [OF wf_lex_prod [OF wf_less_than wf_less_than]])
  case less: (1 w r n p store)
  obtain x w1 where call: "sys_read os fd 4096 w = (x, w1)" by fastforce
  have sent1: "sent w1 = sent w" using healthyD(7) [OF os, of fd 4096 w] call by simp
  have same: "r\<lparr>parsers := (parsers r)(fd \<mapsto> p)\<rparr> = r" using less.prems(1) by (simp add: fun_upd_idem)
  have read: "case x of None \<Rightarrow> avail w1 fd = avail w fd | Some d \<Rightarrow> avail w fd = d @ avail w1 fd"
    using posix_readD [OF healthyD(3) [OF os] call] by (simp split: option.splits)
  show ?case
  proof (cases x)
    case None
    have here: "progress reqs m out0 n p store (sent w1 fd) (avail w1 fd)" using read None less.prems(2) sent1 by simp
    show ?thesis
    proof (cases "errno_of os w1 = EINTR")
      case True
      with healthyD(8) [OF os] call None have "budget w1 < budget w" by blast
      with less.hyps [OF _ less.prems(1) here] read None True show ?thesis
        by (subst service_reads.simps) (simp add: call)
    next
      case False
      then show ?thesis using here same None by (subst service_reads.simps) (auto simp: call intro!: exI [of _ p])
    qed
  next
    case (Some c)
    show ?thesis
    proof (cases "c = []")
      case True
      then show ?thesis
        using same Some read less.prems sent1 by (subst service_reads.simps) (auto simp: call intro!: exI [of _ p])
    next
      case False
      have "progress reqs m out0 n (feed p c) store (sent w1 fd) (avail w1 fd)"
        using read Some less.prems(2) sent1 by (simp add: progress_feed)
      from serve_requests_progress [OF os wf this, of new_request] obtain n' p' store' w2 where
        served: "serve_requests os fd (feed p c) new_request store w1 = Some (Inr (p', store'), w2)" "n \<le> n'"
        and here: "progress reqs m out0 n' p' store' (sent w2 fd) (avail w2 fd)" and wt: "waiting reqs n' p'" and "avail w2 = avail w1"
        by blast
      then have shorter: "length (avail w2 fd) < length (avail w fd)" using read Some False by simp
      let ?r = "r\<lparr>parsers := (parsers r)(fd \<mapsto> p')\<rparr>"
      show ?thesis
      proof (cases "length c < 4096")
        case True
        then show ?thesis
          using served here wt Some False less.prems(1) by (subst service_reads.simps) (auto simp: call)
      next
        case long: False
        from less.hyps [OF _ _ here, of ?r] shorter obtain b store'' w' n'' p'' where
          "service_reads os fd ?r store' w2 = Some (Inr (b, ?r\<lparr>parsers := (parsers ?r)(fd \<mapsto> p'')\<rparr>, store''), w')"
          "n' \<le> n''" "progress reqs m out0 n'' p'' store'' (sent w' fd) (avail w' fd)" "waiting reqs n'' p''"
          using wt by auto
        then show ?thesis
          using served Some False long less.prems(1) by (subst service_reads.simps) (auto simp: call Let_def intro!: exI [of _ n''] exI [of _ p''])
      qed
    qed
  qed
qed

section \<open>A line without end\<close>

text \<open>The parser keeps an over-long unterminated line, so the loop that answers errors never ends.\<close>

lemma serve_requests_stuck:
  assumes "stuck p"
  shows "serve_requests os fd p req store w = None"
proof (rule ccontr)
  assume "serve_requests os fd p req store w \<noteq> None"
  then obtain y where "serve_requests os fd p req store w = Some y" by blast
  then have "\<not> stuck p"
  proof (rule serve_requests.raw_induct [where P = "\<lambda>os fd p req store w y. \<not> stuck p", rotated])
    fix f :: "'a os \<Rightarrow> int \<Rightarrow> IncrementalParser \<Rightarrow> Request \<Rightarrow> KVStore \<Rightarrow> ('a, IncrementalParser \<times> KVStore) io"
      and os fd p req store w y
    assume IH: "\<And>os fd p req store w y. f os fd p req store w = Some y \<Longrightarrow> \<not> stuck p"
      and body: "(let (status, parser, req) = try_parse_request p req in
        if status = Incomplete then Some (Inr (parser, store), w)
        else let (response, store) =
            (if status = ParseError then (encode_error_response (error_message parser), store)
             else handle_request store req)
          in io_bind (reactor_write_all os fd response 0) (\<lambda>_. f os fd parser req store) w) = Some y"
    show "\<not> stuck p"
    proof
      assume st: "stuck p"
      obtain w1 where "reactor_write_all os fd (encode_error_response ''command line too long'') 0 w = Some (Inr (), w1)"
        "f os fd (p\<lparr>error_message := ''command line too long''\<rparr>) req store w1 = Some y"
        using body by (auto simp: try_parse_request_stuck [OF st] elim!: io_bind_SomeE dest: reactor_write_all_no_throw)
      from IH [OF this(2)] st show False by simp
    qed
  qed
  with assms show False by blast
qed

section \<open>Bookkeeping of connections\<close>

text \<open>
  Slot 0 polls the wake-up pipe, every other slot a different connection, and exactly the connections
  polled have a parser.
\<close>

definition reactor_inv :: "WorkerReactor \<Rightarrow> bool" where
  "reactor_inv r \<longleftrightarrow>
     poll_fds r \<noteq> [] \<and> pfd_fd (hd (poll_fds r)) = wakeup_read_fd r \<and>
     distinct (map pfd_fd (poll_fds r)) \<and> dom (parsers r) = set (map pfd_fd (tl (poll_fds r)))"

definition swap_remove :: "'a list \<Rightarrow> nat \<Rightarrow> 'a list" where
  "swap_remove xs i = butlast (xs[i := last xs])"

lemma swap_remove_length [simp]: "length (swap_remove xs i) = length xs - 1"
  by (simp add: swap_remove_def)

lemma swap_remove_split:
  assumes "i < length xs"
  obtains (last) "swap_remove xs i = take i xs" "i = length xs - 1"
  | (inner) "swap_remove xs i = take i xs @ last xs # butlast (drop (Suc i) xs)" "i < length xs - 1"
proof (cases "i = length xs - 1")
  case True
  with assms have "xs[i := last xs] = xs" by (cases xs rule: rev_cases) auto
  with True last show ?thesis by (simp add: swap_remove_def butlast_conv_take)
next
  case False
  with assms have "i < length xs - 1" by simp
  with inner show ?thesis
    by (simp add: swap_remove_def upd_conv_take_nth_drop butlast_append)
qed

lemma mset_swap_remove:
  assumes "i < length xs"
  shows "mset (swap_remove xs i) = mset xs - {#xs ! i#}"
proof -
  have b: "mset (butlast ys) = mset ys - {#last ys#}" if "ys \<noteq> []" for ys :: "'a list"
    using that by (cases ys rule: rev_cases) simp_all
  moreover have "last (xs[i := last xs]) = last xs"
    using assms by (cases xs rule: rev_cases) (auto simp: list_update_append)
  moreover have "mset (xs[i := last xs]) = add_mset (last xs) (mset xs - {#xs ! i#})"
    using assms by (simp add: mset_update)
  moreover have "xs[i := last xs] \<noteq> []" using assms by auto
  ultimately show ?thesis using b [of "xs[i := last xs]"] by (simp add: swap_remove_def)
qed

lemma mset_drop_swap_remove:
  assumes "i < length xs"
  shows "mset (drop i (swap_remove xs i)) = mset (drop (Suc i) xs)"
  using assms
proof (cases rule: swap_remove_split)
  case last
  with assms show ?thesis by simp
next
  case inner
  with assms have "drop (Suc i) xs \<noteq> []" "last (drop (Suc i) xs) = last xs" by auto
  then have "mset (last xs # butlast (drop (Suc i) xs)) = mset (drop (Suc i) xs)"
    by (cases "drop (Suc i) xs" rule: rev_cases) simp_all
  with assms inner show ?thesis by simp
qed

lemma distinct_swap_remove:
  assumes "distinct xs" "i < length xs"
  shows "distinct (swap_remove xs i)" "set (swap_remove xs i) = set xs - {xs ! i}"
proof -
  have "mset (xs ! i # swap_remove xs i) = mset xs"
    using mset_swap_remove [OF assms(2)] assms(2) by simp
  then have "distinct (xs ! i # swap_remove xs i)" "set (xs ! i # swap_remove xs i) = set xs"
    using assms(1) by (metis mset_eq_imp_distinct_iff, metis set_mset_mset)
  then show "distinct (swap_remove xs i)" "set (swap_remove xs i) = set xs - {xs ! i}" by auto
qed

lemma map_swap_remove: "i < length xs \<Longrightarrow> map f (swap_remove xs i) = swap_remove (map f xs) i"
  by (cases "xs = []") (simp_all add: swap_remove_def map_butlast map_update last_map)

lemma hd_swap_remove: "0 < i \<Longrightarrow> i < length xs \<Longrightarrow> hd (swap_remove xs i) = hd xs \<and> swap_remove xs i \<noteq> []"
  by (cases xs; cases i; cases "tl xs" rule: rev_cases) (auto simp: swap_remove_def)


lemma set_tl_swap_remove:
  assumes "distinct xs" "0 < i" "i < length xs"
  shows "set (tl (swap_remove xs i)) = set (tl xs) - {xs ! i}"
proof -
  define e zs where "e = xs ! i" and "zs = swap_remove xs i"
  have zs: "zs \<noteq> []" "hd zs = hd xs" "distinct zs" "set zs = set xs - {e}"
    using hd_swap_remove [OF assms(2,3)] distinct_swap_remove [OF assms(1,3)] by (simp_all add: e_def zs_def)
  have "xs \<noteq> []" using assms(3) by auto
  have tl_zs: "set zs = insert (hd xs) (set (tl zs))" "hd xs \<notin> set (tl zs)"
    using zs(1-3) by (cases zs; simp)+
  have tl_xs: "set xs = insert (hd xs) (set (tl xs))" "hd xs \<notin> set (tl xs)"
    using \<open>xs \<noteq> []\<close> assms(1) by (cases xs; simp)+
  have "set (tl zs) = set zs - {hd xs}" using tl_zs by simp
  also have "\<dots> = set xs - {hd xs} - {e}" using zs(4) by blast
  also have "set xs - {hd xs} = set (tl xs)" using tl_xs by simp
  finally have "set (tl zs) = set (tl xs) - {e}" .
  then show ?thesis by (simp only: e_def zs_def)
qed

lemma close_client_inv:
  assumes "reactor_inv r" "0 < i" "i < length (poll_fds r)"
  shows "\<exists>r' w'. close_client os r i w = Some (Inr r', w') \<and> reactor_inv r' \<and>
    poll_fds r' = swap_remove (poll_fds r) i"
proof -
  let ?fds = "map pfd_fd (poll_fds r)"
  let ?r = "r\<lparr>parsers := (parsers r)(?fds ! i := None), poll_fds := swap_remove (poll_fds r) i\<rparr>"
  have d: "distinct ?fds" "i < length ?fds" using assms by (simp_all add: reactor_inv_def)
  have hd: "hd (swap_remove (poll_fds r) i) = hd (poll_fds r)" "swap_remove (poll_fds r) i \<noteq> []"
    using hd_swap_remove [OF assms(2,3)] by simp_all
  have "map pfd_fd (tl (swap_remove (poll_fds r) i)) = tl (swap_remove ?fds i)"
    using assms(3) by (simp add: map_tl map_swap_remove)
  then have tl: "set (map pfd_fd (tl (swap_remove (poll_fds r) i))) = set (map pfd_fd (tl (poll_fds r))) - {?fds ! i}"
    using set_tl_swap_remove [OF d(1) assms(2) d(2)] by (simp only: map_tl)
  have "distinct (map pfd_fd (swap_remove (poll_fds r) i))"
    using distinct_swap_remove(1) [OF d] assms(3) by (simp only: map_swap_remove)
  moreover have "dom ((parsers r)(?fds ! i := None)) = set (map pfd_fd (tl (swap_remove (poll_fds r) i)))"
    using assms(1) unfolding tl by (simp add: reactor_inv_def)
  ultimately have "reactor_inv ?r" using assms(1) hd unfolding reactor_inv_def by simp
  moreover have "close_client os r i w = Some (Inr ?r, sys_close os (?fds ! i) w)"
    using assms(3) by (simp add: close_client_def swap_remove_def Let_def)
  ultimately show ?thesis by (intro exI [of _ ?r] exI) simp
qed

lemma serve_requests_no_throw:
  assumes "serve_requests os fd p req store w = Some y"
  shows "\<exists>p' store'. fst y = Inr (p', store')"
proof (rule serve_requests.raw_induct [where P = "\<lambda>os fd p req store w y. \<exists>p' store'. fst y = Inr (p', store')", OF _ assms])
  fix f :: "'a os \<Rightarrow> int \<Rightarrow> IncrementalParser \<Rightarrow> Request \<Rightarrow> KVStore \<Rightarrow> ('a, IncrementalParser \<times> KVStore) io"
    and os fd p req store w y
  assume IH: "\<And>os fd p req store w y. f os fd p req store w = Some y \<Longrightarrow> \<exists>p' store'. fst y = Inr (p', store')"
    and body: "(let (status, parser, req) = try_parse_request p req in
      if status = Incomplete then Some (Inr (parser, store), w)
      else let (response, store) =
          (if status = ParseError then (encode_error_response (error_message parser), store)
           else handle_request store req)
        in io_bind (reactor_write_all os fd response 0) (\<lambda>_. f os fd parser req store) w) = Some y"
  obtain status q req' where parse: "try_parse_request p req = (status, q, req')" by (metis surj_pair)
  show "\<exists>p' store'. fst y = Inr (p', store')"
  proof (cases "status = Incomplete")
    case True
    with body parse show ?thesis by auto
  next
    case False
    let ?a = "if status = ParseError then (encode_error_response (error_message q), store) else handle_request store req'"
    from body False have "io_bind (reactor_write_all os fd (fst ?a) 0) (\<lambda>_. f os fd q req' (snd ?a)) w = Some y"
      by (cases "status = ParseError") (simp_all add: parse case_prod_beta)
    then show ?thesis by (cases rule: io_bind_SomeE) (auto dest: reactor_write_all_no_throw IH)
  qed
qed

lemma service_reads_no_throw:
  assumes "service_reads os fd r store w = Some y" "parsers r fd \<noteq> None"
  shows "\<exists>b p store'. fst y = Inr (b, r\<lparr>parsers := (parsers r)(fd \<mapsto> p)\<rparr>, store')"
proof -
  let ?P = "\<lambda>os fd r store w y. parsers r fd \<noteq> None \<longrightarrow>
    (\<exists>b p store'. fst y = Inr (b, r\<lparr>parsers := (parsers r)(fd \<mapsto> p)\<rparr>, store'))"
  have "?P os fd r store w y"
  proof (rule service_reads.raw_induct [where P = ?P, OF _ assms(1)], intro impI)
    fix f :: "'a os \<Rightarrow> int \<Rightarrow> WorkerReactor \<Rightarrow> KVStore \<Rightarrow> ('a, bool \<times> WorkerReactor \<times> KVStore) io"
      and os fd r store w y
    assume IH: "\<And>os fd r store w y. f os fd r store w = Some y \<Longrightarrow> ?P os fd r store w y"
      and body: "(let (n, w1) = sys_read os fd 4096 w in
      (case n of
         Some chunk \<Rightarrow>
           if chunk = [] then Some (Inr (True, r, store), w1)
           else (case parsers r fd of
               None \<Rightarrow> Some (Inl (Out_of_range ''unordered_map::at''), w1)
             | Some parser \<Rightarrow>
                 io_bind (serve_requests os fd (feed parser chunk) new_request store) (\<lambda>(parser, store) w.
                   let r = r\<lparr>parsers := (parsers r)(fd \<mapsto> parser)\<rparr> in
                   if length chunk < 4096 then Some (Inr (False, r, store), w)
                   else f os fd r store w) w1)
       | None \<Rightarrow>
           if errno_of os w1 \<in> {EAGAIN, EWOULDBLOCK} then Some (Inr (False, r, store), w1)
           else if errno_of os w1 = EINTR then f os fd r store w1
           else Some (Inr (True, r, store), w1))) = Some y"
      and p: "parsers r fd \<noteq> None"
    obtain n w1 where call: "sys_read os fd 4096 w = (n, w1)" by fastforce
    obtain p0 where p0: "parsers r fd = Some p0" using p by blast
    have same: "r\<lparr>parsers := (parsers r)(fd \<mapsto> p0)\<rparr> = r" using p0 by (simp add: fun_upd_idem)
    show "\<exists>b p store'. fst y = Inr (b, r\<lparr>parsers := (parsers r)(fd \<mapsto> p)\<rparr>, store')"
    proof (cases "\<exists>c. n = Some c \<and> c \<noteq> []")
      case False
      then have "n = None \<or> n = Some []" by (cases n) auto
      then have "(\<exists>b. y = (Inr (b, r, store), w1)) \<or> f os fd r store w1 = Some y"
        using body unfolding call by (elim disjE) (auto split: if_splits)
      then consider b where "y = (Inr (b, r, store), w1)" | "f os fd r store w1 = Some y" by blast
      then show ?thesis
      proof cases
        case 1
        then show ?thesis using same by (intro exI [of _ b] exI [of _ p0] exI [of _ store]) simp
      next
        case 2
        from IH [OF this] p show ?thesis by blast
      qed
    next
      case True
      then obtain c where c: "n = Some c" "c \<noteq> []" by blast
      from body c have "io_bind (serve_requests os fd (feed p0 c) new_request store) (\<lambda>(parser, store) w.
          let r = r\<lparr>parsers := (parsers r)(fd \<mapsto> parser)\<rparr> in
          if length c < 4096 then Some (Inr (False, r, store), w) else f os fd r store w) w1 = Some y"
        by (simp add: call p0)
      then show ?thesis
      proof (cases rule: io_bind_SomeE)
        case (threw e w2)
        from serve_requests_no_throw [OF threw(1)] show ?thesis by simp
      next
        case (returned x w2)
        obtain q store' where x: "x = (q, store')" by fastforce
        show ?thesis
        proof (cases "length c < 4096")
          case True
          with returned(2) x have "y = (Inr (False, r\<lparr>parsers := (parsers r)(fd \<mapsto> q)\<rparr>, store'), w2)" by simp
          then show ?thesis by (intro exI) (simp only: fst_conv)
        next
          case False
          with returned(2) x have "f os fd (r\<lparr>parsers := (parsers r)(fd \<mapsto> q)\<rparr>) store' w2 = Some y" by simp
          from IH [OF this] obtain b p store'' where
            "fst y = Inr (b, r\<lparr>parsers := (parsers r)(fd \<mapsto> p)\<rparr>, store'')" by auto
          then show ?thesis by blast
        qed
      qed
    qed
  qed
  with assms(2) show ?thesis by blast
qed

lemma service_client_inv:
  assumes "reactor_inv r" "0 < i" "i < length (poll_fds r)" "service_client os r store i w = Some y"
  shows "\<exists>r' store'. fst y = Inr (r', store') \<and> reactor_inv r' \<and>
    (poll_fds r' = poll_fds r \<or> poll_fds r' = swap_remove (poll_fds r) i)"
proof -
  let ?fd = "pfd_fd (poll_fds r ! i)"
  have "?fd \<in> set (map pfd_fd (tl (poll_fds r)))"
    using assms(2,3) by (cases "poll_fds r"; cases i) auto
  then have "?fd \<in> dom (parsers r)" using assms(1) by (simp add: reactor_inv_def)
  then have p: "parsers r ?fd \<noteq> None" and dom: "dom ((parsers r)(?fd \<mapsto> p)) = dom (parsers r)" for p by auto
  from assms(4) show ?thesis unfolding service_client_def
  proof (cases rule: io_bind_SomeE)
    case (threw e w1)
    from service_reads_no_throw [OF threw(1) p] show ?thesis by simp
  next
    case (returned x w1)
    from service_reads_no_throw [OF returned(1) p] obtain b q store' where
      x: "x = (b, r\<lparr>parsers := (parsers r)(?fd \<mapsto> q)\<rparr>, store')" by auto
    have inv: "reactor_inv (r\<lparr>parsers := (parsers r)(?fd \<mapsto> q)\<rparr>)"
      using assms(1) dom by (simp add: reactor_inv_def)
    show ?thesis
    proof (cases b)
      case True
      with returned(2) x close_client_inv [OF inv assms(2), of os w1] assms(3) show ?thesis by auto
    next
      case False
      with returned(2) x inv show ?thesis by auto
    qed
  qed
qed

section \<open>One round\<close>

text \<open>A service function that also records whom it serviced.\<close>

definition logged ::
  "(WorkerReactor \<Rightarrow> KVStore \<Rightarrow> nat \<Rightarrow> ('w, WorkerReactor \<times> KVStore) io) \<Rightarrow>
   WorkerReactor \<Rightarrow> KVStore \<Rightarrow> nat \<Rightarrow> ('w \<times> int list, WorkerReactor \<times> KVStore) io" where
  "logged service r store i wl =
     map_option (\<lambda>(x, w'). (x, w', snd wl @ [pfd_fd (poll_fds r ! i)])) (service r store i (fst wl))"

definition ready_fds :: "pollfd list \<Rightarrow> int multiset" where
  "ready_fds ps = image_mset pfd_fd (filter_mset ready (mset ps))"

lemma ready_fds_drop:
  "i < length ps \<Longrightarrow> ready_fds (drop i ps) = (if ready (ps ! i) then {#pfd_fd (ps ! i)#} else {#}) + ready_fds (drop (Suc i) ps)"
  by (simp add: ready_fds_def flip: Cons_nth_drop_Suc)

lemma sweep_skip: "i < length (poll_fds r) \<Longrightarrow> \<not> ready (poll_fds r ! i) \<Longrightarrow> sweep service r store i w = sweep service r store (i + 1) w"
  by (subst sweep.simps) simp

lemma sweep_services_ready:
  assumes total: "\<And>r store i w. reactor_inv r \<Longrightarrow> 0 < i \<Longrightarrow> i < length (poll_fds r) \<Longrightarrow> service_client os r store i w \<noteq> None"
    and "reactor_inv r" "0 < i"
  shows "\<exists>r' store' w' log'. sweep (logged (service_client os)) r store i (w, log) = Some (Inr (r', store'), w', log') \<and>
    sweep (service_client os) r store i w = Some (Inr (r', store'), w') \<and>
    reactor_inv r' \<and> mset log' = mset log + ready_fds (drop i (poll_fds r))"
  using assms(2,3)
proof (induction "length (poll_fds r) - i" arbitrary: r store i w log rule: less_induct)
  case less
  show ?case
  proof (cases "i < length (poll_fds r)")
    case False
    with less.prems show ?thesis by (simp add: ready_fds_def sweep.simps)
  next
    case i: True
    show ?thesis
    proof (cases "ready (poll_fds r ! i)")
      case False
      with i less.hyps [of r "i + 1" store w log] less.prems show ?thesis
        by (simp add: ready_fds_drop sweep_skip)
    next
      case True
      let ?fd = "pfd_fd (poll_fds r ! i)"
      from total [OF less.prems i] obtain y where y: "service_client os r store i w = Some y" by blast
      from service_client_inv [OF less.prems i y] obtain r' store' where
        r': "fst y = Inr (r', store')" "reactor_inv r'"
          "poll_fds r' = poll_fds r \<or> poll_fds r' = swap_remove (poll_fds r) i" by blast
      then have call: "logged (service_client os) r store i (w, log) = Some (Inr (r', store'), snd y, log @ [?fd])"
        using y by (simp add: logged_def case_prod_beta)
      define j where "j = (if length (poll_fds r') < length (poll_fds r) then i else i + 1)"
      have j: "0 < j" "length (poll_fds r') - j < length (poll_fds r) - i"
        using r'(3) i less.prems(2) by (auto simp: j_def)
      have rest: "ready_fds (drop j (poll_fds r')) = ready_fds (drop (Suc i) (poll_fds r))"
        using r'(3) i mset_drop_swap_remove [OF i] by (auto simp: ready_fds_def j_def)
      from less.hyps [OF j(2) r'(2) j(1), of store' "snd y" "log @ [?fd]"] obtain r'' store'' w'' log'' where
        next_j: "sweep (logged (service_client os)) r' store' j (snd y, log @ [?fd]) = Some (Inr (r'', store''), w'', log'')"
        and next_k: "sweep (service_client os) r' store' j (snd y) = Some (Inr (r'', store''), w'')"
        and "reactor_inv r''" "mset log'' = mset (log @ [?fd]) + ready_fds (drop j (poll_fds r'))"
        by blast
      moreover have "sweep (logged (service_client os)) r store i (w, log) = Some (Inr (r'', store''), w'', log'')"
        using i True call next_j by (subst sweep.simps) (simp add: j_def split: if_splits)
      moreover have "sweep (service_client os) r store i w = Some (Inr (r'', store''), w'')"
        using i True y r'(1) next_k by (cases y, subst sweep.simps) (simp add: j_def split: if_splits)
      ultimately show ?thesis using True by (simp add: rest ready_fds_drop [OF i])
    qed
  qed
qed

lemma sweep_inv:
  assumes "sweep (service_client os) r store i w = Some y" "reactor_inv r" "0 < i"
  shows "\<exists>r' store'. fst y = Inr (r', store') \<and> reactor_inv r'"
proof -
  let ?P = "\<lambda>service r store i w y. service = service_client os \<longrightarrow> reactor_inv r \<longrightarrow> 0 < i \<longrightarrow>
    (\<exists>r' store'. fst y = Inr (r', store') \<and> reactor_inv r')"
  have "?P (service_client os) r store i w y"
  proof (rule sweep.raw_induct [where P = ?P, OF _ assms(1)], intro impI)
    fix f :: "(WorkerReactor \<Rightarrow> KVStore \<Rightarrow> nat \<Rightarrow> ('a, WorkerReactor \<times> KVStore) io) \<Rightarrow>
        WorkerReactor \<Rightarrow> KVStore \<Rightarrow> nat \<Rightarrow> ('a, WorkerReactor \<times> KVStore) io"
      and service r store i w y
    assume IH: "\<And>service r store i w y. f service r store i w = Some y \<Longrightarrow> ?P service r store i w y"
      and body: "(if i < length (poll_fds r) then
        if ready (poll_fds r ! i) then
          let before = length (poll_fds r) in
          io_bind (service r store i) (\<lambda>(r, store) w.
            if length (poll_fds r) < before then f service r store i w else f service r store (i + 1) w) w
        else f service r store (i + 1) w
      else Some (Inr (r, store), w)) = Some y"
      and svc: "service = service_client os" and inv: "reactor_inv r" "0 < i"
    consider "\<not> i < length (poll_fds r)" | "i < length (poll_fds r)" "\<not> ready (poll_fds r ! i)"
      | "i < length (poll_fds r)" "ready (poll_fds r ! i)" by blast
    then show "\<exists>r' store'. fst y = Inr (r', store') \<and> reactor_inv r'"
    proof cases
      case 1
      with body inv show ?thesis by auto
    next
      case 2
      with body have "f service r store (i + 1) w = Some y" by simp
      from IH [OF this] svc inv show ?thesis by simp
    next
      case 3
      with body have "io_bind (service_client os r store i) (\<lambda>(r', store) w.
          if length (poll_fds r') < length (poll_fds r) then f service r' store i w else f service r' store (i + 1) w) w = Some y"
        unfolding svc by simp
      then show ?thesis
      proof (cases rule: io_bind_SomeE)
        case (threw e w1)
        from service_client_inv [OF inv 3(1) threw(1)] show ?thesis by simp
      next
        case (returned x w1)
        from service_client_inv [OF inv 3(1) returned(1)] obtain r' store' where
          x: "x = (r', store')" "reactor_inv r'" by auto
        with returned(2) obtain j where "f service r' store' j w1 = Some y" "0 < j"
          using inv(2) by (auto split: if_splits)
        with IH [OF this(1)] svc x(2) show ?thesis by blast
      qed
    qed
  qed
  with assms(2,3) show ?thesis by blast
qed

lemma set_nonblocking_returns:
  "\<exists>r w'. set_nonblocking os nb fd w = Some (r, w') \<and> (r = Inr () \<or> (\<exists>m. r = Inl (Runtime_error m)))"
  by (simp add: set_nonblocking_def throw_errno_def)

lemma set_tcp_nodelay_returns:
  "\<exists>r w'. set_tcp_nodelay os fd w = Some (r, w') \<and> (r = Inr () \<or> (\<exists>m. r = Inl (Runtime_error m)))"
  by (simp add: set_tcp_nodelay_def throw_errno_def)

lemma register_clients_inv:
  assumes "reactor_inv r" "distinct fds" "set fds \<inter> set (map pfd_fd (poll_fds r)) = {}"
    and "register_clients os nb fds r w = Some y"
  shows "(\<exists>m. fst y = Inl (Runtime_error m)) \<or> (\<exists>r'. fst y = Inr r' \<and> reactor_inv r')"
  using assms
proof (induction fds arbitrary: r w)
  case Nil
  then show ?case by auto
next
  case (Cons fd fds)
  let ?r = "r\<lparr>poll_fds := poll_fds r @ [\<lparr>pfd_fd = fd, pfd_revents = {}\<rparr>],
    parsers := (case parsers r fd of None \<Rightarrow> (parsers r)(fd \<mapsto> new_parser) | Some _ \<Rightarrow> parsers r)\<rparr>"
  have "fd \<notin> set (map pfd_fd (tl (poll_fds r)))"
    using Cons.prems(3) by (cases "poll_fds r") auto
  then have "parsers r fd = None" using Cons.prems(1) unfolding reactor_inv_def by (metis domIff)
  then have p: "parsers ?r = (parsers r)(fd \<mapsto> new_parser)" by simp
  have inv: "reactor_inv ?r"
    unfolding reactor_inv_def p
  proof (intro conjI)
    have fds: "poll_fds ?r = poll_fds r @ [\<lparr>pfd_fd = fd, pfd_revents = {}\<rparr>]" by simp
    have r: "poll_fds r \<noteq> []" "pfd_fd (hd (poll_fds r)) = wakeup_read_fd r" "distinct (map pfd_fd (poll_fds r))"
      "dom (parsers r) = set (map pfd_fd (tl (poll_fds r)))"
      using Cons.prems(1) unfolding reactor_inv_def by blast+
    show "poll_fds ?r \<noteq> []" "pfd_fd (hd (poll_fds ?r)) = wakeup_read_fd ?r" using r by simp_all
    show "distinct (map pfd_fd (poll_fds ?r))" unfolding fds using r(3) Cons.prems(3) by simp
    show "dom ((parsers r)(fd \<mapsto> new_parser)) = set (map pfd_fd (tl (poll_fds ?r)))"
      unfolding fds using r(1,4) by simp
  qed
  obtain r1 w1 where nb: "set_nonblocking os nb fd w = Some (r1, w1)" "r1 = Inr () \<or> (\<exists>m. r1 = Inl (Runtime_error m))"
    using set_nonblocking_returns [of os nb fd w] by blast
  obtain r2 w2 where nd: "set_tcp_nodelay os fd w1 = Some (r2, w2)" "r2 = Inr () \<or> (\<exists>m. r2 = Inl (Runtime_error m))"
    using set_tcp_nodelay_returns [of os fd w1] by blast
  show ?case
  proof (cases "r1 = Inr () \<and> r2 = Inr ()")
    case True
    with Cons.prems(4) nb nd have "register_clients os nb fds ?r w2 = Some y" by simp
    moreover have "distinct fds" "set fds \<inter> set (map pfd_fd (poll_fds ?r)) = {}"
      using Cons.prems(2,3) by (simp_all add: disjoint_iff)
    ultimately show ?thesis by (intro Cons.IH [OF inv])
  next
    case False
    then consider m where "r1 = Inl (Runtime_error m)" | m where "r1 = Inr ()" "r2 = Inl (Runtime_error m)"
      using nb(2) nd(2) by blast
    then show ?thesis using Cons.prems(4) nb(1) nd(1) by cases auto
  qed
qed

lemma reactor_inv_fds:
  "reactor_inv r \<longleftrightarrow> map pfd_fd (poll_fds r) \<noteq> [] \<and> hd (map pfd_fd (poll_fds r)) = wakeup_read_fd r \<and>
     distinct (map pfd_fd (poll_fds r)) \<and> dom (parsers r) = set (tl (map pfd_fd (poll_fds r)))"
  by (cases "poll_fds r") (simp_all add: reactor_inv_def)

lemma drain_wakeup_pipe_no_throw:
  assumes "drain_wakeup_pipe os fd w = Some (x, w')"
  shows "x = Inr ()"
  using drain_wakeup_pipe.raw_induct [where P = "\<lambda>_ _ _ y. fst y = Inr ()", OF _ assms]
  by (fastforce split: if_splits prod.splits option.splits)

lemma wake_up_inv:
  assumes "reactor_inv r" "distinct (pending_clients r)" "set (pending_clients r) \<inter> set (map pfd_fd (poll_fds r)) = {}"
    and "io_bind (drain_wakeup_pipe os fd) (\<lambda>_. accept_pending_clients os nb r) w = Some y"
  shows "(\<exists>m. fst y = Inl (Runtime_error m)) \<or> (\<exists>r'. fst y = Inr r' \<and> reactor_inv r')"
  using assms(4)
proof (cases rule: io_bind_SomeE)
  case (threw e w1)
  from drain_wakeup_pipe_no_throw [OF threw(1)] show ?thesis by simp
next
  case (returned x w1)
  have "reactor_inv (r\<lparr>pending_clients := []\<rparr>)" using assms(1) by (simp add: reactor_inv_def)
  with assms(2,3) returned(2) show ?thesis
    unfolding accept_pending_clients_def by (intro register_clients_inv) simp_all
qed

lemma run_once_inv:
  assumes "reactor_inv r" "distinct (pending_clients r)" "set (pending_clients r) \<inter> set (map pfd_fd (poll_fds r)) = {}"
    and len: "\<And>fds t w. length (snd (fst (sys_poll os fds t w))) = length fds"
    and run: "run_once os nb r store w = Some y"
  shows "(\<exists>m. fst y = Inl (Runtime_error m)) \<or> (\<exists>r' store'. fst y = Inr (r', store') \<and> reactor_inv r')"
proof -
  obtain n revents w1 where poll: "sys_poll os (map (\<lambda>p. (pfd_fd p, {POLLIN})) (poll_fds r)) (-1) w = ((n, revents), w1)"
    by (metis surj_pair)
  define r1 where "r1 = r\<lparr>poll_fds := map (\<lambda>(p, ev). p\<lparr>pfd_revents := ev\<rparr>) (zip (poll_fds r) revents)\<rparr>"
  have "length revents = length (poll_fds r)"
    using len [of "map (\<lambda>p. (pfd_fd p, {POLLIN})) (poll_fds r)" "-1" w] poll by simp
  then have fds: "map pfd_fd (poll_fds r1) = map pfd_fd (poll_fds r)"
    unfolding r1_def by (intro nth_equalityI) simp_all
  have r1: "parsers r1 = parsers r" "wakeup_read_fd r1 = wakeup_read_fd r" "pending_clients r1 = pending_clients r"
    by (simp_all add: r1_def)
  have inv: "reactor_inv r1" using assms(1) unfolding reactor_inv_fds fds r1 .
  show ?thesis
  proof (cases "n < 0")
    case True
    then show ?thesis
      using run assms(1) by (auto simp: run_once_def poll throw_errno_def split: if_splits)
  next
    case False
    define wake where "wake = (if POLLIN \<in> pfd_revents (poll_fds r1 ! 0)
      then io_bind (drain_wakeup_pipe os (wakeup_read_fd r1)) (\<lambda>_. accept_pending_clients os nb r1) else io_return r1)"
    have woken: "(\<exists>m. fst y = Inl (Runtime_error m)) \<or> (\<exists>r'. fst y = Inr r' \<and> reactor_inv r')" if "wake w1 = Some y" for y
    proof (cases "POLLIN \<in> pfd_revents (poll_fds r1 ! 0)")
      case True
      with that have "io_bind (drain_wakeup_pipe os (wakeup_read_fd r1)) (\<lambda>_. accept_pending_clients os nb r1) w1 = Some y"
        by (simp add: wake_def)
      with assms(2,3) show ?thesis by (intro wake_up_inv [OF inv]) (simp_all only: r1 fds)
    next
      case False
      with that inv show ?thesis by (auto simp: wake_def)
    qed
    from False run have "io_bind wake (\<lambda>r. sweep (service_client os) r store 1) w1 = Some y"
      by (simp add: run_once_def poll wake_def r1_def Let_def split: if_splits)
    then show ?thesis
    proof (cases rule: io_bind_SomeE)
      case (threw e w2)
      from woken [OF threw(1)] threw(2) show ?thesis by simp
    next
      case (returned r' w2)
      from woken [OF returned(1)] have "reactor_inv r'" by simp
      from sweep_inv [OF returned(2) this] show ?thesis by simp
    qed
  qed
qed

section \<open>Concrete kernels\<close>

lemma small_os_healthy: "healthy small_os dw_sent dw_avail (\<lambda>_. 0)"
  unfolding healthy_def using small_os_contracts(1-3) by (auto simp: writes_succeed_def min_def)

text \<open>
  \<open>quiet_os\<close>: the wake-up pipe and connection 7 are readable; 7 is at the end of its stream, everything
  else would block. \<open>flood_os\<close>: every read returns 300 bytes without a line feed.
\<close>

definition quiet_os :: "small_world os" where
  "quiet_os = small_os\<lparr>errno_of := \<lambda>_. EAGAIN,
     sys_read := \<lambda>fd n w. (if fd = 7 then Some [] else None, w),
     sys_poll := \<lambda>fds t w. ((2, map (\<lambda>(fd, _). if fd = 8 then {} else {POLLIN}) fds), w)\<rparr>"

definition flood_os :: "small_world os" where
  "flood_os = small_os\<lparr>sys_read := \<lambda>fd n w. (Some (replicate 300 CHR ''A''), w)\<rparr>"

definition demo_reactor :: WorkerReactor where
  "demo_reactor = \<lparr>wakeup_read_fd = 3, wakeup_write_fd = 4,
     poll_fds = [\<lparr>pfd_fd = 3, pfd_revents = {}\<rparr>, \<lparr>pfd_fd = 7, pfd_revents = {POLLHUP}\<rparr>,
       \<lparr>pfd_fd = 8, pfd_revents = {}\<rparr>, \<lparr>pfd_fd = 6, pfd_revents = {POLLIN}\<rparr>],
     parsers = [7 \<mapsto> new_parser, 8 \<mapsto> new_parser, 6 \<mapsto> new_parser], pending_clients = [9]\<rparr>"

lemma demo_reactor_fields:
  "poll_fds demo_reactor = [\<lparr>pfd_fd = 3, pfd_revents = {}\<rparr>, \<lparr>pfd_fd = 7, pfd_revents = {POLLHUP}\<rparr>,
     \<lparr>pfd_fd = 8, pfd_revents = {}\<rparr>, \<lparr>pfd_fd = 6, pfd_revents = {POLLIN}\<rparr>]"
  "pending_clients demo_reactor = [9]" "wakeup_read_fd demo_reactor = 3" "parsers demo_reactor 9 = None"
  by (simp_all add: demo_reactor_def)

lemma quiet_os_poll: "sys_poll quiet_os fds t w = ((2, map (\<lambda>(fd, _). if fd = 8 then {} else {POLLIN}) fds), w)"
  by (simp add: quiet_os_def)

lemma demo_reactor_inv: "reactor_inv demo_reactor"
  by (auto simp: reactor_inv_def demo_reactor_def)

lemma quiet_service_returns: "service_client quiet_os r store i w \<noteq> None"
proof -
  let ?fd = "pfd_fd (poll_fds r ! i)"
  have b: "service_reads quiet_os ?fd r store w = Some (Inr (?fd = 7, r, store), w)"
    by (subst service_reads.simps) (simp add: quiet_os_def)
  show ?thesis unfolding service_client_def by (simp add: b close_client_def Let_def)
qed

section \<open>Properties\<close>

text \<open>
  The request handler implements the abstract key-value specification: for every request the bytes
  it returns encode the specified response, and the store afterwards holds the specified map, with its
  invariant.
\<close>

theorem handle_request_refines_spec:
  assumes "kv_inv store" "spec_step (kv_abs store) req = (resp, m')"
  shows "\<exists>store'. handle_request store req = (encode_response resp, store') \<and> kv_abs store' = m' \<and> kv_inv store'"
  using handle_request_spec [OF assms(1), of req] assms(2)
  by (intro exI [of _ "snd (handle_request store req)"]) (simp add: prod_eq_iff)

theorem handle_request_refines_spec_witness:
  "\<exists>store'. handle_request new_store \<lparr>command = Delete, key = ''a'', req_value = []\<rparr> = (encode_response (reply NotFound), store') \<and>
     kv_abs store' = Map.empty \<and> kv_inv store'"
  by (rule handle_request_refines_spec [OF kv_inv_new]) (simp add: spec_step_def)



lemma demo_run_once:
  obtains r' store' w' where "run_once quiet_os id demo_reactor new_store (small_world0 (\<lambda>_. [])) = Some (Inr (r', store'), w')"
proof -
  let ?w = "small_world0 (\<lambda>_. [])"
  have drain: "drain_wakeup_pipe quiet_os 3 ?w = Some (Inr (), ?w)"
    by (subst drain_wakeup_pipe.simps) (simp add: quiet_os_def)
  let ?r1 = "demo_reactor\<lparr>poll_fds := [\<lparr>pfd_fd = 3, pfd_revents = {POLLIN}\<rparr>, \<lparr>pfd_fd = 7, pfd_revents = {POLLIN}\<rparr>,
      \<lparr>pfd_fd = 8, pfd_revents = {}\<rparr>, \<lparr>pfd_fd = 6, pfd_revents = {POLLIN}\<rparr>]\<rparr>"
  let ?r2 = "?r1\<lparr>poll_fds := poll_fds ?r1 @ [\<lparr>pfd_fd = 9, pfd_revents = {}\<rparr>],
      parsers := (parsers ?r1)(9 \<mapsto> new_parser), pending_clients := []\<rparr>"
  have "reactor_inv ?r1" using demo_reactor_inv by (auto simp: reactor_inv_fds demo_reactor_def)
  then have inv: "reactor_inv ?r2" by (auto simp: reactor_inv_fds demo_reactor_def)
  have "accept_pending_clients quiet_os id ?r1 ?w = Some (Inr ?r2, ?w)"
    by (simp add: accept_pending_clients_def demo_reactor_fields set_nonblocking_def set_tcp_nodelay_def
        quiet_os_def small_os_def)
  then have "run_once quiet_os id demo_reactor new_store ?w = sweep (service_client quiet_os) ?r2 new_store 1 ?w"
    by (simp add: run_once_def demo_reactor_fields quiet_os_poll drain Let_def)
  moreover obtain r' store' w' where "sweep (service_client quiet_os) ?r2 new_store 1 ?w = Some (Inr (r', store'), w')"
    using sweep_services_ready [OF quiet_service_returns inv zero_less_one, of new_store ?w "[]"] by blast
  ultimately show ?thesis by (intro that) simp
qed

text \<open>
  C20: Slot 0 of \<^verbatim>\<open>poll_fds_\<close> is the wake-up pipe, the descriptors polled are pairwise different, and
  exactly the connections polled have a parser: an iteration of \<^verbatim>\<open>run\<close> keeps this, for any input and
  any mixture of new, ready, closing and failing connections. So \<^verbatim>\<open>parsers_.at(fd)\<close> never throws
  \<^verbatim>\<open>out_of_range\<close>, and no exception but the runtime errors of failed system calls leaves it.
\<close>

theorem run_once_keeps_bookkeeping:
  assumes "reactor_inv r" "distinct (pending_clients r)" "set (pending_clients r) \<inter> set (map pfd_fd (poll_fds r)) = {}"
    and "\<And>fds t w. length (snd (fst (sys_poll os fds t w))) = length fds"
    and "run_once os nb r store w = Some (res, w')"
  shows "case res of Inl e \<Rightarrow> \<exists>m. e = Runtime_error m | Inr (r', store') \<Rightarrow> reactor_inv r'"
  using run_once_inv [OF assms] by auto

theorem run_once_keeps_bookkeeping_witness:
  "\<exists>res w'. run_once quiet_os id demo_reactor new_store (small_world0 (\<lambda>_. [])) = Some (res, w') \<and>
     (case res of Inl e \<Rightarrow> \<exists>m. e = Runtime_error m | Inr (r', store') \<Rightarrow> reactor_inv r')"
proof -
  have len: "length (snd (fst (sys_poll quiet_os fds t w))) = length fds" for fds t w
    by (simp add: quiet_os_def)
  have pending: "distinct (pending_clients demo_reactor)"
    "set (pending_clients demo_reactor) \<inter> set (map pfd_fd (poll_fds demo_reactor)) = {}"
    by (simp_all add: demo_reactor_def)
  obtain r' store' w' where "run_once quiet_os id demo_reactor new_store (small_world0 (\<lambda>_. [])) = Some (Inr (r', store'), w')"
    by (rule demo_run_once)
  with run_once_keeps_bookkeeping [OF demo_reactor_inv pending len this] show ?thesis by blast
qed



text \<open>
  C31: A client that sends more than the limit of 265 bytes without a line feed stops its reactor: the
  parser reports the over-long line and keeps it, so the loop that answers parse errors never ends, and
  \<^verbatim>\<open>service_client\<close> does not return. All connections of this reactor starve.
\<close>

theorem overlong_line_hangs_reactor:
  assumes "parsers r (pfd_fd (poll_fds r ! i)) = Some p" "buffer p = []"
    and "sys_read os (pfd_fd (poll_fds r ! i)) 4096 w = (Some line, w1)"
    and "kMaxCommandLineLen < length line" "LF \<notin> set line"
  shows "service_client os r store i w = None"
proof -
  have "stuck (feed p line)" using assms(2,4,5) by (simp add: stuck_def)
  note hang = serve_requests_stuck [OF this]
  have "line \<noteq> []" using assms(4) by auto
  then have "service_reads os (pfd_fd (poll_fds r ! i)) r store w = None"
    using assms(1,3) by (subst service_reads.simps) (simp add: hang)
  then show ?thesis by (simp add: service_client_def)
qed

theorem overlong_line_hangs_reactor_witness:
  "service_client flood_os demo_reactor new_store 1 (small_world0 (\<lambda>_. [])) = None"
  by (rule overlong_line_hangs_reactor [where p = new_parser and line = "replicate 300 CHR ''A''"])
    (simp_all add: demo_reactor_def flood_os_def kMaxCommandLineLen_def limit_defs)

end
