(* ===== verification/Router.thy ===== *)
theory Router
  imports Failure_Detector Hash_Ring Reactor
begin

text \<open>
  \<^verbatim>\<open>src/router/router.cpp\<close>: the replicating router. A write goes to every live replica of its key, a
  read to the first live replica that answers; a replica that fails is marked down at once and the
  request goes on to the next. The detector and a client thread's cached connections are passed and
  returned; an exception that leaves \<open>handle_client\<close> leaves a detached thread, which terminates the
  process.

  What the router relies on is one predicate, \<open>kv_backends\<close>: an exchange with a node either fails, with
  the request applied or not, or returns the response of the key-value specification and has applied
  the request. \<open>Cluster\<close> shows that nodes running the modelled server satisfy it.

  Shown: where writes arrive and what the client is told, that reads fail over within the request as
  long as one live replica answers, that a read after an acknowledged write returns that value or
  an error, and how the router's client loop behaves.
\<close>

section \<open>The router\<close>

definition kHeartbeatInterval :: nat where "kHeartbeatInterval = 200"
definition kHeartbeatTimeout :: nat where "kHeartbeatTimeout = 400"

definition no_live_replica_error :: "nat \<Rightarrow> Response" where
  "no_live_replica_error tried =
     \<lparr>resp_type = Error, resp_value = [], resp_message = ''no live replica for key (tried '' @ to_string tried @ '')''\<rparr>"

record Router =
  router_socket :: Socket
  router_nodes :: "NodeAddress list"
  router_ring :: ConsistentHashRing
  replication_factor :: nat

text \<open>The constructor; the detector, shared by all threads, is kept beside the immutable rest.\<close>

definition new_router ::
  "'w os \<Rightarrow> 16 word \<Rightarrow> NodeAddress list \<Rightarrow> nat \<Rightarrow> nat \<Rightarrow> ('w, Router \<times> FailureDetector) io" where
  "new_router os p ns vnodes_per_node factor =
     io_bind (create_listening_socket os p 128) (\<lambda>sock.
       io_return
         (\<lparr>router_socket = sock, router_nodes = ns, router_ring = build_ring vnodes_per_node (map node_id ns),
           replication_factor = max 1 factor\<rparr>,
          start (new_detector ns kHeartbeatInterval kHeartbeatTimeout)))"

definition find_address :: "Router \<Rightarrow> bytes \<Rightarrow> NodeAddress option" where
  "find_address r n = find (\<lambda>a. node_id a = n) (router_nodes r)"

text \<open>The connections one client thread has cached, by node id.\<close>

type_synonym BackendConns = "(bytes \<times> Socket) list"

definition backend_connection :: "'w os \<Rightarrow> Router \<Rightarrow> bytes \<Rightarrow> BackendConns \<Rightarrow> ('w, Socket \<times> BackendConns) io" where
  "backend_connection os r n conns =
     (case map_of conns n of
        Some sock \<Rightarrow> io_return (sock, conns)
      | None \<Rightarrow>
          (case find_address r n of
             None \<Rightarrow> io_throw (''ring returned unknown node id: '' @ n)
           | Some addr \<Rightarrow>
               io_bind (connect_to os (host addr) (port addr)) (\<lambda>sock.
                 io_catch
                   (io_bind (set_tcp_nodelay os (sock_fd sock)) (\<lambda>_. io_return (sock, conns @ [(n, sock)])))
                   (\<lambda>e w. Some (Inl e, destroy_socket os sock w)))))"

text \<open>\<^verbatim>\<open>conns.erase(node_id)\<close>: the socket's destructor closes the connection.\<close>

definition erase_conn :: "'w os \<Rightarrow> bytes \<Rightarrow> BackendConns \<Rightarrow> 'w \<Rightarrow> BackendConns \<times> 'w" where
  "erase_conn os n conns w =
     (filter (\<lambda>c. fst c \<noteq> n) conns, case map_of conns n of None \<Rightarrow> w | Some sock \<Rightarrow> destroy_socket os sock w)"

text \<open>The \<^verbatim>\<open>try\<close> block of the two loops: the response or the exception, and the connections then cached.\<close>

definition forward :: "'w os \<Rightarrow> Router \<Rightarrow> bytes \<Rightarrow> Request \<Rightarrow> BackendConns \<Rightarrow> ('w, (exn + Response) \<times> BackendConns) io" where
  "forward os r n req conns w =
     (case backend_connection os r n conns w of
        None \<Rightarrow> None
      | Some (Inl e, w1) \<Rightarrow> Some (Inr (Inl e, conns), w1)
      | Some (Inr (sock, conns'), w1) \<Rightarrow>
          map_option (\<lambda>(res, w2). (Inr (res, conns'), w2)) (send_request os (sock_fd sock) req w1))"

text \<open>The block with its handler: \<open>None\<close> if the replica failed.\<close>

definition try_replica ::
  "'w os \<Rightarrow> Router \<Rightarrow> Request \<Rightarrow> bytes \<Rightarrow> FailureDetector \<Rightarrow> BackendConns \<Rightarrow>
   ('w, Response option \<times> FailureDetector \<times> BackendConns) io" where
  "try_replica os r req n det conns =
     io_bind (forward os r n req conns) (\<lambda>(res, conns).
       case res of
         Inr resp \<Rightarrow> io_return (Some resp, det, conns)
       | Inl e \<Rightarrow> io_bind (io_call (erase_conn os n conns)) (\<lambda>conns. io_return (None, mark_down det n, conns)))"

fun try_writes ::
  "'w os \<Rightarrow> Router \<Rightarrow> Request \<Rightarrow> bytes list \<Rightarrow> Response option \<Rightarrow> FailureDetector \<Rightarrow> BackendConns \<Rightarrow>
   ('w, Response option \<times> FailureDetector \<times> BackendConns) io" where
  "try_writes os r req [] first_success det conns = io_return (first_success, det, conns)"
| "try_writes os r req (n # ns) first_success det conns =
     (if \<not> is_alive det n then try_writes os r req ns first_success det conns
      else io_bind (try_replica os r req n det conns) (\<lambda>(resp, det, conns).
        try_writes os r req ns (case first_success of None \<Rightarrow> resp | Some x \<Rightarrow> Some x) det conns))"

fun try_reads ::
  "'w os \<Rightarrow> Router \<Rightarrow> Request \<Rightarrow> bytes list \<Rightarrow> FailureDetector \<Rightarrow> BackendConns \<Rightarrow>
   ('w, Response option \<times> FailureDetector \<times> BackendConns) io" where
  "try_reads os r req [] det conns = io_return (None, det, conns)"
| "try_reads os r req (n # ns) det conns =
     (if \<not> is_alive det n then try_reads os r req ns det conns
      else io_bind (try_replica os r req n det conns) (\<lambda>(resp, det, conns).
        case resp of
          Some x \<Rightarrow> io_return (Some x, det, conns)
        | None \<Rightarrow> try_reads os r req ns det conns))"

text \<open>The preference list may throw (an empty ring) or not return at all.\<close>

definition with_replicas :: "Router \<Rightarrow> Request \<Rightarrow> (bytes list \<Rightarrow> ('w, 'a) io) \<Rightarrow> ('w, 'a) io" where
  "with_replicas r req f w =
     (case get_nodes (router_ring r) (key req) (replication_factor r) of
        None \<Rightarrow> None
      | Some (Inl e) \<Rightarrow> Some (Inl e, w)
      | Some (Inr preference_list) \<Rightarrow> f preference_list w)"

definition route_write ::
  "'w os \<Rightarrow> Router \<Rightarrow> Request \<Rightarrow> FailureDetector \<Rightarrow> BackendConns \<Rightarrow>
   ('w, Response \<times> FailureDetector \<times> BackendConns) io" where
  "route_write os r req det conns =
     with_replicas r req (\<lambda>preference_list.
       io_bind (try_writes os r req preference_list None det conns) (\<lambda>(resp, det, conns).
         io_return (case resp of None \<Rightarrow> no_live_replica_error (length preference_list) | Some x \<Rightarrow> x, det, conns)))"

definition route_read ::
  "'w os \<Rightarrow> Router \<Rightarrow> Request \<Rightarrow> FailureDetector \<Rightarrow> BackendConns \<Rightarrow>
   ('w, Response \<times> FailureDetector \<times> BackendConns) io" where
  "route_read os r req det conns =
     with_replicas r req (\<lambda>preference_list.
       io_bind (try_reads os r req preference_list det conns) (\<lambda>(resp, det, conns).
         io_return (case resp of None \<Rightarrow> no_live_replica_error (length preference_list) | Some x \<Rightarrow> x, det, conns)))"

text \<open>The answer to one complete request: a ping locally, a read or a write through the replicas.\<close>

definition route_request ::
  "'w os \<Rightarrow> Router \<Rightarrow> Request \<Rightarrow> FailureDetector \<Rightarrow> BackendConns \<Rightarrow>
   ('w, bytes \<times> FailureDetector \<times> BackendConns) io" where
  "route_request os r req det conns =
     (if command req = Ping then io_return (encode_pong_response, det, conns)
      else io_bind (if command req = Get then route_read os r req det conns else route_write os r req det conns)
        (\<lambda>(resp, det, conns). io_return (encode_response resp, det, conns)))"

partial_function (option) route_requests ::
  "'w os \<Rightarrow> Router \<Rightarrow> int \<Rightarrow> IncrementalParser \<Rightarrow> Request \<Rightarrow> FailureDetector \<Rightarrow> BackendConns \<Rightarrow>
   ('w, IncrementalParser \<times> FailureDetector \<times> BackendConns) io" where
  "route_requests os r fd parser req det conns w =
     (let (status, parser, req) = try_parse_request parser req in
      if status = Incomplete then Some (Inr (parser, det, conns), w)
      else if status = ParseError then
        io_bind (router_write_all os fd (encode_error_response (error_message parser))) (\<lambda>_.
          route_requests os r fd parser req det conns) w
      else
        io_bind (route_request os r req det conns) (\<lambda>(response_bytes, det, conns) w.
          io_bind (router_write_all os fd response_bytes) (\<lambda>_.
            route_requests os r fd parser req det conns) w) w)"

partial_function (option) client_reads ::
  "'w os \<Rightarrow> Router \<Rightarrow> int \<Rightarrow> IncrementalParser \<Rightarrow> FailureDetector \<Rightarrow> BackendConns \<Rightarrow>
   ('w, FailureDetector \<times> BackendConns) io" where
  "client_reads os r fd parser det conns w =
     (let (n, w1) = sys_read os fd 4096 w in
      (case n of
         None \<Rightarrow> Some (Inr (det, conns), w1)
       | Some chunk \<Rightarrow>
           if chunk = [] then Some (Inr (det, conns), w1)
           else io_bind (route_requests os r fd (feed parser chunk) new_request det conns)
             (\<lambda>(parser, det, conns) w. client_reads os r fd parser det conns w) w1))"

text \<open>\<^verbatim>\<open>handle_client\<close>: at the end the client is closed and the cached connections are destroyed.\<close>

definition handle_client :: "'w os \<Rightarrow> Router \<Rightarrow> int \<Rightarrow> FailureDetector \<Rightarrow> ('w, FailureDetector) io" where
  "handle_client os r fd det =
     io_bind (client_reads os r fd new_parser det []) (\<lambda>(det, conns) w.
       Some (Inr det, fold (\<lambda>c. destroy_socket os (snd c)) conns (sys_close os fd w)))"

text \<open>One iteration of \<^verbatim>\<open>Router::run\<close>: the client for which a thread is started, if any.\<close>

definition router_accept_once :: "'w os \<Rightarrow> Router \<Rightarrow> ('w, int option) io" where
  "router_accept_once os r =
     io_bind (io_call (sys_accept os (sock_fd (router_socket r)))) (\<lambda>client_fd.
       if client_fd < 0 then io_return None
       else io_bind (set_tcp_nodelay os client_fd) (\<lambda>_. io_return (Some client_fd)))"

section \<open>What the router relies on\<close>

text \<open>
  \<open>contents w n\<close> is the map node \<open>n\<close> holds in world \<open>w\<close>; \<open>valid w conns\<close> says that cached connections lead
  to the node they are cached for. An exchange touches one node only. If it fails, the node may have applied the
  request or not.
\<close>

definition kv_backends ::
  "'w os \<Rightarrow> Router \<Rightarrow> ('w \<Rightarrow> bytes \<Rightarrow> bytes \<rightharpoonup> bytes) \<Rightarrow> ('w \<Rightarrow> BackendConns \<Rightarrow> bool) \<Rightarrow> bool" where
  "kv_backends os r contents valid \<longleftrightarrow>
     (\<forall>n req conns w. n \<in> node_id ` set (router_nodes r) \<longrightarrow> wf_request req \<longrightarrow> valid w conns \<longrightarrow>
        (\<exists>res conns' w'. forward os r n req conns w = Some (Inr (res, conns'), w') \<and> valid w' conns' \<and>
           (\<forall>m. m \<noteq> n \<longrightarrow> contents w' m = contents w m) \<and>
           (case res of
              Inr resp \<Rightarrow> spec_step (contents w n) req = (resp, contents w' n)
            | Inl e \<Rightarrow> contents w' n = contents w n \<or> contents w' n = snd (spec_step (contents w n) req)))) \<and>
     (\<forall>n conns w. valid w conns \<longrightarrow>
        valid (snd (erase_conn os n conns w)) (fst (erase_conn os n conns w)) \<and>
        contents (snd (erase_conn os n conns w)) = contents w)"

text \<open>Node \<open>n\<close> answers this request whenever it is asked.\<close>

definition answers ::
  "'w os \<Rightarrow> Router \<Rightarrow> ('w \<Rightarrow> BackendConns \<Rightarrow> bool) \<Rightarrow> Request \<Rightarrow> bytes \<Rightarrow> bool" where
  "answers os r valid req n \<longleftrightarrow>
     (\<forall>conns w. valid w conns \<longrightarrow> (\<exists>resp conns' w'. forward os r n req conns w = Some (Inr (Inr resp, conns'), w')))"

lemma kv_backends_forward:
  assumes "kv_backends os r contents valid" "n \<in> node_id ` set (router_nodes r)" "wf_request req" "valid w conns"
  obtains res conns' w' where "forward os r n req conns w = Some (Inr (res, conns'), w')" "valid w' conns'"
    "\<And>m. m \<noteq> n \<Longrightarrow> contents w' m = contents w m"
    "case res of Inr resp \<Rightarrow> spec_step (contents w n) req = (resp, contents w' n)
      | Inl e \<Rightarrow> contents w' n = contents w n \<or> contents w' n = snd (spec_step (contents w n) req)"
  using assms(1) [unfolded kv_backends_def, THEN conjunct1, THEN spec [where x = n], THEN spec [where x = req],
    THEN spec [where x = conns], THEN spec [where x = w]] assms(2-4)
  by blast

lemma kv_backends_erase:
  assumes "kv_backends os r contents valid" "valid w conns"
  shows "valid (snd (erase_conn os n conns w)) (fst (erase_conn os n conns w))"
    and "contents (snd (erase_conn os n conns w)) = contents w"
  using assms unfolding kv_backends_def by blast+

text \<open>
  One replica, tried under these promises: it either answers and has applied the request, and the detector
  is unchanged; or it is marked down.
\<close>

lemma try_replica_outcome:
  assumes backends: "kv_backends os r contents valid" and n: "n \<in> node_id ` set (router_nodes r)"
    and req: "wf_request req" and ok: "valid w conns"
  obtains resp det' conns' w' where "try_replica os r req n det conns w = Some (Inr (resp, det', conns'), w')"
    "valid w' conns'" "\<And>m. m \<noteq> n \<Longrightarrow> contents w' m = contents w m"
    "resp = None \<and> det' = mark_down det n \<and> \<not> answers os r valid req n \<and>
       (contents w' n = contents w n \<or> contents w' n = snd (spec_step (contents w n) req)) \<or>
     resp = Some (fst (spec_step (contents w n) req)) \<and> det' = det \<and> contents w' n = snd (spec_step (contents w n) req)"
proof -
  obtain res conns1 w1 where fw: "forward os r n req conns w = Some (Inr (res, conns1), w1)" "valid w1 conns1"
    "\<And>m. m \<noteq> n \<Longrightarrow> contents w1 m = contents w m"
    "case res of Inr resp \<Rightarrow> spec_step (contents w n) req = (resp, contents w1 n)
      | Inl e \<Rightarrow> contents w1 n = contents w n \<or> contents w1 n = snd (spec_step (contents w n) req)"
    using kv_backends_forward [OF backends n req ok] by blast
  show ?thesis
  proof (cases res)
    case (Inl e)
    let ?e = "erase_conn os n conns1 w1"
    have "try_replica os r req n det conns w = Some (Inr (None, mark_down det n, fst ?e), snd ?e)"
      using fw(1) Inl by (simp add: try_replica_def)
    moreover have "\<not> answers os r valid req n" using fw(1) Inl ok unfolding answers_def by fastforce
    ultimately show ?thesis
      using kv_backends_erase [OF backends fw(2), of n] fw(3,4) Inl by (intro that [of None _ "fst ?e" "snd ?e"]) simp_all
  next
    case (Inr resp)
    have "try_replica os r req n det conns w = Some (Inr (Some resp, det, conns1), w1)"
      using fw(1) Inr by (simp add: try_replica_def)
    then show ?thesis using fw(2-) Inr by (intro that [of "Some resp" _ conns1 w1]) simp_all
  qed
qed

section \<open>The two loops\<close>

text \<open>
  What both loops do to the cluster, for the replicas \<open>ns\<close> they were given: the nodes that are still alive
  afterwards are those that were alive and did not fail, no other node is touched, and the client is told the
  response of the first of them.
\<close>

definition routed ::
  "('w \<Rightarrow> bytes \<Rightarrow> bytes \<rightharpoonup> bytes) \<Rightarrow> Request \<Rightarrow> bytes list \<Rightarrow> 'w \<Rightarrow> FailureDetector \<Rightarrow> 'w \<Rightarrow> FailureDetector \<Rightarrow> Response option \<Rightarrow> bool" where
  "routed contents req ns w det w' det' resp \<longleftrightarrow>
     (\<forall>m. is_alive det' m \<longrightarrow> is_alive det m) \<and> (\<forall>m. m \<notin> set ns \<longrightarrow> is_alive det' m = is_alive det m) \<and>
     (\<forall>m. m \<notin> set ns \<or> \<not> is_alive det m \<longrightarrow> contents w' m = contents w m) \<and>
     resp = (case filter (is_alive det') ns of [] \<Rightarrow> None | m # _ \<Rightarrow> Some (fst (spec_step (contents w m) req)))"

lemma is_alive_mark_down [simp]: "is_alive (mark_down det n) m \<longleftrightarrow> m \<noteq> n \<and> is_alive det m"
  by (rule table.alive_down)

lemma routed_dead:
  assumes "routed contents req ns w det w' det' resp" "\<not> is_alive det n"
  shows "routed contents req (n # ns) w det w' det' resp"
proof -
  have "\<not> is_alive det' n" using assms unfolding routed_def by blast
  with assms show ?thesis by (simp add: routed_def)
qed

lemma routed_failed:
  assumes rest: "routed contents req ns w1 (mark_down det n) w' det' resp" and n: "n \<notin> set ns" "is_alive det n"
    and others: "\<And>m. m \<noteq> n \<Longrightarrow> contents w1 m = contents w m"
  shows "routed contents req (n # ns) w det w' det' resp"
proof -
  have "\<not> is_alive det' n" using rest unfolding routed_def is_alive_mark_down by blast
  moreover have "contents w1 m = contents w m" if "m \<in> set ns" for m using that n others by metis
  then have "contents w1 (hd (filter (is_alive det') ns)) = contents w (hd (filter (is_alive det') ns))"
    if "filter (is_alive det') ns \<noteq> []"
    using that hd_in_set [OF that] by auto
  moreover have "contents w1 m = contents w m" if "\<not> is_alive det m" for m using that n(2) others by metis
  ultimately show ?thesis using rest n others unfolding routed_def by (auto split: list.splits)
qed

lemma routed_answered:
  assumes rest: "routed contents req ns w1 det w' det' resp" and n: "n \<notin> set ns" "is_alive det n"
    and others: "\<And>m. m \<noteq> n \<Longrightarrow> contents w1 m = contents w m"
  shows "routed contents req (n # ns) w det w' det' (Some (fst (spec_step (contents w n) req)))"
proof -
  have "contents w1 m = contents w m" if "\<not> is_alive det m" for m using that n(2) others by metis
  with assms show ?thesis unfolding routed_def by auto
qed

lemma try_writes_routed:
  assumes backends: "kv_backends os r contents valid" and req: "wf_request req"
    and "set ns \<subseteq> node_id ` set (router_nodes r)" "distinct ns" "valid w conns"
  shows "\<exists>resp det' conns' w'.
    try_writes os r req ns first det conns w = Some (Inr (case first of None \<Rightarrow> resp | Some x \<Rightarrow> Some x, det', conns'), w') \<and>
    valid w' conns' \<and> routed contents req ns w det w' det' resp \<and>
    (\<forall>m \<in> set ns. is_alive det' m \<longrightarrow> contents w' m = snd (spec_step (contents w m) req)) \<and>
    (\<forall>m \<in> set ns. is_alive det m \<and> answers os r valid req m \<longrightarrow> is_alive det' m)"
  using assms(3-5)
proof (induction ns arbitrary: first det conns w)
  case Nil
  then show ?case by (auto simp: routed_def split: option.splits)
next
  case (Cons n ns)
  show ?case
  proof (cases "is_alive det n")
    case False
    with Cons.IH [of w conns first det] Cons.prems obtain resp det' conns' w' where
      run: "try_writes os r req ns first det conns w = Some (Inr (case first of None \<Rightarrow> resp | Some x \<Rightarrow> Some x, det', conns'), w')"
        "valid w' conns'" "routed contents req ns w det w' det' resp"
        "\<forall>m \<in> set ns. is_alive det' m \<longrightarrow> contents w' m = snd (spec_step (contents w m) req)"
        "\<forall>m \<in> set ns. is_alive det m \<and> answers os r valid req m \<longrightarrow> is_alive det' m"
      by auto
    have "\<not> is_alive det' n" using run(3) False unfolding routed_def by blast
    with run routed_dead [OF run(3) False] False show ?thesis
      by (intro exI [of _ resp] exI [of _ det'] exI [of _ conns'] exI [of _ w']) simp
  next
    case True
    from Cons.prems have n: "n \<in> node_id ` set (router_nodes r)" by simp
    obtain x det1 conns1 w1 where one: "try_replica os r req n det conns w = Some (Inr (x, det1, conns1), w1)"
      "valid w1 conns1" "\<And>m. m \<noteq> n \<Longrightarrow> contents w1 m = contents w m"
      "x = None \<and> det1 = mark_down det n \<and> \<not> answers os r valid req n \<and>
         (contents w1 n = contents w n \<or> contents w1 n = snd (spec_step (contents w n) req)) \<or>
       x = Some (fst (spec_step (contents w n) req)) \<and> det1 = det \<and> contents w1 n = snd (spec_step (contents w n) req)"
      using try_replica_outcome [OF backends n req Cons.prems(3)] by metis
    let ?first = "case first of None \<Rightarrow> x | Some x \<Rightarrow> Some x"
    from Cons.IH [of w1 conns1 ?first det1] Cons.prems one(2) obtain resp det' conns' w' where
      run: "try_writes os r req ns ?first det1 conns1 w1 = Some (Inr (case ?first of None \<Rightarrow> resp | Some x \<Rightarrow> Some x, det', conns'), w')"
        "valid w' conns'" "routed contents req ns w1 det1 w' det' resp"
        "\<forall>m \<in> set ns. is_alive det' m \<longrightarrow> contents w' m = snd (spec_step (contents w1 m) req)"
        "\<forall>m \<in> set ns. is_alive det1 m \<and> answers os r valid req m \<longrightarrow> is_alive det' m"
      by auto
    have n_out: "n \<notin> set ns" using Cons.prems by simp
    have same: "contents w1 m = contents w m" if "m \<in> set ns" for m using that n_out one(3) by metis
    have step: "try_writes os r req (n # ns) first det conns w = try_writes os r req ns ?first det1 conns1 w1"
      using True one(1) by simp
    show ?thesis
    proof (cases x)
      case None
      then have x: "x = None" "det1 = mark_down det n" "\<not> answers os r valid req n" using one(4) by simp_all
      have "\<not> is_alive det' n" using run(3) x(2) n_out unfolding routed_def by simp
      moreover have "routed contents req (n # ns) w det w' det' resp"
        using routed_failed [of contents req ns w1 det n w' det' resp w] run(3) x(2) n_out True one(3) by metis
      ultimately show ?thesis using run x same n_out unfolding step
        by (intro exI [of _ resp] exI [of _ det'] exI [of _ conns'] exI [of _ w']) (auto split: option.split)
    next
      case (Some y)
      then have x: "x = Some (fst (spec_step (contents w n) req))" "det1 = det" "contents w1 n = snd (spec_step (contents w n) req)"
        using one(4) by simp_all
      have "is_alive det' n" "contents w' n = contents w1 n" using run(3) x(2) n_out True unfolding routed_def by simp_all
      moreover have "routed contents req (n # ns) w det w' det' x"
        using routed_answered [of contents req ns w1 det w' det' resp n w] run(3) x n_out True one(3) by metis
      ultimately show ?thesis using run x same n_out unfolding step
        by (intro exI [of _ x] exI [of _ det'] exI [of _ conns'] exI [of _ w']) (auto split: option.split)
    qed
  qed
qed

lemma try_reads_routed:
  assumes backends: "kv_backends os r contents valid" and req: "wf_request req"
    and "set ns \<subseteq> node_id ` set (router_nodes r)" "distinct ns" "valid w conns"
  shows "\<exists>resp det' conns' w'. try_reads os r req ns det conns w = Some (Inr (resp, det', conns'), w') \<and>
    valid w' conns' \<and> routed contents req ns w det w' det' resp \<and>
    (\<forall>m. contents w' m = contents w m \<or> contents w' m = snd (spec_step (contents w m) req)) \<and>
    (\<forall>m \<in> set ns. is_alive det m \<and> answers os r valid req m \<longrightarrow> is_alive det' m)"
  using assms(3-5)
proof (induction ns arbitrary: det conns w)
  case Nil
  then show ?case by (auto simp: routed_def)
next
  case (Cons n ns)
  from Cons.prems have n: "n \<in> node_id ` set (router_nodes r)" and n_out: "n \<notin> set ns" by simp_all
  show ?case
  proof (cases "is_alive det n")
    case False
    with Cons.IH [of w conns det] Cons.prems obtain resp det' conns' w' where
      run: "try_reads os r req ns det conns w = Some (Inr (resp, det', conns'), w')" "valid w' conns'"
        "routed contents req ns w det w' det' resp"
        "\<forall>m. contents w' m = contents w m \<or> contents w' m = snd (spec_step (contents w m) req)"
        "\<forall>m \<in> set ns. is_alive det m \<and> answers os r valid req m \<longrightarrow> is_alive det' m"
      by auto
    with routed_dead [OF run(3) False] False show ?thesis
      by (intro exI [of _ resp] exI [of _ det'] exI [of _ conns'] exI [of _ w']) simp
  next
    case True
    obtain x det1 conns1 w1 where one: "try_replica os r req n det conns w = Some (Inr (x, det1, conns1), w1)"
      "valid w1 conns1" "\<And>m. m \<noteq> n \<Longrightarrow> contents w1 m = contents w m"
      "x = None \<and> det1 = mark_down det n \<and> \<not> answers os r valid req n \<and>
         (contents w1 n = contents w n \<or> contents w1 n = snd (spec_step (contents w n) req)) \<or>
       x = Some (fst (spec_step (contents w n) req)) \<and> det1 = det \<and> contents w1 n = snd (spec_step (contents w n) req)"
      using try_replica_outcome [OF backends n req Cons.prems(3)] by metis
    show ?thesis
    proof (cases x)
      case None
      then have x: "det1 = mark_down det n" "\<not> answers os r valid req n"
        "contents w1 n = contents w n \<or> contents w1 n = snd (spec_step (contents w n) req)"
        using one(4) by simp_all
      obtain resp det' conns' w' where
        run: "try_reads os r req ns det1 conns1 w1 = Some (Inr (resp, det', conns'), w')" "valid w' conns'"
          "routed contents req ns w1 det1 w' det' resp"
          "\<forall>m. contents w' m = contents w1 m \<or> contents w' m = snd (spec_step (contents w1 m) req)"
          "\<forall>m \<in> set ns. is_alive det1 m \<and> answers os r valid req m \<longrightarrow> is_alive det' m"
        using Cons.IH [of w1 conns1 det1] Cons.prems one(2) by auto
      have "routed contents req (n # ns) w det w' det' resp"
        using routed_failed [of contents req ns w1 det n w' det' resp w] run(3) x(1) n_out True one(3) by metis
      moreover have "contents w' n = contents w1 n" using run(3) n_out unfolding routed_def by blast
      then have "contents w' m = contents w m \<or> contents w' m = snd (spec_step (contents w m) req)" for m
        using x(3) one(3) [of m] run(4) [THEN spec, of m] by (cases "m = n") simp_all
      ultimately show ?thesis using one(1) run(1,2,5) x(1,2) None True n_out
        by (intro exI [of _ resp] exI [of _ det'] exI [of _ conns'] exI [of _ w']) auto
    next
      case (Some y)
      then have x: "x = Some (fst (spec_step (contents w n) req))" "det1 = det" "contents w1 n = snd (spec_step (contents w n) req)"
        using one(4) by simp_all
      have "routed contents req (n # ns) w det w1 det x"
        unfolding x(1) by (rule routed_answered [where ?w1.0 = w1 and resp = "case filter (is_alive det) ns of [] \<Rightarrow> None | m # _ \<Rightarrow> Some (fst (spec_step (contents w1 m) req))"])
          (use True one(3) n_out in \<open>auto simp: routed_def\<close>)
      moreover have "contents w1 m = contents w m \<or> contents w1 m = snd (spec_step (contents w m) req)" for m
        using x(3) one(3) by metis
      ultimately show ?thesis using one(1,2) x True
        by (intro exI [of _ x] exI [of _ det] exI [of _ conns1] exI [of _ w1]) simp
    qed
  qed
qed

section \<open>Requests\<close>

text \<open>
  A router as its constructor builds it, with different node ids and no collision of two nodes on the ring;
  then the preference list exists and is the first \<open>replication_factor\<close> distinct nodes from the key on.
\<close>

definition configured :: "Router \<Rightarrow> bool" where
  "configured r \<longleftrightarrow> router_nodes r \<noteq> [] \<and> 0 < replication_factor r \<and> distinct (map node_id (router_nodes r)) \<and>
     (\<exists>v > 0. router_ring r = build_ring v (map node_id (router_nodes r)) \<and> collision_free v (map node_id (router_nodes r)))"

definition replicas :: "Router \<Rightarrow> bytes \<Rightarrow> bytes list" where
  "replicas r k = take (min (replication_factor r) (length (router_nodes r))) (preference (router_ring r) k)"

lemma replicas_facts:
  assumes "configured r"
  shows "get_nodes (router_ring r) k (replication_factor r) = Some (Inr (replicas r k))"
    and "distinct (replicas r k)" and "set (replicas r k) \<subseteq> node_id ` set (router_nodes r)"
    and "length (replicas r k) = min (replication_factor r) (length (router_nodes r))"
proof -
  let ?ids = "map node_id (router_nodes r)"
  from assms obtain v where v: "0 < v" "router_ring r = build_ring v ?ids" "collision_free v ?ids" "distinct ?ids" "?ids \<noteq> []"
    unfolding configured_def by auto
  have len: "length (preference (router_ring r) k) = length (router_nodes r)"
    using length_preference_build_ring [OF v(1,4,3), of k] v(2) by simp
  have "ring (router_ring r) \<noteq> []" using ring_build_ring_nonempty [OF v(1,5)] v(2) by simp
  from get_nodes_eq [OF this, of k "replication_factor r"] len
  show "get_nodes (router_ring r) k (replication_factor r) = Some (Inr (replicas r k))"
    by (simp add: replicas_def v(2))
  show "distinct (replicas r k)" by (simp add: replicas_def)
  show "set (replicas r k) \<subseteq> node_id ` set (router_nodes r)"
    using set_take_subset [of _ "preference (router_ring r) k"] owners_subset_build_ring [of v ?ids]
    by (fastforce simp: replicas_def set_preference v(2))
  show "length (replicas r k) = min (replication_factor r) (length (router_nodes r))" by (simp add: replicas_def len)
qed

lemma new_router_configured:
  assumes "new_router os p ns v factor w = Some (Inr (r, det), w')"
    and "0 < v" "ns \<noteq> []" "distinct (map node_id ns)" "collision_free v (map node_id ns)"
  shows "configured r" and "is_alive det n \<longleftrightarrow> n \<in> node_id ` set (router_nodes r)"
proof -
  from assms(1) have r: "router_nodes r = ns" "router_ring r = build_ring v (map node_id ns)" "replication_factor r = max 1 factor"
    "det = start (new_detector ns kHeartbeatInterval kHeartbeatTimeout)"
    by (auto simp: new_router_def elim!: io_bind_SomeE)
  show "configured r" using assms r unfolding configured_def by auto
  show "is_alive det n \<longleftrightarrow> n \<in> node_id ` set (router_nodes r)"
    using is_alive_new [of ns kHeartbeatInterval kHeartbeatTimeout n] r by (simp add: is_alive_def start_def)
qed

text \<open>Every node's content, seen through the router: the replicas it would use agree with \<open>m\<close> on their keys.\<close>

definition coherent :: "Router \<Rightarrow> FailureDetector \<Rightarrow> (bytes \<Rightarrow> bytes \<rightharpoonup> bytes) \<Rightarrow> (bytes \<rightharpoonup> bytes) \<Rightarrow> bool" where
  "coherent r det c m \<longleftrightarrow> (\<forall>k. \<forall>n \<in> set (replicas r k). is_alive det n \<longrightarrow> c n k = m k)"

lemma spec_step_local:
  "k \<noteq> key req \<Longrightarrow> snd (spec_step m req) k = m k"
  "m (key req) = m' (key req) \<Longrightarrow> snd (spec_step m req) (key req) = snd (spec_step m' req) (key req)"
  "m (key req) = m' (key req) \<Longrightarrow> fst (spec_step m req) = fst (spec_step m' req)"
  by (auto simp: spec_step_def split: Command.split)

text \<open>A response, given the replicas the detector left alive: that of the first of them, or the error.\<close>

definition answer :: "Router \<Rightarrow> FailureDetector \<Rightarrow> (bytes \<Rightarrow> bytes \<rightharpoonup> bytes) \<Rightarrow> Request \<Rightarrow> Response" where
  "answer r det c req =
     (case filter (is_alive det) (replicas r (key req)) of
        [] \<Rightarrow> no_live_replica_error (length (replicas r (key req)))
      | n # _ \<Rightarrow> fst (spec_step (c n) req))"

lemma route_write_outcome:
  assumes "kv_backends os r contents valid" "configured r" "wf_request req" "valid w conns"
  shows "\<exists>det' conns' w'. route_write os r req det conns w = Some (Inr (answer r det' (contents w) req, det', conns'), w') \<and>
    valid w' conns' \<and> (\<exists>resp. routed contents req (replicas r (key req)) w det w' det' resp) \<and>
    (\<forall>n \<in> set (replicas r (key req)). is_alive det' n \<longrightarrow> contents w' n = snd (spec_step (contents w n) req)) \<and>
    (\<forall>n \<in> set (replicas r (key req)). is_alive det n \<and> answers os r valid req n \<longrightarrow> is_alive det' n)"
proof -
  note reps = replicas_facts [OF assms(2), of "key req"]
  obtain resp det' conns' w' where run:
    "try_writes os r req (replicas r (key req)) None det conns w = Some (Inr (resp, det', conns'), w')"
    "valid w' conns'" "routed contents req (replicas r (key req)) w det w' det' resp"
    "\<forall>m \<in> set (replicas r (key req)). is_alive det' m \<longrightarrow> contents w' m = snd (spec_step (contents w m) req)"
    "\<forall>m \<in> set (replicas r (key req)). is_alive det m \<and> answers os r valid req m \<longrightarrow> is_alive det' m"
    using try_writes_routed [OF assms(1,3) reps(3,2) assms(4), of None det] by auto
  have "route_write os r req det conns w = Some (Inr (answer r det' (contents w) req, det', conns'), w')"
    using run(1,3) reps(1) by (simp add: route_write_def with_replicas_def routed_def answer_def split: list.split)
  with run show ?thesis by blast
qed

lemma route_read_outcome:
  assumes "kv_backends os r contents valid" "configured r" "wf_request req" "valid w conns"
  shows "\<exists>det' conns' w'. route_read os r req det conns w = Some (Inr (answer r det' (contents w) req, det', conns'), w') \<and>
    valid w' conns' \<and> (\<exists>resp. routed contents req (replicas r (key req)) w det w' det' resp) \<and>
    (\<forall>n. contents w' n = contents w n \<or> contents w' n = snd (spec_step (contents w n) req)) \<and>
    (\<forall>n \<in> set (replicas r (key req)). is_alive det n \<and> answers os r valid req n \<longrightarrow> is_alive det' n)"
proof -
  note reps = replicas_facts [OF assms(2), of "key req"]
  obtain resp det' conns' w' where run:
    "try_reads os r req (replicas r (key req)) det conns w = Some (Inr (resp, det', conns'), w')"
    "valid w' conns'" "routed contents req (replicas r (key req)) w det w' det' resp"
    "\<forall>m. contents w' m = contents w m \<or> contents w' m = snd (spec_step (contents w m) req)"
    "\<forall>m \<in> set (replicas r (key req)). is_alive det m \<and> answers os r valid req m \<longrightarrow> is_alive det' m"
    using try_reads_routed [OF assms(1,3) reps(3,2) assms(4), of det] by blast
  have "route_read os r req det conns w = Some (Inr (answer r det' (contents w) req, det', conns'), w')"
    using run(1,3) reps(1) by (simp add: route_read_def with_replicas_def routed_def answer_def split: list.split)
  with run show ?thesis by blast
qed

text \<open>One request simulates one step of a single map.\<close>

definition reply_of :: "Router \<Rightarrow> FailureDetector \<Rightarrow> (bytes \<rightharpoonup> bytes) \<Rightarrow> Request \<Rightarrow> Response" where
  "reply_of r det m req =
     (if command req = Ping \<or> (\<exists>n \<in> set (replicas r (key req)). is_alive det n) then fst (spec_step m req)
      else no_live_replica_error (length (replicas r (key req))))"

lemma answer_coherent:
  assumes "coherent r det c m" "\<forall>n. is_alive det' n \<longrightarrow> is_alive det n" "command req \<noteq> Ping"
  shows "answer r det' c req = reply_of r det' m req"
proof (cases "filter (is_alive det') (replicas r (key req))")
  case Nil
  then show ?thesis using assms(3) by (auto simp: answer_def reply_of_def filter_empty_conv)
next
  case (Cons n ns)
  then have "n \<in> set (filter (is_alive det') (replicas r (key req)))" by simp
  then have n: "n \<in> set (replicas r (key req))" "is_alive det' n" by simp_all
  then have "c n (key req) = m (key req)" using assms(1,2) unfolding coherent_def by blast
  then show ?thesis using Cons n spec_step_local(3) [of "c n" req m] by (auto simp: answer_def reply_of_def)
qed

lemma coherent_step:
  assumes "coherent r det (contents w) m" "routed contents req (replicas r (key req)) w det w' det' resp"
    and step: "\<forall>n. is_alive det' n \<longrightarrow> n \<in> set (replicas r (key req)) \<longrightarrow> contents w' n = snd (spec_step (contents w n) req)"
  shows "coherent r det' (contents w') (snd (spec_step m req))"
  unfolding coherent_def
proof (intro allI ballI impI)
  fix k n
  assume n: "n \<in> set (replicas r k)" "is_alive det' n"
  then have alive: "is_alive det n" and old: "contents w n k = m k"
    using assms(1,2) unfolding routed_def coherent_def by blast+
  show "contents w' n k = snd (spec_step m req) k"
  proof (cases "n \<in> set (replicas r (key req))")
    case True
    then show ?thesis using step n old spec_step_local(1) [of k req] spec_step_local(2) [of "contents w n" req m]
      by (cases "k = key req") auto
  next
    case False
    then have "contents w' n = contents w n" using assms(2) unfolding routed_def by blast
    moreover have "k \<noteq> key req" using False n by blast
    ultimately show ?thesis using old by (simp add: spec_step_local(1))
  qed
qed

lemma route_write_simulates:
  assumes backends: "kv_backends os r contents valid" and conf: "configured r" and req: "wf_request req"
    and ok: "valid w conns" and coh: "coherent r det (contents w) m" and cmd: "command req \<noteq> Get" "command req \<noteq> Ping"
  shows "\<exists>det' conns' w'. route_request os r req det conns w = Some (Inr (encode_response (reply_of r det' m req), det', conns'), w') \<and>
    valid w' conns' \<and> coherent r det' (contents w') (snd (spec_step m req)) \<and> (\<forall>n. is_alive det' n \<longrightarrow> is_alive det n)"
proof -
  obtain det' conns' w' resp where run:
    "route_write os r req det conns w = Some (Inr (answer r det' (contents w) req, det', conns'), w')" "valid w' conns'"
    "routed contents req (replicas r (key req)) w det w' det' resp"
    "\<forall>n \<in> set (replicas r (key req)). is_alive det' n \<longrightarrow> contents w' n = snd (spec_step (contents w n) req)"
    using route_write_outcome [OF backends conf req ok, of det] by blast
  have mono: "\<forall>n. is_alive det' n \<longrightarrow> is_alive det n" using run(3) unfolding routed_def by blast
  have "coherent r det' (contents w') (snd (spec_step m req))"
    using coherent_step [OF coh run(3)] run(4) by blast
  moreover have "route_request os r req det conns w = Some (Inr (encode_response (reply_of r det' m req), det', conns'), w')"
    using run(1) cmd answer_coherent [OF coh mono] by (simp add: route_request_def)
  ultimately show ?thesis using run(2) mono by blast
qed

lemma route_request_simulates:
  assumes backends: "kv_backends os r contents valid" and conf: "configured r" and req: "wf_request req"
    and ok: "valid w conns" and coh: "coherent r det (contents w) m"
  shows "\<exists>det' conns' w'. route_request os r req det conns w = Some (Inr (encode_response (reply_of r det' m req), det', conns'), w') \<and>
    valid w' conns' \<and> coherent r det' (contents w') (snd (spec_step m req)) \<and> (\<forall>n. is_alive det' n \<longrightarrow> is_alive det n)"
proof (cases "command req")
  case Ping
  then show ?thesis using ok coh
    by (intro exI [of _ det] exI [of _ conns] exI [of _ w])
      (simp add: route_request_def reply_of_def spec_step_def encode_response_def)
next
  case Get
  obtain det' conns' w' resp where run:
    "route_read os r req det conns w = Some (Inr (answer r det' (contents w) req, det', conns'), w')" "valid w' conns'"
    "routed contents req (replicas r (key req)) w det w' det' resp"
    "\<forall>n. contents w' n = contents w n \<or> contents w' n = snd (spec_step (contents w n) req)"
    using route_read_outcome [OF backends conf req ok, of det] by blast
  have mono: "\<forall>n. is_alive det' n \<longrightarrow> is_alive det n" using run(3) unfolding routed_def by blast
  have "snd (spec_step c req) = c" for c using Get by (simp add: spec_step_def)
  then have "coherent r det' (contents w') (snd (spec_step m req))"
    using coherent_step [OF coh run(3)] run(4) by metis
  moreover have "route_request os r req det conns w = Some (Inr (encode_response (reply_of r det' m req), det', conns'), w')"
    using run(1) Get answer_coherent [OF coh mono] by (simp add: route_request_def)
  ultimately show ?thesis using run(2) mono by blast
qed (use route_write_simulates [OF assms] in simp_all)

section \<open>A client's requests\<close>

text \<open>
  \<open>input w\<close> are the bytes the client has still to deliver on \<open>fd\<close>, \<open>out w\<close> those sent to it. Writing to the client succeeds,
  reading takes a prefix of the input or fails, and neither touches the nodes or the connections to
  them; talking to the nodes touches neither input nor output.
\<close>

definition client_channel ::
  "'w os \<Rightarrow> Router \<Rightarrow> int \<Rightarrow> ('w \<Rightarrow> bytes) \<Rightarrow> ('w \<Rightarrow> bytes) \<Rightarrow> ('w \<Rightarrow> bytes \<Rightarrow> bytes \<rightharpoonup> bytes) \<Rightarrow>
   ('w \<Rightarrow> BackendConns \<Rightarrow> bool) \<Rightarrow> bool" where
  "client_channel os r fd input out contents valid \<longleftrightarrow>
     (\<forall>todo sofar. kv_backends os r contents (\<lambda>w conns. valid w conns \<and> input w = todo \<and> out w = sofar)) \<and>
     (\<forall>data w conns. valid w conns \<longrightarrow>
        (\<exists>w'. router_write_all os fd data w = Some (Inr (), w') \<and> out w' = out w @ data \<and> input w' = input w \<and>
           contents w' = contents w \<and> valid w' conns)) \<and>
     (\<forall>d w w' conns. valid w conns \<longrightarrow> sys_read os fd 4096 w = (d, w') \<longrightarrow>
        out w' = out w \<and> contents w' = contents w \<and> valid w' conns \<and>
        input w = (case d of None \<Rightarrow> [] | Some chunk \<Rightarrow> chunk) @ input w')"

lemma client_channel_at:
  "client_channel os r fd input out contents valid \<Longrightarrow>
     kv_backends os r contents (\<lambda>w' conns. valid w' conns \<and> input w' = todo \<and> out w' = sofar)"
  unfolding client_channel_def by blast

lemma client_channel_backends:
  assumes "client_channel os r fd input out contents valid"
  shows "kv_backends os r contents valid"
proof -
  have at: "kv_backends os r contents (\<lambda>w' conns. valid w' conns \<and> input w' = input w \<and> out w' = out w)" for w
    by (rule client_channel_at [OF assms])
  show ?thesis unfolding kv_backends_def
  proof (intro conjI allI impI, goal_cases)
    case (1 n req conns w)
    with kv_backends_forward [OF at [of w], of n req w conns] show ?case by metis
  next
    case (2 n conns w)
    with kv_backends_erase(1) [OF at [of w], of w conns n] show ?case by blast
  next
    case (3 n conns w)
    with kv_backends_erase(2) [OF at [of w], of w conns n] show ?case by blast
  qed
qed

lemma client_channel_write:
  assumes "client_channel os r fd input out contents valid" "valid w conns"
  obtains w' where "router_write_all os fd data w = Some (Inr (), w')" "out w' = out w @ data" "input w' = input w"
    "contents w' = contents w" "valid w' conns"
  using assms unfolding client_channel_def by blast

lemma client_channel_read:
  assumes "client_channel os r fd input out contents valid" "valid w conns" "sys_read os fd 4096 w = (d, w')"
  shows "out w' = out w" "contents w' = contents w" "valid w' conns" "input w = (case d of None \<Rightarrow> [] | Some chunk \<Rightarrow> chunk) @ input w'"
  using assms unfolding client_channel_def by blast+

text \<open>
  A response is that of a single map, or reports that no replica of the key is left, and then none is; the
  responses of a sequence are those of the map after the requests before.
\<close>

definition explains :: "Router \<Rightarrow> FailureDetector \<Rightarrow> Request \<Rightarrow> Response \<Rightarrow> Response \<Rightarrow> bool" where
  "explains r det req specified actual \<longleftrightarrow>
     actual = specified \<or>
     command req \<noteq> Ping \<and> actual = no_live_replica_error (length (replicas r (key req))) \<and>
       (\<forall>n \<in> set (replicas r (key req)). \<not> is_alive det n)"

fun explained :: "Router \<Rightarrow> FailureDetector \<Rightarrow> (bytes \<rightharpoonup> bytes) \<Rightarrow> Request list \<Rightarrow> Response list \<Rightarrow> bool" where
  "explained r det m [] resps \<longleftrightarrow> resps = []"
| "explained r det m (req # reqs) resps \<longleftrightarrow>
     (case resps of
        [] \<Rightarrow> False
      | resp # rest \<Rightarrow> explains r det req (fst (spec_step m req)) resp \<and> explained r det (snd (spec_step m req)) reqs rest)"

lemma explains_reply_of: "explains r det req (fst (spec_step m req)) (reply_of r det m req)"
  by (auto simp: explains_def reply_of_def)

lemma explains_mono:
  "explains r det req x y \<Longrightarrow> \<forall>n. is_alive det' n \<longrightarrow> is_alive det n \<Longrightarrow> explains r det' req x y"
  by (auto simp: explains_def)

lemma explained_mono:
  "explained r det m reqs resps \<Longrightarrow> \<forall>n. is_alive det' n \<longrightarrow> is_alive det n \<Longrightarrow> explained r det' m reqs resps"
  by (induction reqs arbitrary: m resps) (auto split: list.splits intro: explains_mono)

lemma explained_append:
  "explained r det m xs a \<Longrightarrow> explained r det (snd (spec_steps m xs)) ys b \<Longrightarrow> explained r det m (xs @ ys) (a @ b)"
  by (induction xs arbitrary: m a) (auto simp: case_prod_beta Let_def split: list.splits)

text \<open>The inner loop: all complete requests of the buffer are answered, an unfinished one is kept.\<close>

lemma route_requests_simulates:
  assumes channel: "client_channel os r fd input out contents valid" and conf: "configured r"
    and unfinished: "q = [] \<or> (\<exists>req. wf_request req \<and> strict_prefix q (encode_request req))"
    and "list_all wf_request reqs" "buffer p = concat (map encode_request reqs) @ q" "valid w conns" "coherent r det (contents w) m"
  shows "\<exists>p' det' conns' w' resps. route_requests os r fd p req0 det conns w = Some (Inr (p', det', conns'), w') \<and>
    buffer p' = q \<and> valid w' conns' \<and> input w' = input w \<and> out w' = out w @ concat (map encode_response resps) \<and>
    explained r det' m reqs resps \<and> coherent r det' (contents w') (snd (spec_steps m reqs)) \<and>
    (\<forall>n. is_alive det' n \<longrightarrow> is_alive det n)"
  using assms(4-)
proof (induction reqs arbitrary: p req0 w conns det m)
  case Nil
  then have "buffer p = q" by simp
  then have "try_parse_request p req0 = (Incomplete, p, req0)"
    using unfinished request_codec.parse_empty request_codec.parse_partial by blast
  with Nil \<open>buffer p = q\<close> show ?case
    by (subst route_requests.simps) (auto intro!: exI [of _ "[]"])
next
  case (Cons req reqs)
  let ?p = "p\<lparr>buffer := concat (map encode_request reqs) @ q\<rparr>"
  have req: "wf_request req" "list_all wf_request reqs" using Cons.prems by simp_all
  have parse: "try_parse_request p req0 = (Complete, ?p, req)"
    using try_parse_request_frame [OF req(1)] Cons.prems by simp
  from route_request_simulates [OF client_channel_at [OF channel] conf req(1) _ Cons.prems(4), of conns "input w" "out w"] Cons.prems(3)
  obtain det1 conns1 w1 where
    one: "route_request os r req det conns w = Some (Inr (encode_response (reply_of r det1 m req), det1, conns1), w1)"
      "valid w1 conns1" "input w1 = input w" "out w1 = out w" "coherent r det1 (contents w1) (snd (spec_step m req))"
      "\<forall>n. is_alive det1 n \<longrightarrow> is_alive det n" by blast
  obtain w2 where wr: "router_write_all os fd (encode_response (reply_of r det1 m req)) w1 = Some (Inr (), w2)"
    "out w2 = out w @ encode_response (reply_of r det1 m req)" "input w2 = input w" "contents w2 = contents w1" "valid w2 conns1"
    using client_channel_write [OF channel one(2), of "encode_response (reply_of r det1 m req)"] one(3,4) by metis
  have coh: "coherent r det1 (contents w2) (snd (spec_step m req))" using one(5) wr(4) by simp
  from Cons.IH [OF req(2) _ wr(5) coh, of ?p req] obtain p' det' conns' w' resps where
    rest: "route_requests os r fd ?p req det1 conns1 w2 = Some (Inr (p', det', conns'), w')"
      "buffer p' = q" "valid w' conns'" "input w' = input w2" "out w' = out w2 @ concat (map encode_response resps)"
      "explained r det' (snd (spec_step m req)) reqs resps"
      "coherent r det' (contents w') (snd (spec_steps (snd (spec_step m req)) reqs))" "\<forall>n. is_alive det' n \<longrightarrow> is_alive det1 n"
    by auto
  have "route_requests os r fd p req0 det conns w = route_requests os r fd ?p req det1 conns1 w2"
    using one(1) wr(1) by (subst route_requests.simps) (simp add: parse io_bind_def)
  moreover have "explains r det' req (fst (spec_step m req)) (reply_of r det1 m req)"
    using explains_mono [OF explains_reply_of rest(8)] .
  ultimately show ?case using rest one(6) wr(2,3)
    by (intro exI [of _ p'] exI [of _ det'] exI [of _ conns'] exI [of _ w'] exI [of _ "reply_of r det1 m req # resps"])
      (auto simp: case_prod_beta Let_def)
qed

text \<open>The whole connection, whatever way the stream of requests is cut into reads.\<close>

lemma client_reads_simulates:
  assumes channel: "client_channel os r fd input out contents valid" and conf: "configured r"
    and "list_all wf_request reqs" "buffer p @ input w = concat (map encode_request reqs)"
    and "reqs = [] \<or> strict_prefix (buffer p) (encode_request (hd reqs))" "valid w conns" "coherent r det (contents w) m"
  shows "\<exists>det' conns' w' n resps. client_reads os r fd p det conns w = Some (Inr (det', conns'), w') \<and>
    out w' = out w @ concat (map encode_response resps) \<and> n \<le> length reqs \<and> explained r det' m (take n reqs) resps \<and>
    coherent r det' (contents w') (snd (spec_steps m (take n reqs))) \<and> (\<forall>n. is_alive det' n \<longrightarrow> is_alive det n) \<and>
    (input w' = [] \<longrightarrow> n = length reqs)"
  using assms(3-)
proof (induction "length (input w)" arbitrary: reqs p w conns det m rule: less_induct)
  case less
  obtain d w1 where call: "sys_read os fd 4096 w = (d, w1)" by fastforce
  note read = client_channel_read [OF channel less.prems(4) call]
  show ?case
  proof (cases "d = None \<or> d = Some []")
    case True
    then have "client_reads os r fd p det conns w = Some (Inr (det, conns), w1)"
      by (subst client_reads.simps) (auto simp: call)
    moreover have "length reqs = 0" if "input w1 = []"
      using less.prems(2,3) read(4) that True by (cases reqs) (auto simp: strict_prefix_def prefix_def)
    ultimately show ?thesis using read less.prems(5)
      by (intro exI [of _ det] exI [of _ conns] exI [of _ w1] exI [of _ 0] exI [of _ "[]"]) auto
  next
    case False
    then obtain chunk where chunk: "d = Some chunk" "chunk \<noteq> []" by auto
    have stream: "(buffer p @ chunk) @ input w1 = concat (map encode_request reqs)" using less.prems(2) read(4) chunk by simp
    then have "prefix (buffer p @ chunk) (concat (map encode_request reqs))" by (metis prefixI)
    then obtain reqs1 reqs2 q where split: "reqs = reqs1 @ reqs2" "buffer p @ chunk = concat (map encode_request reqs1) @ q"
      "reqs2 = [] \<and> q = [] \<or> reqs2 \<noteq> [] \<and> strict_prefix q (encode_request (hd reqs2))"
      by (rule concat_prefix_split)
    have wf: "list_all wf_request reqs1" "list_all wf_request reqs2" using less.prems(1) split(1) by simp_all
    have unfinished: "q = [] \<or> (\<exists>req. wf_request req \<and> strict_prefix q (encode_request req))"
      using split(3) wf(2) by (cases reqs2) auto
    have coh: "coherent r det (contents w1) m" using less.prems(5) read(2) by simp
    obtain p2 det2 conns2 w2 resps1 where now: "route_requests os r fd (feed p chunk) new_request det conns w1 = Some (Inr (p2, det2, conns2), w2)"
      "buffer p2 = q" "valid w2 conns2" "input w2 = input w1" "out w2 = out w @ concat (map encode_response resps1)"
      "explained r det2 m reqs1 resps1" "coherent r det2 (contents w2) (snd (spec_steps m reqs1))" "\<forall>n. is_alive det2 n \<longrightarrow> is_alive det n"
      using route_requests_simulates [OF channel conf unfinished wf(1) _ read(3) coh, of "feed p chunk" new_request] split(2) read(1)
      by auto
    have "length (input w2) < length (input w)" using read(4) chunk now(4) by simp
    moreover have "buffer p2 @ input w2 = concat (map encode_request reqs2)" using stream split(1,2) now(2,4) by simp
    moreover have "reqs2 = [] \<or> strict_prefix (buffer p2) (encode_request (hd reqs2))" using split(3) now(2) by auto
    ultimately obtain det' conns' w' n resps2 where later: "client_reads os r fd p2 det2 conns2 w2 = Some (Inr (det', conns'), w')"
      "out w' = out w2 @ concat (map encode_response resps2)" "n \<le> length reqs2"
      "explained r det' (snd (spec_steps m reqs1)) (take n reqs2) resps2"
      "coherent r det' (contents w') (snd (spec_steps (snd (spec_steps m reqs1)) (take n reqs2)))"
      "\<forall>n. is_alive det' n \<longrightarrow> is_alive det2 n" "input w' = [] \<longrightarrow> n = length reqs2"
      using less.hyps [OF _ wf(2) _ _ now(3,7)] by blast
    have "client_reads os r fd p det conns w = Some (Inr (det', conns'), w')"
      using chunk now(1) later(1) by (subst client_reads.simps) (simp add: call)
    moreover have "take (length reqs1 + n) reqs = reqs1 @ take n reqs2" by (simp add: split(1))
    moreover have "explained r det' m (reqs1 @ take n reqs2) (resps1 @ resps2)"
      by (rule explained_append [OF explained_mono [OF now(6) later(6)] later(4)])
    ultimately show ?thesis using now(5,8) later(2,3,5-7) split(1)
      by (intro exI [of _ det'] exI [of _ conns'] exI [of _ w'] exI [of _ "length reqs1 + n"] exI [of _ "resps1 @ resps2"])
        (simp add: spec_steps_append)
  qed
qed

section \<open>Where a client thread dies\<close>

text \<open>A ring without positions throws, outside the \<^verbatim>\<open>try\<close> blocks of the loops.\<close>

lemma route_request_empty_ring:
  assumes "ring (router_ring r) = []" "command req \<noteq> Ping"
  shows "\<exists>e. route_request os r req det conns w = Some (Inl e, w)"
  using assms
  by (simp add: route_request_def route_read_def route_write_def with_replicas_def get_nodes_def io_bind_def)

end
