(* ===== verification/Cluster.thy ===== *)
theory Cluster
  imports Router
begin

text \<open>
  The router in front of the modelled servers. The network is written out as a kernel \<open>cluster_os\<close> whose world
  holds every node's store: bytes the router writes to a node are run through the reactor's own loop
  \<open>serve_requests\<close>, and what it answers is what the router reads. Nodes may be unreachable, connections may
  break before or after a request was applied, in any order.

  Shown: the servers keep the promises the router relies on, and with them what a client of the router sees.
\<close>

section \<open>The nodes and the network\<close>

text \<open>What happens to the next requests written to a node; with nothing listed, they succeed.\<close>

datatype fault = Fine | Refused | Response_lost

record cluster =
  cl_stores :: "bytes \<Rightarrow> KVStore"
  cl_up :: "bytes \<Rightarrow> bool"
  cl_faults :: "bytes \<Rightarrow> fault list"
  cl_peer :: "int \<rightharpoonup> bytes"
  cl_parser :: "int \<Rightarrow> IncrementalParser"
  cl_inbox :: "int \<Rightarrow> bytes"
  cl_next :: int
  cl_out :: bytes

text \<open>The kernel of a node, seen from its reactor: the world is what was sent on the connection.\<close>

definition node_os :: "bytes os" where
  "node_os =
     \<lparr>errno_of = (\<lambda>_. Errno 0), set_errno = (\<lambda>_ w. w), strerror = (\<lambda>_. []), gai_strerror = (\<lambda>_. []),
      sys_write = (\<lambda>fd d w. (int (length d), w @ d)), sys_read = (\<lambda>fd n w. (Some [], w)),
      sys_poll = (\<lambda>fds t w. ((0, []), w)), sys_pipe = (\<lambda>w. ((-1, -1, -1), w)), sys_close = (\<lambda>fd w. w),
      sys_socket = (\<lambda>a b c w. (-1, w)), sys_connect = (\<lambda>fd a w. (-1, w)), sys_bind = (\<lambda>fd p w. (-1, w)),
      sys_listen = (\<lambda>fd b w. (-1, w)), sys_accept = (\<lambda>fd w. (-1, w)), sys_fcntl = (\<lambda>fd c w. (0, w)),
      sys_setsockopt = (\<lambda>fd opt w. (0, w)), sys_getaddrinfo = (\<lambda>h s w. ((1, []), w))\<rparr>"

text \<open>Bytes arrive at node \<open>n\<close>. A node whose reactor does not return answers nothing any more.\<close>

definition serve_bytes :: "bytes \<Rightarrow> int \<Rightarrow> bytes \<Rightarrow> cluster \<Rightarrow> bytes \<times> cluster" where
  "serve_bytes n fd d w =
     (case serve_requests node_os fd (feed (cl_parser w fd) d) new_request (cl_stores w n) [] of
        Some (Inr (parser, store), sent) \<Rightarrow>
          (sent, w\<lparr>cl_stores := (cl_stores w)(n := store), cl_parser := (cl_parser w)(fd := parser)\<rparr>)
      | _ \<Rightarrow> ([], w\<lparr>cl_up := (cl_up w)(n := False)\<rparr>))"

definition cluster_write :: "int \<Rightarrow> bytes \<Rightarrow> cluster \<Rightarrow> int \<times> cluster" where
  "cluster_write fd d w =
     (if fd = 3 then (int (length d), w\<lparr>cl_out := cl_out w @ d\<rparr>)
      else case cl_peer w fd of
        None \<Rightarrow> (-1, w)
      | Some n \<Rightarrow>
          (case cl_faults w n of
             Refused # fs \<Rightarrow> (-1, w\<lparr>cl_faults := (cl_faults w)(n := fs)\<rparr>)
           | Response_lost # fs \<Rightarrow>
               (int (length d), (snd (serve_bytes n fd d w))\<lparr>cl_faults := (cl_faults w)(n := fs), cl_peer := (cl_peer w)(fd := None)\<rparr>)
           | fs \<Rightarrow> (let (sent, w') = serve_bytes n fd d w in
               (int (length d), w'\<lparr>cl_faults := (cl_faults w)(n := tl fs), cl_inbox := (cl_inbox w)(fd := cl_inbox w fd @ sent)\<rparr>))))"

text \<open>Descriptor 3 is the connection to the router's client; those to the nodes are numbered from 4.\<close>

definition cluster_os :: "cluster os" where
  "cluster_os =
     \<lparr>errno_of = (\<lambda>_. Errno 104), set_errno = (\<lambda>_ w. w), strerror = (\<lambda>_. ''connection reset''), gai_strerror = (\<lambda>_. []),
      sys_write = cluster_write,
      sys_read = (\<lambda>fd n w. (Some (take n (cl_inbox w fd)), w\<lparr>cl_inbox := (cl_inbox w)(fd := drop n (cl_inbox w fd))\<rparr>)),
      sys_poll = (\<lambda>fds t w. ((0, []), w)), sys_pipe = (\<lambda>w. ((-1, -1, -1), w)),
      sys_close = (\<lambda>fd w. w\<lparr>cl_peer := (cl_peer w)(fd := None)\<rparr>),
      sys_socket = (\<lambda>a b c w. (cl_next w, w\<lparr>cl_next := cl_next w + 1, cl_inbox := (cl_inbox w)(cl_next w := []),
         cl_parser := (cl_parser w)(cl_next w := new_parser)\<rparr>)),
      sys_connect = (\<lambda>fd a w. if cl_up w a then (0, w\<lparr>cl_peer := (cl_peer w)(fd \<mapsto> a)\<rparr>) else (-1, w)),
      sys_bind = (\<lambda>fd p w. (0, w)), sys_listen = (\<lambda>fd b w. (0, w)), sys_accept = (\<lambda>fd w. (3, w)),
      sys_fcntl = (\<lambda>fd c w. (0, w)), sys_setsockopt = (\<lambda>fd opt w. (0, w)),
      sys_getaddrinfo = (\<lambda>h s w. ((0, [\<lparr>ai_family = AF_INET, ai_socktype = SOCK_STREAM, ai_protocol = 0, ai_addr = h @ '':'' @ s\<rparr>]), w))\<rparr>"

lemma node_os_write [simp]: "sys_write node_os fd d w = (int (length d), w @ d)"
  by (simp add: node_os_def)

lemma cluster_os_simps [simp]:
  "sys_write cluster_os = cluster_write"
  "sys_read cluster_os fd n w = (Some (take n (cl_inbox w fd)), w\<lparr>cl_inbox := (cl_inbox w)(fd := drop n (cl_inbox w fd))\<rparr>)"
  "sys_close cluster_os fd w = w\<lparr>cl_peer := (cl_peer w)(fd := None)\<rparr>"
  "sys_socket cluster_os a b c w = (cl_next w, w\<lparr>cl_next := cl_next w + 1, cl_inbox := (cl_inbox w)(cl_next w := []),
     cl_parser := (cl_parser w)(cl_next w := new_parser)\<rparr>)"
  "sys_connect cluster_os fd addr w = (if cl_up w addr then (0, w\<lparr>cl_peer := (cl_peer w)(fd \<mapsto> addr)\<rparr>) else (-1, w))"
  "sys_setsockopt cluster_os fd opt w = (0, w)" "set_errno cluster_os e w = w" "errno_of cluster_os w = Errno 104"
  "sys_getaddrinfo cluster_os h s w = ((0, [\<lparr>ai_family = AF_INET, ai_socktype = SOCK_STREAM, ai_protocol = 0, ai_addr = h @ '':'' @ s\<rparr>]), w)"
  by (simp_all add: cluster_os_def)

section \<open>A node answers\<close>

definition cluster_contents :: "cluster \<Rightarrow> bytes \<Rightarrow> bytes \<rightharpoonup> bytes" where
  "cluster_contents w n = kv_abs (cl_stores w n)"

definition store_ok :: "KVStore \<Rightarrow> bool" where
  "store_ok store \<longleftrightarrow> kv_inv store \<and> (\<forall>k v. kv_abs store k = Some v \<longrightarrow> length v \<le> kMaxValueLen)"

lemma reactor_write_all_node [simp]: "d \<noteq> [] \<Longrightarrow> reactor_write_all node_os fd d 0 w = Some (Inr (), w @ d)"
  by (subst reactor_write_all.simps, simp, subst reactor_write_all.simps, simp)

lemma serve_requests_node:
  assumes "store_ok store" "wf_request req" "buffer p = encode_request req"
  obtains p' store' where
    "serve_requests node_os fd p req0 store [] = Some (Inr (p', store'), encode_response (fst (spec_step (kv_abs store) req)))"
    "buffer p' = []" "kv_abs store' = snd (spec_step (kv_abs store) req)" "store_ok store'"
proof -
  let ?s = "snd (handle_request store req)" and ?p = "p\<lparr>buffer := []\<rparr>"
  from assms(1) have inv: "kv_inv store" by (simp add: store_ok_def)
  note spec = handle_request_spec [OF inv, of req]
  have parse: "try_parse_request p req0 = (Complete, ?p, req)" using try_parse_request_frame [OF assms(2), of p "[]"] assms(3) by simp
  have idle: "try_parse_request ?p req = (Incomplete, ?p, req)" by (rule request_codec.parse_empty) simp
  have "encode_response (fst (spec_step (kv_abs store) req)) \<noteq> []" by (simp add: encode_response_line)
  then have "serve_requests node_os fd p req0 store [] = Some (Inr (?p, ?s), encode_response (fst (spec_step (kv_abs store) req)))"
    using spec(1) by (subst serve_requests.simps, simp add: parse case_prod_beta, subst serve_requests.simps, simp add: idle)
  moreover have "store_ok ?s"
    using assms(1,2) spec(2,3)
    by (auto simp: store_ok_def spec_step_def wf_request_def split: Command.splits if_splits)
  ultimately show ?thesis using spec(2) by (intro that [of ?p ?s]) simp_all
qed

lemma wf_response_spec_step:
  assumes "store_ok store"
  shows "wf_response (fst (spec_step (kv_abs store) req))"
    and "settle_response (fst (spec_step (kv_abs store) req)) new_response = fst (spec_step (kv_abs store) req)"
  using assms
  by (auto simp: store_ok_def spec_step_def wf_response_def settle_response_def new_response_def split: Command.split option.split)

lemma read_response_cluster:
  assumes "wf_response resp" "buffer p @ cl_inbox w fd = encode_response resp"
  shows "read_response cluster_os fd p out w = Some (Inr (settle_response resp out), w\<lparr>cl_inbox := (cl_inbox w)(fd := [])\<rparr>)"
  using assms(2)
proof (induction "length (cl_inbox w fd)" arbitrary: p w rule: less_induct)
  case less
  show ?case
  proof (cases "cl_inbox w fd = []")
    case True
    then have "w\<lparr>cl_inbox := (cl_inbox w)(fd := [])\<rparr> = w" by (metis cluster.surjective cluster.update_convs(6) fun_upd_triv)
    with response_codec.parse_frame [OF assms(1), of p "[]" out] less.prems True show ?thesis
      by (subst read_response.simps) simp
  next
    case False
    let ?w = "w\<lparr>cl_inbox := (cl_inbox w)(fd := drop 4096 (cl_inbox w fd))\<rparr>"
    from False less.prems have "strict_prefix (buffer p) (encode_response resp)"
      by (metis append_self_conv prefixI strict_prefixI)
    note incomplete = response_codec.parse_partial [OF assms(1) this]
    have "read_response cluster_os fd (feed p (take 4096 (cl_inbox w fd))) out ?w
        = Some (Inr (settle_response resp out), ?w\<lparr>cl_inbox := (cl_inbox ?w)(fd := [])\<rparr>)"
      using less.prems False by (intro less.hyps) simp_all
    with False show ?thesis by (subst read_response.simps) (simp add: incomplete)
  qed
qed

section \<open>Connections\<close>

text \<open>The nodes in \<open>calm\<close> are up and suffer no faults; for the others nothing is assumed.\<close>

definition cluster_valid :: "bytes set \<Rightarrow> cluster \<Rightarrow> BackendConns \<Rightarrow> bool" where
  "cluster_valid calm w conns \<longleftrightarrow>
     (\<forall>n \<in> calm. cl_up w n \<and> cl_faults w n = []) \<and>
     4 \<le> cl_next w \<and> (\<forall>n. store_ok (cl_stores w n)) \<and> distinct (map fst conns) \<and> distinct (map (sock_fd \<circ> snd) conns) \<and>
     (\<forall>(n, sock) \<in> set conns. 4 \<le> sock_fd sock \<and> sock_fd sock < cl_next w \<and> cl_peer w (sock_fd sock) \<in> {None, Some n} \<and>
        (n \<in> calm \<longrightarrow> cl_peer w (sock_fd sock) = Some n) \<and>
        cl_inbox w (sock_fd sock) = [] \<and> buffer (cl_parser w (sock_fd sock)) = [])"

text \<open>One exchange on a connection whose other end, if any, is node \<open>n\<close>.\<close>

definition exchanged :: "bytes \<Rightarrow> int \<Rightarrow> Request \<Rightarrow> exn + Response \<Rightarrow> cluster \<Rightarrow> cluster \<Rightarrow> bool" where
  "exchanged n fd req res w w' \<longleftrightarrow>
     (\<forall>m. m \<noteq> n \<longrightarrow> cl_stores w' m = cl_stores w m) \<and> store_ok (cl_stores w' n) \<and>
     cl_next w' = cl_next w \<and> cl_out w' = cl_out w \<and> cl_inbox w' = (cl_inbox w)(fd := []) \<and>
     cl_peer w' fd \<in> {None, cl_peer w fd} \<and> (\<forall>x. x \<noteq> fd \<longrightarrow> cl_peer w' x = cl_peer w x) \<and>
     buffer (cl_parser w' fd) = [] \<and> (\<forall>x. x \<noteq> fd \<longrightarrow> cl_parser w' x = cl_parser w x) \<and>
     cl_up w' = cl_up w \<and> (\<forall>m. m \<noteq> n \<longrightarrow> cl_faults w' m = cl_faults w m) \<and>
     (cl_faults w n = [] \<and> cl_peer w fd = Some n \<longrightarrow> isl res = False \<and> cl_faults w' n = [] \<and> cl_peer w' fd = Some n) \<and>
     (case res of
        Inr resp \<Rightarrow> spec_step (kv_abs (cl_stores w n)) req = (resp, kv_abs (cl_stores w' n))
      | Inl e \<Rightarrow> kv_abs (cl_stores w' n) \<in> {kv_abs (cl_stores w n), snd (spec_step (kv_abs (cl_stores w n)) req)})"

lemma blocking_write_cluster:
  assumes "d \<noteq> []" "fd \<noteq> 3"
  shows "blocking_write cluster_os fd msg d 0 w =
    (let (n, w1) = cluster_write fd d w in if n < 0 then Some (Inl (Runtime_error (msg w1)), w1) else Some (Inr (), w1))"
proof -
  have "fst (cluster_write fd d w) \<in> {-1, int (length d)}"
    by (auto simp: cluster_write_def split: option.split list.split fault.split prod.split)
  moreover have "blocking_write cluster_os fd msg d (length d) w' = Some (Inr (), w')" for w'
    by (subst blocking_write.simps) simp
  ultimately show ?thesis using assms(1) by (subst blocking_write.simps) (auto simp: case_prod_beta Let_def)
qed

lemma send_request_cluster:
  assumes peer: "cl_peer w fd \<in> {None, Some n}" and fd: "fd \<noteq> 3" and req: "wf_request req" and ok: "store_ok (cl_stores w n)"
    and idle: "cl_inbox w fd = []" "buffer (cl_parser w fd) = []"
  shows "\<exists>res w'. send_request cluster_os fd req w = Some (res, w') \<and> exchanged n fd req res w w'"
proof -
  have ne: "encode_request req \<noteq> []" by (rule encode_request_nonempty)
  note wr = blocking_write_cluster [OF ne fd]
  obtain p' store' where served:
    "serve_requests node_os fd (feed (cl_parser w fd) (encode_request req)) new_request (cl_stores w n) []
       = Some (Inr (p', store'), encode_response (fst (spec_step (kv_abs (cl_stores w n)) req)))"
    "buffer p' = []" "kv_abs store' = snd (spec_step (kv_abs (cl_stores w n)) req)" "store_ok store'"
    by (rule serve_requests_node [OF ok req, of "feed (cl_parser w fd) (encode_request req)"]) (use idle in auto)
  have inbox: "(cl_inbox w)(fd := []) = cl_inbox w" using idle by auto
  note resp = wf_response_spec_step [OF ok, of req]
  consider "cl_peer w fd = None" | "cl_peer w fd = Some n" using peer by auto
  then show ?thesis
  proof cases
    case 1
    then have "send_request cluster_os fd req w = Some (Inl (Runtime_error ''failed to write request''), w)"
      using fd by (simp add: send_request_def wr cluster_write_def)
    then show ?thesis using 1 idle ok inbox by (simp add: exchanged_def)
  next
    case 2
    let ?m = "kv_abs (cl_stores w n)"
    let ?s = "w\<lparr>cl_stores := (cl_stores w)(n := store'), cl_parser := (cl_parser w)(fd := p')\<rparr>"
    have bytes: "serve_bytes n fd (encode_request req) w = (encode_response (fst (spec_step ?m req)), ?s)"
      using served(1) by (simp add: serve_bytes_def)
    consider "cl_faults w n = [] \<or> hd (cl_faults w n) = Fine" | fs where "cl_faults w n = Refused # fs"
      | fs where "cl_faults w n = Response_lost # fs" by (cases "cl_faults w n"; cases "hd (cl_faults w n)") simp_all
    then show ?thesis
    proof cases
      case 1
      let ?w = "?s\<lparr>cl_faults := (cl_faults w)(n := tl (cl_faults w n)), cl_inbox := (cl_inbox w)(fd := encode_response (fst (spec_step ?m req)))\<rparr>"
      have "cluster_write fd (encode_request req) w = (int (length (encode_request req)), ?w)"
        using 1 2 fd idle by (auto simp: cluster_write_def bytes split: list.split fault.split)
      then have "send_request cluster_os fd req w = Some (Inr (fst (spec_step ?m req)), ?w\<lparr>cl_inbox := (cl_inbox ?w)(fd := [])\<rparr>)"
        using read_response_cluster [OF resp(1), of new_parser ?w fd new_response] resp(2) by (simp add: send_request_def wr)
      then show ?thesis using 2 served by (simp add: exchanged_def inbox prod_eq_iff)
    next
      case (2 fs)
      then have "send_request cluster_os fd req w = Some (Inl (Runtime_error ''failed to write request''), w\<lparr>cl_faults := (cl_faults w)(n := fs)\<rparr>)"
        using fd \<open>cl_peer w fd = Some n\<close> by (simp add: send_request_def wr cluster_write_def)
      then show ?thesis using 2 idle ok inbox by (simp add: exchanged_def)
    next
      case (3 fs)
      let ?w = "?s\<lparr>cl_faults := (cl_faults w)(n := fs), cl_peer := (cl_peer w)(fd := None)\<rparr>"
      have "cluster_write fd (encode_request req) w = (int (length (encode_request req)), ?w)"
        using 3 2 fd by (simp add: cluster_write_def bytes)
      then have "send_request cluster_os fd req w = Some (Inl (Runtime_error ''connection closed while waiting for response''), ?w\<lparr>cl_inbox := (cl_inbox w)(fd := [])\<rparr>)"
        using idle by (simp add: send_request_def wr, subst read_response.simps, simp add: response_codec.parse_empty)
      then show ?thesis using 3 served by (simp add: exchanged_def)
    qed
  qed
qed

lemma cluster_valid_conn:
  assumes "cluster_valid calm w conns" "(n, sock) \<in> set conns"
  shows "sock_fd sock \<noteq> 3" "cl_peer w (sock_fd sock) \<in> {None, Some n}" "cl_inbox w (sock_fd sock) = []"
    "n \<in> calm \<Longrightarrow> cl_peer w (sock_fd sock) = Some n \<and> cl_faults w n = []"
    "buffer (cl_parser w (sock_fd sock)) = []" "store_ok (cl_stores w n)" "0 \<le> sock_fd sock" "sock_fd sock < cl_next w"
  using assms unfolding cluster_valid_def by fastforce+

lemma cluster_valid_exchanged:
  assumes valid: "cluster_valid calm w conns" and conn: "(n, sock) \<in> set conns" and ex: "exchanged n (sock_fd sock) req res w w'"
  shows "cluster_valid calm w' conns"
  unfolding cluster_valid_def
proof (intro conjI ballI, goal_cases)
  case (2 m)
  then show ?case using valid ex cluster_valid_conn(4) [OF valid conn]
    by (cases "m = n") (simp_all add: cluster_valid_def exchanged_def)
next
  case 4
  show ?case using valid ex unfolding cluster_valid_def exchanged_def by metis
next
  case (7 c)
  obtain m s where c: "c = (m, s)" by (cases c)
  note old = cluster_valid_conn [OF valid, of m s]
  have fds: "4 \<le> sock_fd s" using valid 7 c unfolding cluster_valid_def by auto
  have dist: "distinct (map (sock_fd \<circ> snd) conns)" using valid unfolding cluster_valid_def by blast
  have same: "m = n" if "sock_fd s = sock_fd sock"
    using dist that 7 conn c inj_onD [of "sock_fd \<circ> snd" "set conns" "(m, s)" "(n, sock)"] by (simp add: distinct_map)
  show ?case
  proof (cases "sock_fd s = sock_fd sock")
    case True
    then show ?thesis using same old 7 c ex fds unfolding exchanged_def by auto
  next
    case False
    then show ?thesis using old 7 c ex fds unfolding exchanged_def by auto
  qed
qed (use valid ex in \<open>simp_all add: cluster_valid_def exchanged_def\<close>)

text \<open>The connection to a node: the cached one, a new one, or none.\<close>

lemma connect_to_cluster:
  assumes "cluster_valid calm w conns"
  shows "connect_to cluster_os (host addr) (port addr) w =
    (let w1 = snd (sys_socket cluster_os AF_INET SOCK_STREAM 0 w) in
     if cl_up w (node_id addr) then Some (Inr \<lparr>sock_fd = cl_next w\<rparr>, w1\<lparr>cl_peer := (cl_peer w1)(cl_next w \<mapsto> node_id addr)\<rparr>)
     else Some (Inl (Runtime_error (''connect to '' @ node_id addr @ '': connection reset'')), sys_close cluster_os (cl_next w) w1))"
proof -
  have "\<not> cl_next w < 0" using assms by (simp add: cluster_valid_def)
  then show ?thesis by (simp add: connect_to_def io_bind_def throw_errno_def node_id_def Let_def cluster_os_def)
qed

lemma backend_connection_cluster:
  assumes valid: "cluster_valid calm w conns" and n: "n \<in> node_id ` set (router_nodes r)"
  shows "\<exists>res w'. backend_connection cluster_os r n conns w = Some (res, w') \<and> cl_stores w' = cl_stores w \<and> cl_out w' = cl_out w \<and> cl_inbox w' 3 = cl_inbox w 3 \<and>
    (case res of Inl e \<Rightarrow> cluster_valid calm w' conns \<and> n \<notin> calm | Inr (sock, conns') \<Rightarrow> cluster_valid calm w' conns' \<and> (n, sock) \<in> set conns')"
proof (cases "map_of conns n")
  case (Some sock)
  then show ?thesis using valid by (simp add: backend_connection_def map_of_SomeD)
next
  case None
  from n have "find_address r n \<noteq> None" unfolding find_address_def by (auto simp: find_None_iff)
  then obtain addr where addr: "find_address r n = Some addr" by blast
  then have id: "node_id addr = n" unfolding find_address_def by (auto simp: find_Some_iff)
  have fresh: "n \<notin> fst ` set conns" using None by (simp add: map_of_eq_None_iff)
  have fds: "\<forall>c \<in> set conns. sock_fd (snd c) < cl_next w" using valid by (auto simp: cluster_valid_def)
  then have new: "cl_next w \<notin> (sock_fd \<circ> snd) ` set conns" by fastforce
  show ?thesis
    using None addr fresh new fds valid
    by (cases "cl_up w n")
      (auto simp: backend_connection_def connect_to_cluster [OF valid] id Let_def io_bind_def set_tcp_nodelay_def
        cluster_valid_def)
qed

lemma forward_cluster:
  assumes valid: "cluster_valid calm w conns" and n: "n \<in> node_id ` set (router_nodes r)" and req: "wf_request req"
  shows "\<exists>res conns' w'. forward cluster_os r n req conns w = Some (Inr (res, conns'), w') \<and> cluster_valid calm w' conns' \<and>
    cl_out w' = cl_out w \<and> cl_inbox w' 3 = cl_inbox w 3 \<and>
    (\<forall>m. m \<noteq> n \<longrightarrow> cluster_contents w' m = cluster_contents w m) \<and> (n \<in> calm \<longrightarrow> \<not> isl res) \<and>
    (case res of
       Inr resp \<Rightarrow> spec_step (cluster_contents w n) req = (resp, cluster_contents w' n)
     | Inl e \<Rightarrow> cluster_contents w' n = cluster_contents w n \<or> cluster_contents w' n = snd (spec_step (cluster_contents w n) req))"
proof -
  obtain res w1 where conn: "backend_connection cluster_os r n conns w = Some (res, w1)"
    "cl_stores w1 = cl_stores w" "cl_out w1 = cl_out w" "cl_inbox w1 3 = cl_inbox w 3"
    "case res of Inl e \<Rightarrow> cluster_valid calm w1 conns \<and> n \<notin> calm
      | Inr (sock, conns') \<Rightarrow> cluster_valid calm w1 conns' \<and> (n, sock) \<in> set conns'"
    using backend_connection_cluster [OF valid n] by blast
  show ?thesis
  proof (cases res)
    case (Inl e)
    then show ?thesis using conn by (simp add: forward_def cluster_contents_def)
  next
    case (Inr sc)
    then obtain sock conns1 where sc: "res = Inr (sock, conns1)" by (cases sc) simp
    with conn have valid1: "cluster_valid calm w1 conns1" and mem: "(n, sock) \<in> set conns1" by simp_all
    note c = cluster_valid_conn [OF valid1 mem]
    from send_request_cluster [OF c(2,1) req c(6,3,5)] obtain res' w2 where
      sent: "send_request cluster_os (sock_fd sock) req w1 = Some (res', w2)" and ex: "exchanged n (sock_fd sock) req res' w1 w2"
      by blast
    have "forward cluster_os r n req conns w = Some (Inr (res', conns1), w2)" using conn(1) sc sent by (simp add: forward_def)
    with cluster_valid_exchanged [OF valid1 mem ex] ex conn(2-4) c(1,4) show ?thesis
      by (auto simp: exchanged_def cluster_contents_def split: sum.splits)
  qed
qed

lemma erase_conn_cluster:
  assumes "cluster_valid calm w conns"
  shows "cluster_valid calm (snd (erase_conn cluster_os n conns w)) (fst (erase_conn cluster_os n conns w))"
    and "cl_stores (snd (erase_conn cluster_os n conns w)) = cl_stores w"
    and "cl_out (snd (erase_conn cluster_os n conns w)) = cl_out w" and "cl_inbox (snd (erase_conn cluster_os n conns w)) = cl_inbox w"
proof -
  have sub: "distinct (map fst (filter P conns))" "distinct (map (sock_fd \<circ> snd) (filter P conns))" for P
    using assms by (simp_all add: cluster_valid_def distinct_map_filter)
  have other: "sock_fd s \<noteq> sock_fd sock" if "(n, sock) \<in> set conns" "(m, s) \<in> set conns" "m \<noteq> n" for m s sock
    using assms that inj_onD [of "sock_fd \<circ> snd" "set conns" "(m, s)" "(n, sock)"]
    by (auto simp: cluster_valid_def distinct_map)
  show "cluster_valid calm (snd (erase_conn cluster_os n conns w)) (fst (erase_conn cluster_os n conns w))"
  proof (cases "map_of conns n")
    case None
    then have "filter (\<lambda>c. fst c \<noteq> n) conns = conns" by (force simp: map_of_eq_None_iff filter_id_conv)
    then show ?thesis using None assms by (simp add: erase_conn_def)
  next
    case (Some sock)
    then have mem: "(n, sock) \<in> set conns" by (rule map_of_SomeD)
    then show ?thesis using Some assms sub other [OF mem]
      by (auto simp: erase_conn_def destroy_socket_def close_if_valid_def cluster_valid_def)
  qed
qed (simp_all add: erase_conn_def destroy_socket_def close_if_valid_def split: option.split)

lemma cluster_backends:
  "kv_backends cluster_os r cluster_contents (\<lambda>w conns. cluster_valid calm w conns \<and> cl_inbox w 3 = todo \<and> cl_out w = sofar)"
  unfolding kv_backends_def
proof (intro allI impI conjI [of "\<forall>n req conns w. _ n req conns w"], goal_cases)
  case (1 n req conns w)
  from forward_cluster [OF conjunct1 [OF 1(3)] 1(1,2)] 1(3) show ?case by metis
next
  case (2 n conns w)
  then show ?case using erase_conn_cluster [of calm w conns n] by (simp add: cluster_contents_def fun_eq_iff)
qed

lemma cluster_client_write:
  assumes "cluster_valid calm w conns"
  shows "\<exists>w'. router_write_all cluster_os 3 data w = Some (Inr (), w') \<and> cl_out w' = cl_out w @ data \<and>
    cl_inbox w' 3 = cl_inbox w 3 \<and> cluster_contents w' = cluster_contents w \<and> cluster_valid calm w' conns"
proof (cases "data = []")
  case True
  then show ?thesis using assms by (simp add: router_write_all_def, subst blocking_write.simps, simp)
next
  case False
  then have "router_write_all cluster_os 3 data w = Some (Inr (), w\<lparr>cl_out := cl_out w @ data\<rparr>)"
    by (simp add: router_write_all_def, subst blocking_write.simps, simp add: cluster_write_def, subst blocking_write.simps, simp)
  then show ?thesis using assms by (simp add: cluster_valid_def cluster_contents_def fun_eq_iff)
qed

lemma cluster_client_read:
  assumes "cluster_valid calm w conns" "sys_read cluster_os 3 4096 w = (d, w')"
  shows "cl_out w' = cl_out w" "cluster_contents w' = cluster_contents w" "cluster_valid calm w' conns"
    "cl_inbox w 3 = (case d of None \<Rightarrow> [] | Some chunk \<Rightarrow> chunk) @ cl_inbox w' 3"
  using assms by (auto simp: cluster_valid_def cluster_contents_def fun_eq_iff)

lemma cluster_channel: "client_channel cluster_os r 3 (\<lambda>w. cl_inbox w 3) cl_out cluster_contents (cluster_valid calm)"
  unfolding client_channel_def
proof (intro conjI [of "\<forall>todo sofar. _ todo sofar"] conjI [of "\<forall>data w conns. _ data w conns"] allI impI, goal_cases)
  case 1
  show ?case by (rule cluster_backends)
next
  case 2
  then show ?case by (rule cluster_client_write)
next
  case 3
  from cluster_client_read [OF 3] show ?case by blast
qed

lemma calm_answers:
  assumes "n \<in> calm" "n \<in> node_id ` set (router_nodes r)" "wf_request req"
  shows "answers cluster_os r (cluster_valid calm) req n"
  unfolding answers_def
proof (intro allI impI)
  fix conns w
  assume "cluster_valid calm w conns"
  from forward_cluster [OF this assms(2,3)] assms(1)
  obtain res conns' w' where "forward cluster_os r n req conns w = Some (Inr (res, conns'), w')" "\<not> isl res" by blast
  then show "\<exists>resp conns' w'. forward cluster_os r n req conns w = Some (Inr (Inr resp, conns'), w')"
    by (cases res) auto
qed

section \<open>Properties of the router\<close>

lemma find_filter_hd: "find P xs = (case filter P xs of [] \<Rightarrow> None | x # _ \<Rightarrow> Some x)"
  by (induction xs) simp_all

text \<open>
  Two nodes for the concrete instances: \<open>b:2\<close> is up; requests to \<open>a:1\<close> fail, the first one after it was applied.
\<close>

definition demo_router :: Router where
  "demo_router =
     \<lparr>router_socket = \<lparr>sock_fd = 2\<rparr>, router_nodes = [\<lparr>host = ''a'', port = 1\<rparr>, \<lparr>host = ''b'', port = 2\<rparr>],
      router_ring = build_ring (Suc 0) demo_ids, replication_factor = 2\<rparr>"

definition demo_cluster :: cluster where
  "demo_cluster =
     \<lparr>cl_stores = (\<lambda>_. new_store), cl_up = (\<lambda>_. True),
      cl_faults = (\<lambda>n. if n = ''a:1'' then [Response_lost, Refused] else []),
      cl_peer = Map.empty, cl_parser = (\<lambda>_. new_parser), cl_inbox = (\<lambda>_. []), cl_next = 4, cl_out = []\<rparr>"

abbreviation demo_table :: FailureDetector where
  "demo_table \<equiv> start (new_detector (router_nodes demo_router) kHeartbeatInterval kHeartbeatTimeout)"

lemma demo_router_ids: "map node_id (router_nodes demo_router) = demo_ids"
  by (simp add: demo_router_def node_id_def codec_simps)

lemma demo_router_configured: "configured demo_router"
proof -
  have "router_ring demo_router = build_ring (Suc 0) demo_ids" "replication_factor demo_router = 2" "router_nodes demo_router \<noteq> []"
    by (simp_all add: demo_router_def)
  then show ?thesis using demo_collision_free unfolding configured_def demo_router_ids by auto
qed

lemma demo_replicas: "set (replicas demo_router k) = {''a:1'', ''b:2''}"
proof (rule card_subset_eq)
  note reps = replicas_facts [OF demo_router_configured, of k]
  have ids: "node_id ` set (router_nodes demo_router) = {''a:1'', ''b:2''}"
    using arg_cong [OF demo_router_ids, of set] by simp
  show "set (replicas demo_router k) \<subseteq> {''a:1'', ''b:2''}" using reps(3) ids by simp
  have "length (replicas demo_router k) = 2" using reps(4) by (simp add: demo_router_def)
  then show "card (set (replicas demo_router k)) = card {''a:1'', ''b:2''}" using distinct_card [OF reps(2)] by simp
qed simp

lemma demo_table_alive: "is_alive demo_table n \<longleftrightarrow> n \<in> {''a:1'', ''b:2''}"
proof -
  have "is_alive demo_table n \<longleftrightarrow> is_alive (new_detector (router_nodes demo_router) kHeartbeatInterval kHeartbeatTimeout) n"
    by (simp add: is_alive_def start_def)
  also have "\<dots> \<longleftrightarrow> n \<in> set demo_ids" using is_alive_new demo_router_ids by (metis image_set)
  finally show ?thesis by simp
qed

lemma demo_cluster_valid: "cluster_valid {''b:2''} demo_cluster []"
  by (simp add: cluster_valid_def demo_cluster_def store_ok_def kv_inv_new)




text \<open>
  C9: A write reaches every live replica. \<^verbatim>\<open>route_write\<close> returns, and every replica of the key that is still
  alive afterwards has applied the request; no other node is touched. A replica is dropped only if it failed, none is
  added, and the client is told the response of the first replica that is left, or that there is none.
\<close>

theorem route_write_replicates:
  assumes "kv_backends os r contents valid" "configured r" "wf_request req" "valid w conns"
  shows "\<exists>det' conns' w'. route_write os r req det conns w = Some (Inr (answer r det' (contents w) req, det', conns'), w') \<and>
    (\<forall>n. n \<in> set (replicas r (key req)) \<and> is_alive det' n \<longrightarrow> contents w' n = snd (spec_step (contents w n) req)) \<and>
    (\<forall>n. n \<notin> set (replicas r (key req)) \<or> \<not> is_alive det n \<longrightarrow> contents w' n = contents w n) \<and>
    (\<forall>n. is_alive det' n \<longrightarrow> is_alive det n) \<and> (\<forall>n. is_alive det n \<and> answers os r valid req n \<longrightarrow> is_alive det' n)"
proof -
  obtain det' conns' w' resp where run:
    "route_write os r req det conns w = Some (Inr (answer r det' (contents w) req, det', conns'), w')"
    "routed contents req (replicas r (key req)) w det w' det' resp"
    "\<forall>n \<in> set (replicas r (key req)). is_alive det' n \<longrightarrow> contents w' n = snd (spec_step (contents w n) req)"
    "\<forall>n \<in> set (replicas r (key req)). is_alive det n \<and> answers os r valid req n \<longrightarrow> is_alive det' n"
    using route_write_outcome [OF assms, of det] by blast
  have "is_alive det' n" if "is_alive det n" "answers os r valid req n" for n
    using that run(2,4) unfolding routed_def by blast
  with run show ?thesis unfolding routed_def by blast
qed

theorem route_write_replicates_witness:
  "\<exists>det' conns' w' resp. route_write cluster_os demo_router \<lparr>command = Set, key = ''k'', req_value = ''x''\<rparr> demo_table [] demo_cluster
       = Some (Inr (resp, det', conns'), w') \<and>
     is_alive det' ''b:2'' \<and> cluster_contents w' ''b:2'' = [''k'' \<mapsto> ''x'']"
proof -
  let ?set = "\<lparr>command = Set, key = ''k'', req_value = ''x''\<rparr>"
  have wf: "wf_request ?set" by (simp add: wf_request_def is_valid_key_def limit_defs)
  have "''b:2'' \<in> node_id ` set (router_nodes demo_router)" using arg_cong [OF demo_router_ids, of set] by simp
  then have "answers cluster_os demo_router (cluster_valid {''b:2''}) ?set ''b:2''" by (intro calm_answers wf) simp_all
  with route_write_replicates [OF client_channel_backends [OF cluster_channel] demo_router_configured wf demo_cluster_valid, of demo_table]
  show ?thesis
    using demo_replicas [of "''k''"] demo_table_alive [of "''b:2''"]
    by (fastforce simp: cluster_contents_def demo_cluster_def spec_step_def)
qed

text \<open>
  C10: A read fails over within the request: if some replica that is considered alive answers, \<^verbatim>\<open>route_read\<close> returns the
  answer of a live replica, the first one in the order of the ring that was not marked down on the way; the read changes no node.
\<close>

theorem route_read_fails_over:
  assumes "kv_backends os r contents valid" "configured r" "wf_request req" "command req = Get" "valid w conns"
    and "n \<in> set (replicas r (key req))" "is_alive det n" "answers os r valid req n"
  shows "\<exists>m det' conns' w'. route_read os r req det conns w = Some (Inr (fst (spec_step (contents w m) req), det', conns'), w') \<and>
    find (is_alive det') (replicas r (key req)) = Some m \<and> is_alive det m \<and> is_alive det' n \<and> contents w' = contents w"
proof -
  obtain det' conns' w' resp where run:
    "route_read os r req det conns w = Some (Inr (answer r det' (contents w) req, det', conns'), w')"
    "routed contents req (replicas r (key req)) w det w' det' resp"
    "\<forall>n. contents w' n = contents w n \<or> contents w' n = snd (spec_step (contents w n) req)"
    "\<forall>n \<in> set (replicas r (key req)). is_alive det n \<and> answers os r valid req n \<longrightarrow> is_alive det' n"
    using route_read_outcome [OF assms(1,2,3,5), of det] by blast
  have alive: "is_alive det' n" using run(4) assms(6-8) by blast
  then obtain m ms where ms: "filter (is_alive det') (replicas r (key req)) = m # ms"
    using assms(6) by (cases "filter (is_alive det') (replicas r (key req))") (auto simp: filter_empty_conv)
  then have "find (is_alive det') (replicas r (key req)) = Some m" by (simp add: find_filter_hd)
  moreover from this have "is_alive det m" using run(2) unfolding routed_def find_Some_iff by metis
  moreover have "contents w' = contents w" using run(3) assms(4) by (simp add: spec_step_def fun_eq_iff)
  ultimately show ?thesis using run(1) ms alive by (auto simp: answer_def)
qed

theorem route_read_fails_over_witness:
  "\<exists>m det' conns' w'. route_read cluster_os demo_router \<lparr>command = Get, key = ''k'', req_value = []\<rparr> demo_table [] demo_cluster
       = Some (Inr (reply NotFound, det', conns'), w') \<and>
     find (is_alive det') (replicas demo_router ''k'') = Some m \<and> is_alive det' ''b:2'' \<and> cluster_contents w' = cluster_contents demo_cluster"
proof -
  let ?get = "\<lparr>command = Get, key = ''k'', req_value = []\<rparr>"
  have wf: "wf_request ?get" by (simp add: wf_request_def is_valid_key_def limit_defs)
  have "''b:2'' \<in> node_id ` set (router_nodes demo_router)" using arg_cong [OF demo_router_ids, of set] by simp
  then have "answers cluster_os demo_router (cluster_valid {''b:2''}) ?get ''b:2''" by (intro calm_answers wf) simp_all
  with route_read_fails_over [OF client_channel_backends [OF cluster_channel] demo_router_configured wf _ demo_cluster_valid, of "''b:2''" demo_table]
  show ?thesis
    using demo_replicas [of "''k''"] demo_table_alive [of "''b:2''"]
    by (fastforce simp: cluster_contents_def demo_cluster_def spec_step_def)
qed

end
