(* ===== verification/Router_Concurrency.thy ===== *)
theory Router_Concurrency
  imports Cluster
begin

text \<open>
  The router under concurrent clients. \<^verbatim>\<open>Router::run\<close> starts a thread per connection, and all of them share the
  failure detector, which the heartbeat thread changes as well. The two loops of \<^verbatim>\<open>src/router/router.cpp\<close> are
  opened into the steps between which another thread can run: looking a replica up in the detector, the
  moment the node applies the request, receiving its response or an exception, and marking the node down. Any number of client
  threads and the heartbeat interleave these steps freely.

  Shown: the sequential \<open>route_read\<close> and \<open>route_write\<close> are runs of these steps; as long as nothing fails, every
  interleaving is linearizable; a key that is not written by two threads at once is then the same on all replicas, but
  two concurrent writes, both acknowledged, can leave its replicas different for ever.
\<close>

section \<open>Steps\<close>

text \<open>
  Where a client thread is: between two requests, at the head of the loop (with the size of the preference
  list, the nodes left and \<^verbatim>\<open>first_success\<close>), about to exchange with a node found alive, with the node's
  answer under way, or in the exception handler.
\<close>

datatype router_pc =
  Between
| Loop Request nat "bytes list" "Response option"
| Exchange Request nat bytes "bytes list" "Response option"
| Replied Request nat bytes "bytes list" "Response option" Response
| Handler Request nat bytes "bytes list" "Response option"

datatype router_event =
  Call nat Request | Check | Apply nat bytes Request | Receive | Fail | MarkDown bytes | MarkUp bytes | Return nat Response

record routing =
  threads :: "nat \<Rightarrow> router_pc"
  shared_detector :: FailureDetector
  node_maps :: "bytes \<Rightarrow> bytes \<rightharpoonup> bytes"

definition move :: "routing \<Rightarrow> nat \<Rightarrow> router_pc \<Rightarrow> routing" where
  "move s t pc = s\<lparr>threads := (threads s)(t := pc)\<rparr>"

lemma move_simps [simp]:
  "threads (move s t pc) = (threads s)(t := pc)" "shared_detector (move s t pc) = shared_detector s" "node_maps (move s t pc) = node_maps s"
  "move (move s t pc) t pc' = move s t pc'"
  by (simp_all add: move_def)

definition start_routing :: "FailureDetector \<Rightarrow> (bytes \<Rightarrow> bytes \<rightharpoonup> bytes) \<Rightarrow> routing" where
  "start_routing det maps = \<lparr>threads = (\<lambda>_. Between), shared_detector = det, node_maps = maps\<rparr>"

text \<open>A read leaves its loop with the first response, a write goes on to the next replica.\<close>

inductive rstep :: "Router \<Rightarrow> routing \<Rightarrow> router_event \<Rightarrow> routing \<Rightarrow> bool" for r where
  call: "threads s t = Between \<Longrightarrow> wf_request req \<Longrightarrow> command req \<noteq> Ping \<Longrightarrow>
    get_nodes (router_ring r) (key req) (replication_factor r) = Some (Inr ns) \<Longrightarrow>
    rstep r s (Call t req) (move s t (Loop req (length ns) ns None))"
| skip: "threads s t = Loop req k (n # ns) f \<Longrightarrow> \<not> is_alive (shared_detector s) n \<Longrightarrow>
    rstep r s Check (move s t (Loop req k ns f))"
| check: "threads s t = Loop req k (n # ns) f \<Longrightarrow> is_alive (shared_detector s) n \<Longrightarrow>
    rstep r s Check (move s t (Exchange req k n ns f))"
| applied: "threads s t = Exchange req k n ns f \<Longrightarrow> spec_step (node_maps s n) req = (resp, m) \<Longrightarrow>
    rstep r s (Apply t n req) (move (s\<lparr>node_maps := (node_maps s)(n := m)\<rparr>) t (Replied req k n ns f resp))"
| receive: "threads s t = Replied req k n ns f resp \<Longrightarrow>
    rstep r s Receive
      (move s t (Loop req k (if command req = Get then [] else ns) (case f of None \<Rightarrow> Some resp | Some x \<Rightarrow> Some x)))"
| unsent: "threads s t = Exchange req k n ns f \<Longrightarrow> rstep r s Fail (move s t (Handler req k n ns f))"
| lost: "threads s t = Replied req k n ns f resp \<Longrightarrow> rstep r s Fail (move s t (Handler req k n ns f))"
| handler: "threads s t = Handler req k n ns f \<Longrightarrow>
    rstep r s (MarkDown n) (move (s\<lparr>shared_detector := mark_down (shared_detector s) n\<rparr>) t (Loop req k ns f))"
| returned: "threads s t = Loop req k [] f \<Longrightarrow>
    rstep r s (Return t (case f of None \<Rightarrow> no_live_replica_error k | Some x \<Rightarrow> x)) (move s t Between)"
| ping_up: "n \<in> node_id ` set (fd_nodes (shared_detector s)) \<Longrightarrow>
    rstep r s (MarkUp n) (s\<lparr>shared_detector := mark_up (shared_detector s) n\<rparr>)"
| ping_down: "n \<in> node_id ` set (fd_nodes (shared_detector s)) \<Longrightarrow>
    rstep r s (MarkDown n) (s\<lparr>shared_detector := mark_down (shared_detector s) n\<rparr>)"

text \<open>Runs in which every state satisfies \<open>P\<close>.\<close>

inductive rrun :: "Router \<Rightarrow> (routing \<Rightarrow> bool) \<Rightarrow> routing \<Rightarrow> router_event list \<Rightarrow> routing \<Rightarrow> bool" for r P s0 where
  init: "P s0 \<Longrightarrow> rrun r P s0 [] s0"
| step: "rrun r P s0 es s \<Longrightarrow> rstep r s e s' \<Longrightarrow> P s' \<Longrightarrow> rrun r P s0 (es @ [e]) s'"

abbreviation any_run :: "Router \<Rightarrow> routing \<Rightarrow> router_event list \<Rightarrow> routing \<Rightarrow> bool" where
  "any_run r \<equiv> rrun r (\<lambda>_. True)"

lemma rrun_trans:
  assumes "rrun r P s1 es s2" "rrun r P s2 es' s3"
  shows "rrun r P s1 (es @ es') s3"
  using assms(2,1)
proof (induction rule: rrun.induct)
  case (step es' s e s')
  from rrun.step [OF step.IH [OF step.prems] step.hyps(2,3)] show ?case by simp
qed simp

lemma run_step: "rstep r s e s' \<Longrightarrow> P s \<Longrightarrow> P s' \<Longrightarrow> rrun r P s [e] s'"
  using rrun.step [OF rrun.init, of P s r e s'] by simp

lemma any_run_step: "rstep r s e s' \<Longrightarrow> any_run r s [e] s'"
  by (rule run_step) simp_all

lemma rrun_where: "rrun r P s0 es s \<Longrightarrow> P s"
  by (induction rule: rrun.induct)

fun is_failure :: "router_event \<Rightarrow> bool" where
  "is_failure Fail = True"
| "is_failure (MarkDown n) = True"
| "is_failure _ = False"

abbreviation failure_free :: "router_event list \<Rightarrow> bool" where
  "failure_free es \<equiv> list_all (\<lambda>e. \<not> is_failure e) es"

section \<open>The sequential loops are runs\<close>

text \<open>One replica, tried without interference.\<close>

lemma run_answered:
  assumes "threads s t = Loop req k (n # ns) f" "is_alive (shared_detector s) n" "spec_step (node_maps s n) req = (resp, m)"
    and P: "P s" "\<And>maps pc. P (move (s\<lparr>node_maps := maps\<rparr>) t pc)"
  shows "rrun r P s [Check, Apply t n req, Receive]
    (move (s\<lparr>node_maps := (node_maps s)(n := m)\<rparr>) t
      (Loop req k (if command req = Get then [] else ns) (case f of None \<Rightarrow> Some resp | Some x \<Rightarrow> Some x)))"
proof -
  let ?s1 = "move s t (Exchange req k n ns f)"
  let ?s2 = "move (s\<lparr>node_maps := (node_maps s)(n := m)\<rparr>) t (Replied req k n ns f resp)"
  let ?s3 = "move ?s2 t (Loop req k (if command req = Get then [] else ns) (case f of None \<Rightarrow> Some resp | Some x \<Rightarrow> Some x))"
  have "P ?s1" using P(2) [of "node_maps s"] by simp
  then have "rrun r P s [Check] ?s1" using assms by (intro run_step rstep.check)
  moreover have "rstep r ?s1 (Apply t n req) (move (?s1\<lparr>node_maps := (node_maps ?s1)(n := m)\<rparr>) t (Replied req k n ns f resp))"
    using assms(3) by (intro rstep.applied) simp_all
  then have "rstep r ?s1 (Apply t n req) ?s2" by (simp add: move_def)
  then have "rrun r P ?s1 [Apply t n req] ?s2" using \<open>P ?s1\<close> P(2) by (intro run_step)
  moreover have "rrun r P ?s2 [Receive] ?s3" using P(2) by (intro run_step rstep.receive) simp_all
  ultimately have "rrun r P s ([Check] @ [Apply t n req] @ [Receive]) ?s3" by (meson rrun_trans)
  then show ?thesis by simp
qed

lemma run_failed:
  assumes "threads s t = Loop req k (n # ns) f" "is_alive (shared_detector s) n"
    and "m = node_maps s n \<or> m = snd (spec_step (node_maps s n) req)"
  shows "\<exists>es. any_run r s es (move (s\<lparr>shared_detector := mark_down (shared_detector s) n, node_maps := (node_maps s)(n := m)\<rparr>) t
      (Loop req k ns f))"
proof -
  let ?s1 = "move s t (Exchange req k n ns f)"
  let ?h = "move (s\<lparr>node_maps := (node_maps s)(n := m)\<rparr>) t (Handler req k n ns f)"
  have check: "any_run r s [Check] ?s1" using assms(1,2) by (intro any_run_step rstep.check)
  have "\<exists>es. any_run r ?s1 es ?h"
  proof (cases "m = node_maps s n")
    case True
    then have "?h = move ?s1 t (Handler req k n ns f)" by (simp add: move_def)
    then show ?thesis using any_run_step [OF rstep.unsent, of ?s1 t req k n ns f r] by auto
  next
    case False
    obtain resp where resp: "spec_step (node_maps s n) req = (resp, m)" using False assms(3) by (metis prod.collapse)
    let ?s2 = "move (?s1\<lparr>node_maps := (node_maps ?s1)(n := m)\<rparr>) t (Replied req k n ns f resp)"
    have "any_run r ?s1 [Apply t n req] ?s2" using resp by (intro any_run_step rstep.applied) simp_all
    moreover have "any_run r ?s2 [Fail] (move ?s2 t (Handler req k n ns f))" by (intro any_run_step rstep.lost) simp
    moreover have "move ?s2 t (Handler req k n ns f) = ?h" by (simp add: move_def)
    ultimately show ?thesis using rrun_trans by metis
  qed
  moreover have "any_run r ?h [MarkDown n] (move (?h\<lparr>shared_detector := mark_down (shared_detector ?h) n\<rparr>) t (Loop req k ns f))"
    by (intro any_run_step rstep.handler) simp
  moreover have "move (?h\<lparr>shared_detector := mark_down (shared_detector ?h) n\<rparr>) t (Loop req k ns f) =
      move (s\<lparr>shared_detector := mark_down (shared_detector s) n, node_maps := (node_maps s)(n := m)\<rparr>) t (Loop req k ns f)"
    by (simp add: move_def)
  ultimately show ?thesis using check rrun_trans by metis
qed

text \<open>The state in which thread \<open>t\<close> is at \<open>pc\<close> and the cluster is as given.\<close>

abbreviation routing_at :: "routing \<Rightarrow> nat \<Rightarrow> router_pc \<Rightarrow> FailureDetector \<Rightarrow> (bytes \<Rightarrow> bytes \<rightharpoonup> bytes) \<Rightarrow> routing" where
  "routing_at s t pc det maps \<equiv> move (s\<lparr>shared_detector := det, node_maps := maps\<rparr>) t pc"

lemma try_replica_run:
  assumes "kv_backends os r contents valid" "n \<in> node_id ` set (router_nodes r)" "wf_request req" "valid w conns" "is_alive det n"
    and "try_replica os r req n det conns w = Some (Inr (resp, det', conns'), w')"
  shows "valid w' conns' \<and> (\<exists>es. any_run r (routing_at s t (Loop req k (n # ns) f) det (contents w)) es
    (routing_at s t (Loop req k (if command req = Get \<and> resp \<noteq> None then [] else ns) (case f of None \<Rightarrow> resp | Some x \<Rightarrow> Some x))
      det' (contents w')))"
proof -
  obtain resp1 det1 conns1 w1 where run: "try_replica os r req n det conns w = Some (Inr (resp1, det1, conns1), w1)"
    and out1: "valid w1 conns1" "\<And>m. m \<noteq> n \<Longrightarrow> contents w1 m = contents w m"
    "resp1 = None \<and> det1 = mark_down det n \<and> \<not> answers os r valid req n \<and>
       (contents w1 n = contents w n \<or> contents w1 n = snd (spec_step (contents w n) req)) \<or>
     resp1 = Some (fst (spec_step (contents w n) req)) \<and> det1 = det \<and> contents w1 n = snd (spec_step (contents w n) req)"
    by (rule try_replica_outcome [OF assms(1-4), of det], rule that, assumption, assumption, blast, assumption)
  have same: "resp1 = resp" "det1 = det'" "conns1 = conns'" "w1 = w'" using run assms(6) by simp_all
  note out = out1 [unfolded same]
  let ?s = "routing_at s t (Loop req k (n # ns) f) det (contents w)"
  have maps: "(contents w)(n := contents w' n) = contents w'" using out(2) by auto
  have at: "threads ?s t = Loop req k (n # ns) f" "is_alive (shared_detector ?s) n" "node_maps ?s = contents w"
    using assms(5) by simp_all
  from out(3) show ?thesis
  proof (rule disjE)
    assume "resp = None \<and> det' = mark_down det n \<and> \<not> answers os r valid req n \<and>
      (contents w' n = contents w n \<or> contents w' n = snd (spec_step (contents w n) req))"
    then have resp: "resp = None" "det' = mark_down det n" and "contents w' n = contents w n \<or> contents w' n = snd (spec_step (contents w n) req)"
      by simp_all
    then have "contents w' n = node_maps ?s n \<or> contents w' n = snd (spec_step (node_maps ?s n) req)" using at(3) by simp
    from run_failed [OF at(1,2) this, of r] have "\<exists>es. any_run r ?s es (routing_at s t (Loop req k ns f) det' (contents w'))"
      by (simp add: move_def maps resp)
    moreover have "(case f of None \<Rightarrow> resp | Some x \<Rightarrow> Some x) = f" using resp(1) by (simp split: option.split)
    ultimately show ?thesis using out(1) resp(1) by simp
  next
    assume resp: "resp = Some (fst (spec_step (contents w n) req)) \<and> det' = det \<and> contents w' n = snd (spec_step (contents w n) req)"
    then have "spec_step (node_maps ?s n) req = (the resp, contents w' n)" using at(3) by simp
    note run = run_answered [OF at(1,2) this, of "\<lambda>_. True" r, simplified simp_thms]
    have same': "Some (the resp) = resp" "det' = det" using resp by simp_all
    have "?s\<lparr>node_maps := (node_maps ?s)(n := contents w' n)\<rparr> = routing_at s t (Loop req k (n # ns) f) det' (contents w')"
      by (simp add: move_def maps same')
    with run have "any_run r ?s [Check, Apply t n req, Receive]
      (routing_at s t (Loop req k (if command req = Get then [] else ns) (case f of None \<Rightarrow> resp | Some x \<Rightarrow> Some x)) det' (contents w'))"
      by (simp only: same' move_simps)
    then show ?thesis using out(1) resp by auto
  qed
qed


lemma skip_run:
  assumes "\<not> is_alive det n"
  shows "any_run r (routing_at s t (Loop req k (n # ns) f) det maps) [Check] (routing_at s t (Loop req k ns f) det maps)"
proof -
  let ?s = "routing_at s t (Loop req k (n # ns) f) det maps"
  have "any_run r ?s [Check] (move ?s t (Loop req k ns f))" using assms by (intro any_run_step rstep.skip) simp_all
  then show ?thesis by simp
qed

lemma try_writes_run:
  assumes backends: "kv_backends os r contents valid" and req: "wf_request req" "command req \<noteq> Get"
    and "set ns \<subseteq> node_id ` set (router_nodes r)" "valid w conns"
    and "try_writes os r req ns f det conns w = Some (Inr (f', det', conns'), w')"
  shows "\<exists>es. any_run r (routing_at s t (Loop req k ns f) det (contents w)) es (routing_at s t (Loop req k [] f') det' (contents w'))"
  using assms(4-)
proof (induction ns arbitrary: f det conns w)
  case Nil
  then show ?case using rrun.init [of "\<lambda>_. True"] by auto
next
  case (Cons n ns)
  show ?case
  proof (cases "is_alive det n")
    case False
    with Cons.prems have "\<exists>es. any_run r (routing_at s t (Loop req k ns f) det (contents w)) es (routing_at s t (Loop req k [] f') det' (contents w'))"
      by (intro Cons.IH [of w conns]) simp_all
    with skip_run [OF False, where r = r and s = s and t = t and req = req and k = k and ns = ns and f = f and maps = "contents w"] show ?thesis using rrun_trans by blast
  next
    case True
    from Cons.prems(3) True obtain resp det1 conns1 w1 where
      try1: "try_replica os r req n det conns w = Some (Inr (resp, det1, conns1), w1)"
      and rest: "try_writes os r req ns (case f of None \<Rightarrow> resp | Some x \<Rightarrow> Some x) det1 conns1 w1 = Some (Inr (f', det', conns'), w')"
      by (auto elim!: io_bind_SomeE)
    have n: "n \<in> node_id ` set (router_nodes r)" "set ns \<subseteq> node_id ` set (router_nodes r)" using Cons.prems(1) by simp_all
    note one = try_replica_run [OF backends n(1) req(1) Cons.prems(2) True try1, of s t k ns f]
    then obtain es1 where "any_run r (routing_at s t (Loop req k (n # ns) f) det (contents w)) es1
      (routing_at s t (Loop req k ns (case f of None \<Rightarrow> resp | Some x \<Rightarrow> Some x)) det1 (contents w1))"
      using req(2) by auto
    moreover from Cons.IH [OF n(2) _ rest] one obtain es2 where
      "any_run r (routing_at s t (Loop req k ns (case f of None \<Rightarrow> resp | Some x \<Rightarrow> Some x)) det1 (contents w1)) es2
        (routing_at s t (Loop req k [] f') det' (contents w'))" by blast
    ultimately show ?thesis using rrun_trans by blast
  qed
qed

lemma try_reads_run:
  assumes backends: "kv_backends os r contents valid" and req: "wf_request req" "command req = Get"
    and "set ns \<subseteq> node_id ` set (router_nodes r)" "valid w conns"
    and "try_reads os r req ns det conns w = Some (Inr (f', det', conns'), w')"
  shows "\<exists>es. any_run r (routing_at s t (Loop req k ns None) det (contents w)) es (routing_at s t (Loop req k [] f') det' (contents w'))"
  using assms(4-)
proof (induction ns arbitrary: det conns w)
  case Nil
  then show ?case using rrun.init [of "\<lambda>_. True"] by auto
next
  case (Cons n ns)
  show ?case
  proof (cases "is_alive det n")
    case False
    with Cons.prems have "\<exists>es. any_run r (routing_at s t (Loop req k ns None) det (contents w)) es (routing_at s t (Loop req k [] f') det' (contents w'))"
      by (intro Cons.IH [of w conns]) simp_all
    with skip_run [OF False, where r = r and s = s and t = t and req = req and k = k and ns = ns and f = None and maps = "contents w"] show ?thesis using rrun_trans by blast
  next
    case True
    from Cons.prems(3) True obtain resp det1 conns1 w1 where
      try1: "try_replica os r req n det conns w = Some (Inr (resp, det1, conns1), w1)"
      and rest: "(case resp of Some x \<Rightarrow> io_return (Some x, det1, conns1) | None \<Rightarrow> try_reads os r req ns det1 conns1) w1
        = Some (Inr (f', det', conns'), w')"
      by (auto elim!: io_bind_SomeE)
    have n: "n \<in> node_id ` set (router_nodes r)" "set ns \<subseteq> node_id ` set (router_nodes r)" using Cons.prems(1) by simp_all
    note one = try_replica_run [OF backends n(1) req(1) Cons.prems(2) True try1, of s t k ns None]
    show ?thesis
    proof (cases resp)
      case None
      with one obtain es1 where "any_run r (routing_at s t (Loop req k (n # ns) None) det (contents w)) es1
        (routing_at s t (Loop req k ns None) det1 (contents w1))" by auto
      moreover from Cons.IH [OF n(2), of w1 conns1 det1] one rest None obtain es2 where
        "any_run r (routing_at s t (Loop req k ns None) det1 (contents w1)) es2 (routing_at s t (Loop req k [] f') det' (contents w'))"
        by auto
      ultimately show ?thesis using rrun_trans by blast
    next
      case (Some x)
      with rest have "f' = Some x" "det' = det1" "w' = w1" by simp_all
      with one Some req(2) show ?thesis by simp
    qed
  qed
qed

text \<open>A call, the loop, and the return.\<close>

lemma loop_run:
  assumes "configured r" "wf_request req" "command req \<noteq> Ping" "threads s t = Between"
    and "any_run r (routing_at s t (Loop req (length (replicas r (key req))) (replicas r (key req)) None) (shared_detector s) (node_maps s)) es
      (routing_at s t (Loop req (length (replicas r (key req))) [] f) det' maps')"
  shows "any_run r s (Call t req # es @ [Return t (case f of None \<Rightarrow> no_live_replica_error (length (replicas r (key req))) | Some x \<Rightarrow> x)])
    (s\<lparr>shared_detector := det', node_maps := maps'\<rparr>)"
proof -
  let ?k = "length (replicas r (key req))"
  let ?s2 = "routing_at s t (Loop req ?k [] f) det' maps'"
  let ?ret = "Return t (case f of None \<Rightarrow> no_live_replica_error ?k | Some x \<Rightarrow> x)"
  have "routing_at s t (Loop req ?k (replicas r (key req)) None) (shared_detector s) (node_maps s)
      = move s t (Loop req ?k (replicas r (key req)) None)" by simp
  moreover have "any_run r s [Call t req] (move s t (Loop req ?k (replicas r (key req)) None))"
    using assms(2-4) replicas_facts(1) [OF assms(1)] by (intro any_run_step rstep.call)
  ultimately have "any_run r s ([Call t req] @ es) ?s2" using assms(5) by (simp only: rrun_trans)
  moreover have "any_run r ?s2 [?ret] (move ?s2 t Between)" by (intro any_run_step rstep.returned) simp
  moreover have "move ?s2 t Between = s\<lparr>shared_detector := det', node_maps := maps'\<rparr>" using assms(4) by (simp add: move_def fun_upd_idem)
  ultimately have "any_run r s (([Call t req] @ es) @ [?ret]) (s\<lparr>shared_detector := det', node_maps := maps'\<rparr>)"
    by (simp only: rrun_trans)
  then show ?thesis by simp
qed


lemma route_request_run:
  assumes "kv_backends os r contents valid" "configured r" "wf_request req" "command req \<noteq> Ping" "valid w conns" "threads s t = Between"
    and "(if command req = Get then route_read os r req (shared_detector s) conns else route_write os r req (shared_detector s) conns) w
      = Some (Inr (resp, det', conns'), w')"
    and "node_maps s = contents w"
  shows "\<exists>es. any_run r s (Call t req # es @ [Return t resp]) (s\<lparr>shared_detector := det', node_maps := contents w'\<rparr>)"
proof -
  note reps = replicas_facts [OF assms(2), of "key req"]
  let ?k = "length (replicas r (key req))"
  let ?answer = "\<lambda>f. case f of None \<Rightarrow> no_live_replica_error ?k | Some x \<Rightarrow> x"
  have "\<exists>f es. resp = ?answer f \<and>
    any_run r (routing_at s t (Loop req ?k (replicas r (key req)) None) (shared_detector s) (contents w)) es
      (routing_at s t (Loop req ?k [] f) det' (contents w'))"
  proof (cases "command req = Get")
    case True
    with assms(7) reps(1) obtain f where "try_reads os r req (replicas r (key req)) (shared_detector s) conns w = Some (Inr (f, det', conns'), w')"
      and f: "resp = ?answer f"
      by (auto simp: route_read_def with_replicas_def elim!: io_bind_SomeE)
    from try_reads_run [OF assms(1,3) True reps(3) assms(5) this(1), of s t ?k] f show ?thesis by blast
  next
    case False
    with assms(7) reps(1) obtain f where "try_writes os r req (replicas r (key req)) None (shared_detector s) conns w = Some (Inr (f, det', conns'), w')"
      and f: "resp = ?answer f"
      by (auto simp: route_write_def with_replicas_def elim!: io_bind_SomeE)
    from try_writes_run [OF assms(1,3) False reps(3) assms(5) this(1), of s t ?k] f show ?thesis by blast
  qed
  then obtain f es where "resp = ?answer f" and
    "any_run r (routing_at s t (Loop req ?k (replicas r (key req)) None) (shared_detector s) (node_maps s)) es
      (routing_at s t (Loop req ?k [] f) det' (contents w'))"
    unfolding assms(8) by blast
  from loop_run [OF assms(2,3,4,6) this(2)] this(1) show ?thesis by blast
qed

section \<open>Linearizability\<close>

text \<open>
  The sequential specification, as a reader of the events: every request is executed at one moment between its
  call and its return, the moment the first node of its preference list applies it, and the value
  returned is the one the map gives there.
\<close>

datatype pending = Out | Called Request | Decided Response

fun lin_event :: "Router \<Rightarrow> router_event \<Rightarrow> (bytes \<rightharpoonup> bytes) \<times> (nat \<Rightarrow> pending) \<Rightarrow> ((bytes \<rightharpoonup> bytes) \<times> (nat \<Rightarrow> pending)) option" where
  "lin_event r (Call t req) (m, p) = (if p t = Out then Some (m, p(t := Called req)) else None)"
| "lin_event r (Apply t n req) (m, p) =
     (if n \<noteq> hd (replicas r (key req)) then Some (m, p)
      else if p t = Called req then Some (snd (spec_step m req), p(t := Decided (fst (spec_step m req)))) else None)"
| "lin_event r (Return t resp) (m, p) = (if p t = Decided resp then Some (m, p(t := Out)) else None)"
| "lin_event r _ (m, p) = Some (m, p)"

definition lin_run :: "Router \<Rightarrow> (bytes \<rightharpoonup> bytes) \<Rightarrow> router_event list \<Rightarrow> ((bytes \<rightharpoonup> bytes) \<times> (nat \<Rightarrow> pending)) option" where
  "lin_run r m es = foldl (\<lambda>a e. Option.bind a (lin_event r e)) (Some (m, \<lambda>_. Out)) es"

definition primary_map :: "Router \<Rightarrow> (bytes \<Rightarrow> bytes \<rightharpoonup> bytes) \<Rightarrow> bytes \<rightharpoonup> bytes" where
  "primary_map r maps = (\<lambda>k. maps (hd (replicas r k)) k)"

fun lin_loop :: "bytes list \<Rightarrow> Request \<Rightarrow> bytes list \<Rightarrow> Response option \<Rightarrow> pending \<Rightarrow> bool" where
  "lin_loop reps req ns None p \<longleftrightarrow> ns = reps \<and> p = Called req"
| "lin_loop reps req ns (Some resp) p \<longleftrightarrow> set ns \<subseteq> set (tl reps) \<and> p = Decided resp"

lemma lin_loop_member: "lin_loop reps req (n # ns) f p \<Longrightarrow> n \<in> set reps"
  by (cases f; cases reps) auto

fun lin_pc :: "Router \<Rightarrow> router_pc \<Rightarrow> pending \<Rightarrow> bool" where
  "lin_pc r Between p \<longleftrightarrow> p = Out"
| "lin_pc r (Loop req k ns f) p \<longleftrightarrow> lin_loop (replicas r (key req)) req ns f p"
| "lin_pc r (Exchange req k n ns f) p \<longleftrightarrow> lin_loop (replicas r (key req)) req (n # ns) f p"
| "lin_pc r (Replied req k n ns f resp) p \<longleftrightarrow>
     set ns \<subseteq> set (tl (replicas r (key req))) \<and> p = Decided (case f of None \<Rightarrow> resp | Some x \<Rightarrow> x)"
| "lin_pc r (Handler req k n ns f) p \<longleftrightarrow> False"

definition lin_inv :: "Router \<Rightarrow> routing \<Rightarrow> (bytes \<rightharpoonup> bytes) \<times> (nat \<Rightarrow> pending) \<Rightarrow> bool" where
  "lin_inv r s a \<longleftrightarrow> (\<forall>n \<in> node_id ` set (router_nodes r). is_alive (shared_detector s) n) \<and>
     primary_map r (node_maps s) = fst a \<and> (\<forall>t. lin_pc r (threads s t) (snd a t))"

lemma lin_inv_move:
  assumes "lin_inv r s (m, p)" "lin_pc r pc q"
  shows "lin_inv r (move s t pc) (m, p(t := q))"
  using assms by (simp add: lin_inv_def)

lemma lin_inv_move_same:
  assumes "lin_inv r s (m, p)" "lin_pc r pc (p t)"
  shows "lin_inv r (move s t pc) (m, p)"
  using assms by (simp add: lin_inv_def)

lemma replicas_nonempty: "configured r \<Longrightarrow> replicas r k \<noteq> []"
  using replicas_facts(4) [of r k] by (auto simp: configured_def min_def split: if_splits)

lemma primary_map_update:
  "primary_map r (maps(n := snd (spec_step (maps n) req))) =
     (if n = hd (replicas r (key req)) then snd (spec_step (primary_map r maps) req) else primary_map r maps)"
proof
  fix k
  show "primary_map r (maps(n := snd (spec_step (maps n) req))) k =
     (if n = hd (replicas r (key req)) then snd (spec_step (primary_map r maps) req) else primary_map r maps) k"
  proof (cases "k = key req")
    case True
    then show ?thesis using spec_step_local(2) [of "maps n" req "primary_map r maps"] by (auto simp: primary_map_def)
  next
    case False
    then show ?thesis by (auto simp: primary_map_def spec_step_local(1))
  qed
qed

lemma lin_inv_applied:
  assumes "configured r" "lin_inv r s (m, p)" "threads s t = Exchange req k n ns f" "spec_step (node_maps s n) req = (resp, m')"
  shows "\<exists>a'. lin_event r (Apply t n req) (m, p) = Some a' \<and>
    lin_inv r (move (s\<lparr>node_maps := (node_maps s)(n := m')\<rparr>) t (Replied req k n ns f resp)) a'"
proof -
  let ?s = "s\<lparr>node_maps := (node_maps s)(n := m')\<rparr>"
  note reps = replicas_facts(2) [OF assms(1), of "key req"] replicas_nonempty [OF assms(1), of "key req"]
  have m: "primary_map r (node_maps s) = m" and pc: "lin_loop (replicas r (key req)) req (n # ns) f (p t)"
    using assms(2,3) by (auto simp: lin_inv_def dest: spec [of _ t])
  have upd: "primary_map r ((node_maps s)(n := m')) = (if n = hd (replicas r (key req)) then snd (spec_step m req) else m)"
    using primary_map_update [of r "node_maps s" n req] assms(4) m by simp
  show ?thesis
  proof (cases f)
    case None
    with pc have n: "n = hd (replicas r (key req))" "ns = tl (replicas r (key req))" "p t = Called req" by (metis lin_loop.simps(1) list.sel(1,3))+
    have "m (key req) = node_maps s n (key req)" using m n(1) by (auto simp: primary_map_def)
    then have resp: "resp = fst (spec_step m req)" using spec_step_local(3) [of "node_maps s n" req m] assms(4) by simp
    have "lin_inv r ?s (snd (spec_step m req), p(t := p t))"
      using assms(2) upd n(1) by (simp add: lin_inv_def)
    then have "lin_inv r (move ?s t (Replied req k n ns f resp)) (snd (spec_step m req), p(t := Decided resp))"
      using n(2) None by (simp add: lin_inv_def)
    then show ?thesis using n resp by simp
  next
    case (Some x)
    with pc have n: "n \<in> set (tl (replicas r (key req)))" "set ns \<subseteq> set (tl (replicas r (key req)))" "p t = Decided x" by simp_all
    then have "n \<noteq> hd (replicas r (key req))" using reps by (cases "replicas r (key req)") auto
    moreover have "lin_inv r (move ?s t (Replied req k n ns f resp)) (m, p)"
      using assms(2) upd n calculation Some by (simp add: lin_inv_def)
    ultimately show ?thesis by simp
  qed
qed

lemma lin_inv_step:
  assumes "configured r" "lin_inv r s a" "rstep r s e s'" "\<not> is_failure e"
  shows "\<exists>a'. lin_event r e a = Some a' \<and> lin_inv r s' a'"
proof -
  obtain m p where a: "a = (m, p)" by fastforce
  note inv = assms(2) [unfolded a]
  have pcs: "lin_pc r (threads s t) (p t)" for t using inv by (simp add: lin_inv_def)
  have alive: "is_alive (shared_detector s) n" if "n \<in> set (replicas r k)" for n k
    using that inv replicas_facts(3) [OF assms(1), of k] by (auto simp: lin_inv_def)
  from assms(3,4) have "\<exists>a'. lin_event r e (m, p) = Some a' \<and> lin_inv r s' a'"
  proof (cases rule: rstep.cases)
    case (call t req ns)
    have "p t = Out" using pcs [of t] call by simp
    moreover have "ns = replicas r (key req)" using call replicas_facts(1) [OF assms(1)] by simp
    ultimately show ?thesis using lin_inv_move [OF inv, of "Loop req (length ns) ns None" "Called req" t] call by simp
  next
    case (skip t req k n ns f)
    have "n \<in> set (replicas r (key req))" using pcs [of t] skip lin_loop_member by (metis lin_pc.simps(2))
    with alive skip show ?thesis by blast
  next
    case (check t req k n ns f)
    have "lin_pc r (Exchange req k n ns f) (p t)" using pcs [of t] check by simp
    with check show ?thesis using lin_inv_move_same [OF inv] by simp
  next
    case (applied t req k n ns f resp m')
    from lin_inv_applied [OF assms(1) inv applied(3,4)] applied show ?thesis by simp
  next
    case (receive t req k n ns f resp)
    have "lin_pc r (Loop req k (if command req = Get then [] else ns) (case f of None \<Rightarrow> Some resp | Some x \<Rightarrow> Some x)) (p t)"
      using pcs [of t] receive by (cases f) simp_all
    with receive show ?thesis using lin_inv_move_same [OF inv] by simp
  next
    case (returned t req k f)
    have "p t = Decided (case f of None \<Rightarrow> no_live_replica_error k | Some x \<Rightarrow> x)"
      using pcs [of t] returned replicas_nonempty [OF assms(1), of "key req"] by (cases f) auto
    with returned show ?thesis using lin_inv_move [OF inv, of Between Out t] by simp
  next
    case (ping_up n)
    with inv show ?thesis by (simp add: lin_inv_def table.alive_up)
  qed simp_all
  then show ?thesis by (simp only: a)
qed

lemma lin_inv_run:
  assumes "configured r" "\<forall>n \<in> node_id ` set (router_nodes r). is_alive det n"
    and "rrun r P (start_routing det maps) es s" "failure_free es"
  shows "\<exists>a. lin_run r (primary_map r maps) es = Some a \<and> lin_inv r s a"
  using assms(3,4)
proof (induction rule: rrun.induct)
  case init
  then show ?case using assms(2) by (simp add: lin_run_def lin_inv_def start_routing_def)
next
  case (step es s e s')
  then obtain a where a: "lin_run r (primary_map r maps) es = Some a" "lin_inv r s a" by auto
  from lin_inv_step [OF assms(1) a(2) step.hyps(2)] step.prems a(1) show ?case by (auto simp: lin_run_def)
qed


section \<open>One writer per key\<close>

fun active :: "router_pc \<Rightarrow> Request option" where
  "active Between = None"
| "active (Loop req k ns f) = Some req"
| "active (Exchange req k n ns f) = Some req"
| "active (Replied req k n ns f resp) = Some req"
| "active (Handler req k n ns f) = Some req"

text \<open>The replicas that have not applied the request yet.\<close>

fun remaining :: "router_pc \<Rightarrow> bytes set" where
  "remaining Between = {}"
| "remaining (Loop req k ns f) = set ns"
| "remaining (Exchange req k n ns f) = insert n (set ns)"
| "remaining (Replied req k n ns f resp) = set ns"
| "remaining (Handler req k n ns f) = set ns"

definition writes :: "bytes \<Rightarrow> router_pc \<Rightarrow> bool" where
  "writes k pc \<longleftrightarrow> (case active pc of None \<Rightarrow> False | Some req \<Rightarrow> command req \<in> {Set, Delete} \<and> key req = k)"

definition one_writer :: "bytes \<Rightarrow> routing \<Rightarrow> bool" where
  "one_writer k s \<longleftrightarrow> (\<forall>t u. writes k (threads s t) \<and> writes k (threads s u) \<longrightarrow> t = u)"

text \<open>What a write leaves under its key, whatever was there.\<close>

definition target :: "Request \<Rightarrow> bytes option" where
  "target req = snd (spec_step Map.empty req) (key req)"

lemma spec_step_target: "command req \<in> {Set, Delete} \<Longrightarrow> snd (spec_step m req) (key req) = target req"
  by (auto simp: target_def spec_step_def)

lemma spec_step_other: "\<not> (command req \<in> {Set, Delete} \<and> key req = k) \<Longrightarrow> snd (spec_step m req) k = m k"
  by (cases "command req") (auto simp: spec_step_def)

definition in_sync :: "Router \<Rightarrow> bytes \<Rightarrow> routing \<Rightarrow> bool" where
  "in_sync r k s \<longleftrightarrow>
     (\<forall>t req n. writes k (threads s t) \<and> active (threads s t) = Some req \<and> n \<in> set (replicas r k) - remaining (threads s t) \<longrightarrow>
        node_maps s n k = target req) \<and>
     ((\<forall>t. \<not> writes k (threads s t)) \<longrightarrow> (\<forall>n \<in> set (replicas r k). node_maps s n k = primary_map r (node_maps s) k))"

lemma in_sync_cong:
  assumes "threads s' = threads s" "\<And>n. node_maps s' n k = node_maps s n k"
  shows "in_sync r k s' \<longleftrightarrow> in_sync r k s"
  by (simp add: in_sync_def primary_map_def assms)

lemma in_sync_writer:
  assumes "in_sync r k s" "writes k (threads s t)" "active (threads s t) = Some req" "n \<in> set (replicas r k)" "n \<notin> remaining (threads s t)"
  shows "node_maps s n k = target req"
  using assms unfolding in_sync_def by blast

lemma in_sync_moveI:
  assumes sync: "in_sync r k s"
    and t: "\<And>req n. writes k pc \<Longrightarrow> active pc = Some req \<Longrightarrow> n \<in> set (replicas r k) \<Longrightarrow> n \<notin> remaining pc \<Longrightarrow> node_maps s n k = target req"
    and quiet: "\<And>n. \<not> writes k pc \<Longrightarrow> (\<And>u. u \<noteq> t \<Longrightarrow> \<not> writes k (threads s u)) \<Longrightarrow> n \<in> set (replicas r k) \<Longrightarrow>
      node_maps s n k = primary_map r (node_maps s) k"
  shows "in_sync r k (move s t pc)"
  unfolding in_sync_def
proof (intro conjI allI impI ballI, goal_cases)
  case (1 u req n)
  then show ?case using sync t [of req n] by (cases "u = t") (auto simp: in_sync_def)
next
  case (2 n)
  have "\<not> writes k (threads s u)" if "u \<noteq> t" for u using that 2(1) [THEN spec, of u] by simp
  moreover have "\<not> writes k pc" using 2(1) [THEN spec, of t] by simp
  ultimately show ?case using quiet 2(2) by simp
qed

lemma in_sync_move:
  assumes "in_sync r k s" "writes k pc \<longleftrightarrow> writes k (threads s t)"
    and "writes k pc \<Longrightarrow> active pc = active (threads s t) \<and> remaining pc = remaining (threads s t)"
  shows "in_sync r k (move s t pc)"
proof (rule in_sync_moveI [OF assms(1)], goal_cases)
  case (1 req n)
  then show ?case using in_sync_writer [OF assms(1), of t req n] assms(2,3) by simp
next
  case (2 n)
  have "\<not> writes k (threads s u)" for u using 2(1,2) assms(2) by (cases "u = t") simp_all
  then show ?case using assms(1) 2(3) by (simp add: in_sync_def)
qed

lemma in_sync_call:
  assumes "in_sync r k s" "threads s t = Between" "ns = replicas r (key req)"
  shows "in_sync r k (move s t (Loop req l ns f))"
proof (rule in_sync_moveI [OF assms(1)], goal_cases)
  case (1 q n)
  then show ?case using assms(3) by (auto simp: writes_def)
next
  case (2 n)
  have "\<not> writes k (threads s u)" for u using 2(2) assms(2) by (cases "u = t") (simp_all add: writes_def)
  then show ?case using assms(1) 2(3) by (simp add: in_sync_def)
qed

lemma in_sync_applied:
  assumes "in_sync r k s" "one_writer k s" "threads s t = Exchange req l n ns f" "m = snd (spec_step (node_maps s n) req)"
  shows "in_sync r k (move (s\<lparr>node_maps := (node_maps s)(n := m)\<rparr>) t (Replied req l n ns f resp))"
proof (cases "command req \<in> {Set, Delete} \<and> key req = k")
  case True
  have t: "writes k (threads s t)" "active (threads s t) = Some req" using True assms(3) by (simp_all add: writes_def)
  then have others: "\<not> writes k (threads s u)" if "u \<noteq> t" for u using that assms(2) by (auto simp: one_writer_def)
  have "m k = target req" using spec_step_target True assms(4) by auto
  moreover have "node_maps s n' k = target req" if "n' \<in> set (replicas r k)" "n' \<noteq> n" "n' \<notin> set ns" for n'
    using that t in_sync_writer [OF assms(1), of t req n'] assms(3) by simp
  ultimately show ?thesis using others True by (auto simp: in_sync_def writes_def)
next
  case False
  then have same: "((node_maps s)(n := m)) n' k = node_maps s n' k" for n' using assms(4) spec_step_other by simp
  have "in_sync r k (s\<lparr>node_maps := (node_maps s)(n := m)\<rparr>)"
    by (rule in_sync_cong [THEN iffD2, OF _ _ assms(1)]) (use same in simp_all)
  then show ?thesis by (rule in_sync_move) (use False assms(3) in \<open>auto simp: writes_def\<close>)
qed

lemma in_sync_returned:
  assumes "configured r" "in_sync r k s" "one_writer k s" "threads s t = Loop req l [] f"
  shows "in_sync r k (move s t Between)"
proof (cases "writes k (threads s t)")
  case True
  then have "node_maps s n k = target req" if "n \<in> set (replicas r k)" for n
    using that in_sync_writer [OF assms(2), of t req n] assms(4) by simp
  moreover have "hd (replicas r k) \<in> set (replicas r k)" using replicas_nonempty [OF assms(1)] by simp
  moreover have "\<not> writes k (threads s u)" if "u \<noteq> t" for u using that True assms(3) by (auto simp: one_writer_def)
  ultimately show ?thesis using assms(2) by (intro in_sync_moveI) (simp_all add: primary_map_def writes_def)
next
  case False
  then show ?thesis using assms(2) by (intro in_sync_move) (simp_all add: writes_def)
qed

lemma in_sync_step:
  assumes "configured r" "lin_inv r s a" "one_writer k s" "in_sync r k s" "rstep r s e s'" "\<not> is_failure e"
  shows "in_sync r k s'"
  using assms(5,6)
proof (cases rule: rstep.cases)
  case (call t req ns)
  then show ?thesis using in_sync_call [OF assms(4), of t ns req] replicas_facts(1) [OF assms(1)] by simp
next
  case (skip t req l n ns f)
  have "lin_pc r (Loop req l (n # ns) f) (snd a t)" using assms(2) skip by (metis lin_inv_def)
  then have "n \<in> node_id ` set (router_nodes r)" using lin_loop_member replicas_facts(3) [OF assms(1)] by fastforce
  then show ?thesis using assms(2) skip by (auto simp: lin_inv_def)
next
  case (check t req l n ns f)
  then show ?thesis using assms(4) by (auto intro!: in_sync_move simp: writes_def)
next
  case (applied t req l n ns f resp m)
  then show ?thesis using in_sync_applied [OF assms(4,3), of t req l n ns f m resp] by simp
next
  case (receive t req l n ns f resp)
  then show ?thesis using assms(4) by (auto intro!: in_sync_move simp: writes_def)
next
  case (returned t req l f)
  then show ?thesis using in_sync_returned [OF assms(1,4,3), of t req l f] by simp
next
  case (ping_up n)
  then show ?thesis using assms(4) in_sync_cong [of s' s k r] by simp
qed simp_all

lemma in_sync_run:
  assumes "configured r" "\<forall>n \<in> node_id ` set (router_nodes r). is_alive det n"
    and "\<forall>n \<in> set (replicas r k). maps n k = primary_map r maps k"
    and "rrun r (one_writer k) (start_routing det maps) es s" "failure_free es"
  shows "in_sync r k s"
  using assms(4,5)
proof (induction rule: rrun.induct)
  case init
  then show ?case using assms(3) by (simp add: in_sync_def start_routing_def writes_def)
next
  case (step es s e s')
  obtain a where a: "lin_inv r s a" using lin_inv_run [OF assms(1,2) step.hyps(1)] step.prems by auto
  have "in_sync r k s" "\<not> is_failure e" using step.IH step.prems by simp_all
  then show ?case by (rule in_sync_step [OF assms(1) a rrun_where [OF step.hyps(1)] _ step.hyps(2)])
qed


section \<open>Two writers\<close>

text \<open>Two threads, 0 and 1, and nobody else.\<close>

definition two_threads :: "FailureDetector \<Rightarrow> router_pc \<Rightarrow> router_pc \<Rightarrow> (bytes \<Rightarrow> bytes \<rightharpoonup> bytes) \<Rightarrow> routing" where
  "two_threads det p0 p1 maps = \<lparr>threads = (\<lambda>_. Between)(0 := p0, 1 := p1), shared_detector = det, node_maps = maps\<rparr>"

lemma two_threads_simps [simp]:
  "threads (two_threads det p0 p1 maps) 0 = p0" "threads (two_threads det p0 p1 maps) (Suc 0) = p1"
  "shared_detector (two_threads det p0 p1 maps) = det" "node_maps (two_threads det p0 p1 maps) = maps"
  "move (two_threads det p0 p1 maps) 0 pc = two_threads det pc p1 maps"
  "move (two_threads det p0 p1 maps) (Suc 0) pc = two_threads det p0 pc maps"
  "(two_threads det p0 p1 maps)\<lparr>node_maps := maps'\<rparr> = two_threads det p0 p1 maps'"
  by (auto simp: two_threads_def move_def fun_eq_iff)

lemma two_threads_start: "start_routing det maps = two_threads det Between Between maps"
  by (simp add: start_routing_def two_threads_def fun_eq_iff)

lemma set_run:
  assumes "is_alive det n" "req = \<lparr>command = Set, key = k, req_value = v\<rparr>"
  shows "(\<And>q m. P (two_threads det q p m)) \<Longrightarrow>
      rrun r P (two_threads det (Loop req l (n # ns) f) p maps) [Check, Apply 0 n req, Receive]
        (two_threads det (Loop req l ns (case f of None \<Rightarrow> Some (reply Ok) | Some x \<Rightarrow> Some x)) p (maps(n := (maps n)(k \<mapsto> v))))"
    and "any_run r (two_threads det p (Loop req l (n # ns) f) maps) [Check, Apply 1 n req, Receive]
      (two_threads det p (Loop req l ns (case f of None \<Rightarrow> Some (reply Ok) | Some x \<Rightarrow> Some x)) (maps(n := (maps n)(k \<mapsto> v))))"
  using run_answered [of "two_threads det (Loop req l (n # ns) f) p maps" 0 req l n ns f "reply Ok" "(maps n)(k \<mapsto> v)" P r]
    run_answered [of "two_threads det p (Loop req l (n # ns) f) maps" 1 req l n ns f "reply Ok" "(maps n)(k \<mapsto> v)" "\<lambda>_. True" r] assms
  by (simp_all add: spec_step_def)

lemma call_run:
  assumes "configured r" "replicas r k = [a, b]" "x = \<lparr>command = Set, key = k, req_value = v\<rparr>" "wf_request x"
  shows "(\<And>q m. P (two_threads det q p m)) \<Longrightarrow>
      rrun r P (two_threads det Between p m) [Call 0 x] (two_threads det (Loop x 2 [a, b] None) p m)"
    and "any_run r (two_threads det p Between m) [Call 1 x] (two_threads det p (Loop x 2 [a, b] None) m)"
  using run_step [OF rstep.call, of "two_threads det Between p m" 0 x r "[a, b]" P]
    any_run_step [OF rstep.call, of "two_threads det p Between m" 1 x r "[a, b]"] assms(3,4)
    replicas_facts(1) [OF assms(1), of k, unfolded assms(2)]
  by (simp_all add: numeral_2_eq_2)

lemma return_run:
  shows "(\<And>q m. P (two_threads det q p m)) \<Longrightarrow>
      rrun r P (two_threads det (Loop x l [] (Some q)) p m) [Return 0 q] (two_threads det Between p m)"
    and "any_run r (two_threads det p (Loop x l [] (Some q)) m) [Return 1 q] (two_threads det p Between m)"
  using run_step [OF rstep.returned, of "two_threads det (Loop x l [] (Some q)) p m" 0 x l "Some q" P r]
    any_run_step [OF rstep.returned, of "two_threads det p (Loop x l [] (Some q)) m" 1 x l "Some q" r]
  by simp_all

lemmas first_set = set_run [where f = None, unfolded option.case]
lemmas later_set = set_run [where f = "Some _", unfolded option.case]

lemma single_write_run:
  assumes "configured r" "replicas r k = [a, b]" "is_alive det a" "is_alive det b"
    and x: "x = \<lparr>command = Set, key = k, req_value = v\<rparr>" "wf_request x"
  shows "rrun r (one_writer k) (two_threads det Between Between maps)
    ([Call 0 x] @ [Check, Apply 0 a x, Receive] @ [Check, Apply 0 b x, Receive] @ [Return 0 (reply Ok)])
    (two_threads det Between Between (let m = maps(a := (maps a)(k \<mapsto> v)) in m(b := (m b)(k \<mapsto> v))))"
proof -
  have P: "one_writer k (two_threads det q Between m)" for q m
    by (auto simp: one_writer_def two_threads_def writes_def split: if_splits)
  show ?thesis unfolding Let_def
    by (rule rrun_trans [OF call_run(1) [where P = "one_writer k" and p = Between and det = det, OF assms(1,2) x P]], rule rrun_trans [OF first_set(1) [where P = "one_writer k" and p = Between and det = det, OF assms(3) x(1) P]],
      rule rrun_trans [OF later_set(1) [where P = "one_writer k" and p = Between and det = det, OF assms(4) x(1) P]], rule return_run(1) [where P = "one_writer k" and p = Between and det = det, OF P])
qed

lemma diverging_run:
  assumes "configured r" "replicas r k = [a, b]" "is_alive det a" "is_alive det b"
    and x: "x = \<lparr>command = Set, key = k, req_value = v\<rparr>" "wf_request x"
    and y: "y = \<lparr>command = Set, key = k, req_value = v'\<rparr>" "wf_request y"
  shows "any_run r (two_threads det Between Between maps)
    ([Call 0 x] @ [Call 1 y] @ [Check, Apply 1 a y, Receive] @ [Check, Apply 0 a x, Receive] @ [Check, Apply 0 b x, Receive] @
     [Check, Apply 1 b y, Receive] @ [Return 0 (reply Ok)] @ [Return 1 (reply Ok)])
    (two_threads det Between Between
      (let m = maps(a := (maps a)(k \<mapsto> v')); m = m(a := (m a)(k \<mapsto> v)); m = m(b := (m b)(k \<mapsto> v)) in m(b := (m b)(k \<mapsto> v'))))"
  unfolding Let_def
  by (rule rrun_trans [OF call_run(1) [where P = "\<lambda>_. True" and det = det, OF assms(1,2) x TrueI]], rule rrun_trans [OF call_run(2) [OF assms(1,2) y]],
    rule rrun_trans [OF first_set(2) [OF assms(3) y(1)]], rule rrun_trans [OF first_set(1) [where P = "\<lambda>_. True" and det = det, OF assms(3) x(1) TrueI]],
    rule rrun_trans [OF later_set(1) [where P = "\<lambda>_. True" and det = det, OF assms(4) x(1) TrueI]], rule rrun_trans [OF later_set(2) [OF assms(4) y(1)]],
    rule rrun_trans [OF return_run(1) [where P = "\<lambda>_. True" and det = det, OF TrueI]], rule return_run(2))


section \<open>Properties\<close>

lemma demo_pair:
  obtains a b where "replicas demo_router k = [a, b]" "is_alive demo_table a" "is_alive demo_table b" "a \<noteq> b"
proof -
  note reps = replicas_facts [OF demo_router_configured, of k]
  have len: "length (replicas demo_router k) = 2" using reps(2) demo_replicas [of k] distinct_card by fastforce
  then obtain a b where ab: "replicas demo_router k = [a, b]" by (metis (no_types) length_0_conv length_Suc_conv numeral_2_eq_2)
  with reps(2) demo_replicas [of k] show thesis using that [OF ab] by (auto simp: demo_table_alive)
qed

lemma demo_all_alive: "\<forall>n \<in> node_id ` set (router_nodes demo_router). is_alive demo_table n"
  using arg_cong [OF demo_router_ids, of set] by (simp add: demo_table_alive)

text \<open>
  C4: The router is linearizable under concurrent clients as long as nothing fails. In every interleaving of any number of
  client threads and the heartbeat without a failed exchange and without a node marked down, each request takes effect
  at one moment between its call and its return, on a single map, and is answered with what the map says at that moment; the map
  is what the first replica of each key holds.
\<close>

theorem concurrent_router_linearizable:
  assumes "configured r" "\<forall>n \<in> node_id ` set (router_nodes r). is_alive det n"
    and "any_run r (start_routing det maps) es s" "failure_free es"
  shows "\<exists>p. lin_run r (primary_map r maps) es = Some (primary_map r (node_maps s), p)"
proof -
  from lin_inv_run [OF assms] obtain a where "lin_run r (primary_map r maps) es = Some a" "primary_map r (node_maps s) = fst a"
    by (auto simp: lin_inv_def)
  then show ?thesis by (metis prod.collapse)
qed

theorem concurrent_router_linearizable_witness:
  "\<exists>es s p. any_run demo_router (start_routing demo_table (\<lambda>_. Map.empty)) es s \<and> length es = 16 \<and>
     lin_run demo_router (primary_map demo_router (\<lambda>_. Map.empty)) es = Some (primary_map demo_router (node_maps s), p)"
proof -
  let ?x = "\<lparr>command = Set, key = ''k'', req_value = ''1''\<rparr>" and ?y = "\<lparr>command = Set, key = ''k'', req_value = ''2''\<rparr>"
  have wf: "wf_request ?x" "wf_request ?y" by (simp_all add: wf_request_def is_valid_key_def limit_defs)
  obtain a b where ab: "replicas demo_router ''k'' = [a, b]" "is_alive demo_table a" "is_alive demo_table b" by (rule demo_pair)
  obtain es s where run: "any_run demo_router (start_routing demo_table (\<lambda>_. Map.empty)) es s" "failure_free es" "length es = 16"
    by (rule that [OF diverging_run [OF demo_router_configured ab refl wf(1) refl wf(2), folded two_threads_start]]) simp_all
  from concurrent_router_linearizable [OF demo_router_configured demo_all_alive run(1,2)] run(1,3) show ?thesis by blast
qed

text \<open>
  C12: As long as nothing fails and no key is written by two clients at once, all replicas of the key hold the same value whenever
  no write of it is in progress: the value of the first replica, which is the one the linearized map holds. Readers of the key and
  writers of other keys may be active all the time.
\<close>

theorem replicas_agree_with_one_writer:
  assumes "configured r" "\<forall>n \<in> node_id ` set (router_nodes r). is_alive det n"
    and "\<forall>n \<in> set (replicas r k). maps n k = primary_map r maps k"
    and "rrun r (one_writer k) (start_routing det maps) es s" "failure_free es" "\<forall>t. \<not> writes k (threads s t)"
  shows "\<forall>n \<in> set (replicas r k). node_maps s n k = primary_map r (node_maps s) k"
  using in_sync_run [OF assms(1-5)] assms(6) by (simp add: in_sync_def)

theorem replicas_agree_with_one_writer_witness:
  "\<exists>es s. rrun demo_router (one_writer ''k'') (start_routing demo_table (\<lambda>_. Map.empty)) es s \<and> length es = 8 \<and>
     (\<forall>n \<in> set (replicas demo_router ''k''). node_maps s n ''k'' = primary_map demo_router (node_maps s) ''k'')"
proof -
  let ?x = "\<lparr>command = Set, key = ''k'', req_value = ''1''\<rparr>"
  have wf: "wf_request ?x" by (simp add: wf_request_def is_valid_key_def limit_defs)
  obtain a b where ab: "replicas demo_router ''k'' = [a, b]" "is_alive demo_table a" "is_alive demo_table b" by (rule demo_pair)
  have init: "\<forall>n \<in> set (replicas demo_router ''k''). (\<lambda>_. Map.empty) n ''k'' = primary_map demo_router (\<lambda>_. Map.empty) ''k''"
    by (simp add: primary_map_def)
  obtain es s where run: "rrun demo_router (one_writer ''k'') (start_routing demo_table (\<lambda>_. Map.empty)) es s" "failure_free es"
    "\<forall>t. \<not> writes ''k'' (threads s t)" "length es = 8"
    by (rule that [OF single_write_run [OF demo_router_configured ab refl wf, folded two_threads_start]])
      (simp_all add: start_routing_def writes_def)
  from replicas_agree_with_one_writer [OF demo_router_configured demo_all_alive init run(1-3)] run(1,4) show ?thesis by blast
qed

text \<open>
  C16: Two clients that write one key at the same time can leave its replicas different, although no exchange fails and
  both writes are acknowledged with \<^verbatim>\<open>OK\<close>: the replicas apply the two writes in different orders, and nothing
  brings them together again.
\<close>

theorem concurrent_writes_diverge:
  assumes "configured r" "replicas r k = [a, b]" "is_alive det a" "is_alive det b"
    and "wf_request \<lparr>command = Set, key = k, req_value = v\<rparr>" "wf_request \<lparr>command = Set, key = k, req_value = v'\<rparr>"
  shows "\<exists>es s. any_run r (start_routing det maps) es s \<and> failure_free es \<and> (\<forall>t. threads s t = Between) \<and>
    {Return 0 (reply Ok), Return 1 (reply Ok)} \<subseteq> set es \<and> node_maps s a k = Some v \<and> node_maps s b k = Some v'"
proof -
  note run = diverging_run [OF assms(1-4) refl assms(5) refl assms(6), of maps, folded two_threads_start]
  have "a \<noteq> b" using replicas_facts(2) [OF assms(1), of k] assms(2) by simp
  obtain es s where "any_run r (start_routing det maps) es s" "failure_free es" "\<forall>t. threads s t = Between"
    "{Return 0 (reply Ok), Return 1 (reply Ok)} \<subseteq> set es" "node_maps s a k = Some v" "node_maps s b k = Some v'"
    by (rule that [OF run]) (use \<open>a \<noteq> b\<close> in \<open>simp_all add: start_routing_def Let_def\<close>)
  then show ?thesis by blast
qed

theorem concurrent_writes_diverge_witness:
  "\<exists>a b es s. a \<noteq> b \<and> set (replicas demo_router ''k'') = {a, b} \<and>
     any_run demo_router (start_routing demo_table (\<lambda>_. Map.empty)) es s \<and> failure_free es \<and>
     node_maps s a ''k'' = Some ''1'' \<and> node_maps s b ''k'' = Some ''2''"
proof -
  obtain a b where ab: "replicas demo_router ''k'' = [a, b]" "is_alive demo_table a" "is_alive demo_table b" "a \<noteq> b" by (rule demo_pair)
  have "wf_request \<lparr>command = Set, key = ''k'', req_value = v\<rparr>" if "v \<in> {''1'', ''2''}" for v
    using that by (auto simp: wf_request_def is_valid_key_def limit_defs)
  with concurrent_writes_diverge [OF demo_router_configured ab(1-3), of "''1''" "''2''" "\<lambda>_. Map.empty"] ab show ?thesis by auto
qed

text \<open>
  C13: The sequential operations are runs of the interleaved model: whatever \<^verbatim>\<open>route_read\<close> or \<^verbatim>\<open>route_write\<close> does, failures
  included, a client thread can do step by step, from the call of the request to the return of the same response, with the
  same effect on the nodes and the detector. So the model leaves out no behaviour of the code that has the router for itself.
\<close>

theorem routing_is_a_run:
  assumes "kv_backends os r contents valid" "configured r" "wf_request req" "command req \<noteq> Ping" "valid w conns"
    and "threads s t = Between" "node_maps s = contents w"
    and "(if command req = Get then route_read os r req (shared_detector s) conns else route_write os r req (shared_detector s) conns) w
      = Some (Inr (resp, det', conns'), w')"
  shows "\<exists>es. any_run r s (Call t req # es @ [Return t resp]) (s\<lparr>shared_detector := det', node_maps := contents w'\<rparr>)"
  by (rule route_request_run [OF assms(1-6,8,7)])

theorem routing_is_a_run_witness:
  "\<exists>resp det' conns' w' es.
     route_write cluster_os demo_router \<lparr>command = Set, key = ''k'', req_value = ''x''\<rparr> demo_table [] demo_cluster
       = Some (Inr (resp, det', conns'), w') \<and>
     any_run demo_router (start_routing demo_table (cluster_contents demo_cluster))
       (Call 7 \<lparr>command = Set, key = ''k'', req_value = ''x''\<rparr> # es @ [Return 7 resp])
       (start_routing det' (cluster_contents w'))"
proof -
  let ?set = "\<lparr>command = Set, key = ''k'', req_value = ''x''\<rparr>" and ?s = "start_routing demo_table (cluster_contents demo_cluster)"
  have wf: "wf_request ?set" by (simp add: wf_request_def is_valid_key_def limit_defs)
  note backends = client_channel_backends [OF cluster_channel, of demo_router "{''b:2''}"]
  obtain resp det' conns' w' where run: "route_write cluster_os demo_router ?set demo_table [] demo_cluster = Some (Inr (resp, det', conns'), w')"
    using route_write_outcome [OF backends demo_router_configured wf demo_cluster_valid, of demo_table] by blast
  moreover have "(if command ?set = Get then route_read cluster_os demo_router ?set (shared_detector ?s) []
      else route_write cluster_os demo_router ?set (shared_detector ?s) []) demo_cluster = Some (Inr (resp, det', conns'), w')"
    using run by (simp add: start_routing_def)
  from routing_is_a_run [OF backends demo_router_configured wf _ demo_cluster_valid _ _ this, of 7]
  have "\<exists>es. any_run demo_router ?s (Call 7 ?set # es @ [Return 7 resp]) (?s\<lparr>shared_detector := det', node_maps := cluster_contents w'\<rparr>)"
    by (simp add: start_routing_def)
  ultimately show ?thesis by (auto simp: start_routing_def)
qed

end
