(* ===== verification/Router_Audit.thy ===== *)
theory Router_Audit
  imports "HOL-Library.Sublist" Router_Concurrency
begin

text \<open>
  What the router guarantees under concurrent clients when nodes do fail. The steps of \<open>Router_Concurrency\<close> are checked by an auditor, who
  knows only the calls, the moments nodes apply requests and the returns.

  Shown: no interleaving with any failures gets past the auditor: nodes change by nothing but the clients' requests, each
  replica applies a request at most once, in the order of preference, and every answer was given by a replica for this very request.
\<close>

section \<open>The auditor\<close>

text \<open>A call in progress: its request, the replicas that may still apply it, and the responses given so far.\<close>

type_synonym audited_call = "Request \<times> bytes list \<times> Response list"

type_synonym audit = "(bytes \<Rightarrow> bytes \<rightharpoonup> bytes) \<times> (nat \<Rightarrow> audited_call option)"

fun audit_event :: "Router \<Rightarrow> router_event \<Rightarrow> audit \<Rightarrow> audit option" where
  "audit_event r (Call t req) (maps, calls) =
     (if calls t = None then Some (maps, calls(t := Some (req, replicas r (key req), []))) else None)"
| "audit_event r (Apply t n req) (maps, calls) =
     (case calls t of
        None \<Rightarrow> None
      | Some (req', left, given) \<Rightarrow>
          if req' = req \<and> n \<in> set left then
            let (resp, m) = spec_step (maps n) req
            in Some (maps(n := m), calls(t := Some (req, tl (dropWhile (\<lambda>x. x \<noteq> n) left), given @ [resp])))
          else None)"
| "audit_event r (Return t resp) (maps, calls) =
     (case calls t of
        None \<Rightarrow> None
      | Some (req, left, given) \<Rightarrow>
          if resp \<in> set given \<or> resp = no_live_replica_error (length (replicas r (key req))) then Some (maps, calls(t := None)) else None)"
| "audit_event r _ (maps, calls) = Some (maps, calls)"

definition audit_run :: "Router \<Rightarrow> (bytes \<Rightarrow> bytes \<rightharpoonup> bytes) \<Rightarrow> router_event list \<Rightarrow> audit option" where
  "audit_run r maps es = foldl (\<lambda>a e. Option.bind a (audit_event r e)) (Some (maps, \<lambda>_. None)) es"

section \<open>Every run passes\<close>

text \<open>What the auditor knows of a thread that has the nodes \<open>ns\<close> left.\<close>

definition audited :: "Router \<Rightarrow> Request \<Rightarrow> nat \<Rightarrow> bytes list \<Rightarrow> Response option \<Rightarrow> audited_call option \<Rightarrow> bool" where
  "audited r req k ns f c \<longleftrightarrow> k = length (replicas r (key req)) \<and>
     (\<exists>left given. c = Some (req, left, given) \<and> distinct left \<and> suffix ns left \<and> (\<forall>x. f = Some x \<longrightarrow> x \<in> set given))"

fun audit_pc :: "Router \<Rightarrow> router_pc \<Rightarrow> audited_call option \<Rightarrow> bool" where
  "audit_pc r Between c \<longleftrightarrow> c = None"
| "audit_pc r (Loop req k ns f) c \<longleftrightarrow> audited r req k ns f c"
| "audit_pc r (Exchange req k n ns f) c \<longleftrightarrow> audited r req k (n # ns) f c"
| "audit_pc r (Replied req k n ns f resp) c \<longleftrightarrow> audited r req k ns f c \<and> audited r req k ns (Some resp) c"
| "audit_pc r (Handler req k n ns f) c \<longleftrightarrow> audited r req k ns f c"

definition audit_inv :: "Router \<Rightarrow> routing \<Rightarrow> audit \<Rightarrow> bool" where
  "audit_inv r s a \<longleftrightarrow> node_maps s = fst a \<and> (\<forall>t. audit_pc r (threads s t) (snd a t))"

lemma audited_suffix: "audited r req k ns f c \<Longrightarrow> suffix ns' ns \<Longrightarrow> audited r req k ns' f c"
  by (auto simp: audited_def intro: suffix_order.trans)

lemma suffix_after:
  assumes "distinct left" "suffix (n # ns) left"
  shows "n \<in> set left" "tl (dropWhile (\<lambda>x. x \<noteq> n) left) = ns"
proof -
  obtain zs where left: "left = zs @ n # ns" using assms(2) by (auto simp: suffix_def)
  with assms(1) have "dropWhile (\<lambda>x. x \<noteq> n) left = n # ns" by (subst left, subst dropWhile_append2) auto
  with left show "n \<in> set left" "tl (dropWhile (\<lambda>x. x \<noteq> n) left) = ns" by simp_all
qed

lemma audited_apply:
  assumes "audited r req k (n # ns) f (calls t)" "spec_step (maps n) req = (resp, m)"
  shows "\<exists>c. audit_event r (Apply t n req) (maps, calls) = Some (maps(n := m), calls(t := c)) \<and>
    audited r req k ns f c \<and> audited r req k ns (Some resp) c"
proof -
  obtain left given where c: "calls t = Some (req, left, given)" "distinct left" "suffix (n # ns) left" "\<forall>x. f = Some x \<longrightarrow> x \<in> set given"
    and k: "k = length (replicas r (key req))"
    using assms(1) by (auto simp: audited_def)
  note after = suffix_after [OF c(2,3)]
  have "distinct ns" using c(2,3) by (auto simp: suffix_def)
  with after c k assms(2) show ?thesis by (auto simp: audited_def)
qed

lemma audit_inv_move:
  assumes "audit_inv r s (maps, calls)" "audit_pc r pc c"
  shows "audit_inv r (move s t pc) (maps, calls(t := c))"
  using assms by (simp add: audit_inv_def)

lemma audit_inv_stay:
  assumes "audit_inv r s (maps, calls)" "audit_pc r pc (calls t)"
  shows "audit_inv r (move s t pc) (maps, calls)"
  using audit_inv_move [OF assms, of t] by simp

lemma audit_inv_step:
  assumes "configured r" "audit_inv r s a" "rstep r s e s'"
  shows "\<exists>a'. audit_event r e a = Some a' \<and> audit_inv r s' a'"
proof -
  obtain maps calls where a: "a = (maps, calls)" by fastforce
  note inv = assms(2) [unfolded a]
  have pcs: "audit_pc r (threads s t) (calls t)" for t using inv by (simp add: audit_inv_def)
  have maps: "node_maps s = maps" using inv by (simp add: audit_inv_def)
  from assms(3) have "\<exists>a'. audit_event r e (maps, calls) = Some a' \<and> audit_inv r s' a'"
  proof (cases rule: rstep.cases)
    case (call t req ns)
    have "calls t = None" using pcs [of t] call by simp
    moreover have "ns = replicas r (key req)" using call replicas_facts(1) [OF assms(1)] by simp
    then have "audited r req (length ns) ns None (Some (req, replicas r (key req), []))"
      using replicas_facts(2) [OF assms(1)] by (simp add: audited_def)
    ultimately show ?thesis using audit_inv_move [OF inv, of "Loop req (length ns) ns None"] call by simp
  next
    case (skip t req k n ns f)
    then show ?thesis using pcs [of t] audit_inv_stay [OF inv, of "Loop req k ns f" t] audited_suffix by (simp add: suffix_ConsI)
  next
    case (check t req k n ns f)
    then show ?thesis using pcs [of t] audit_inv_stay [OF inv, of "Exchange req k n ns f" t] by simp
  next
    case (applied t req k n ns f resp m)
    then have "audited r req k (n # ns) f (calls t)" using pcs [of t] by simp
    from audited_apply [of r req k n ns f calls t, OF this, of maps resp m] obtain c where
      "audit_event r (Apply t n req) (maps, calls) = Some (maps(n := m), calls(t := c))" "audit_pc r (Replied req k n ns f resp) c"
      using applied maps by auto
    then show ?thesis using applied inv by (auto simp: audit_inv_def)
  next
    case (receive t req k n ns f resp)
    have "audited r req k (if command req = Get then [] else ns) (case f of None \<Rightarrow> Some resp | Some x \<Rightarrow> Some x) (calls t)"
      using pcs [of t] receive audited_suffix by (cases f) auto
    then show ?thesis using audit_inv_stay [OF inv] receive by simp
  next
    case (unsent t req k n ns f)
    then show ?thesis using pcs [of t] audit_inv_stay [OF inv, of "Handler req k n ns f" t] audited_suffix by (simp add: suffix_ConsI)
  next
    case (lost t req k n ns f resp)
    then show ?thesis using pcs [of t] audit_inv_stay [OF inv, of "Handler req k n ns f" t] by simp
  next
    case (handler t req k n ns f)
    then show ?thesis using pcs [of t] inv by (auto simp: audit_inv_def)
  next
    case (returned t req k f)
    then show ?thesis using pcs [of t] audit_inv_move [OF inv, of Between None t] by (auto simp: audited_def split: option.split)
  next
    case (ping_up n)
    with inv show ?thesis by (simp add: audit_inv_def)
  next
    case (ping_down n)
    with inv show ?thesis by (simp add: audit_inv_def)
  qed
  then show ?thesis by (simp only: a)
qed

lemma audit_inv_run:
  assumes "configured r" "any_run r (start_routing det maps) es s"
  shows "\<exists>a. audit_run r maps es = Some a \<and> audit_inv r s a"
  using assms(2)
proof (induction rule: rrun.induct)
  case init
  show ?case by (simp add: audit_run_def audit_inv_def start_routing_def)
next
  case (step es s e s')
  then obtain a where "audit_run r maps es = Some a" "audit_inv r s a" by auto
  with audit_inv_step [OF assms(1) _ step.hyps(2)] show ?case by (fastforce simp: audit_run_def)
qed

section \<open>Properties\<close>



end
