(* ===== verification/Server.thy ===== *)
theory Server
  imports Reactor
begin

text \<open>
  \<^verbatim>\<open>KvServer\<close> of \<^verbatim>\<open>src/server/server.cpp\<close>: the accept loop, which hands each new connection to the
  next reactor, and the hand-over itself, the one place where two threads of the server share more
  than the store: the accept thread stages a descriptor under a mutex and writes a byte into the
  reactor's pipe (\<^verbatim>\<open>WorkerReactor::enqueue_client\<close>); the reactor, woken from \<^verbatim>\<open>poll\<close>, drains the pipe and
  takes the staged descriptors (\<^verbatim>\<open>run\<close>, \<^verbatim>\<open>drain_wakeup_pipe\<close>, \<^verbatim>\<open>accept_pending_clients\<close>).

  Shown: connections are spread round-robin, so loads differ by at most one; no wake-up is lost
  under any interleaving of the two threads, every connection is taken over exactly once and in order,
  and a reactor that keeps running takes over every staged connection within a bounded number of steps.
\<close>

section \<open>The server\<close>

record KvServer =
  listen_socket :: Socket
  reactors :: "WorkerReactor list"
  next_reactor :: nat

definition destroy_reactor :: "'w os \<Rightarrow> WorkerReactor \<Rightarrow> 'w \<Rightarrow> 'w" where
  "destroy_reactor os r w = sys_close os (wakeup_write_fd r) (sys_close os (wakeup_read_fd r) w)"

text \<open>The reactors built so far are destroyed when the constructor of the next one throws.\<close>

primrec make_reactors :: "'w os \<Rightarrow> (int \<Rightarrow> int) \<Rightarrow> nat \<Rightarrow> ('w, WorkerReactor list) io" where
  "make_reactors os nb 0 = io_return []"
| "make_reactors os nb (Suc n) =
     io_bind (make_reactors os nb n) (\<lambda>rs.
       io_catch (io_bind (new_reactor os nb) (\<lambda>r. io_return (rs @ [r])))
         (\<lambda>e w. Some (Inl e, fold (destroy_reactor os) rs w)))"

definition new_server :: "'w os \<Rightarrow> (int \<Rightarrow> int) \<Rightarrow> 16 word \<Rightarrow> nat \<Rightarrow> ('w, KvServer) io" where
  "new_server os nb port num_threads =
     io_bind (create_listening_socket os port 128) (\<lambda>sock.
       let num_threads = (if num_threads = 0 then 1 else num_threads) in
       io_catch (io_bind (make_reactors os nb num_threads) (\<lambda>rs.
           io_return \<lparr>listen_socket = sock, reactors = rs, next_reactor = 0\<rparr>))
         (\<lambda>e w. Some (Inl e, destroy_socket os sock w)))"

text \<open>One iteration of \<^verbatim>\<open>KvServer::run\<close>: a failed \<^verbatim>\<open>accept\<close> is retried, whatever the reason.\<close>

definition accept_once :: "'w os \<Rightarrow> KvServer \<Rightarrow> ('w, KvServer) io" where
  "accept_once os s =
     io_bind (io_call (sys_accept os (sock_fd (listen_socket s)))) (\<lambda>client_fd.
       if client_fd < 0 then io_return s
       else io_bind (enqueue_client os (reactors s ! next_reactor s) client_fd) (\<lambda>r.
         io_return (s\<lparr>reactors := (reactors s)[next_reactor s := r],
           next_reactor := (next_reactor s + 1) mod length (reactors s)\<rparr>)))"

primrec accept_n :: "'w os \<Rightarrow> nat \<Rightarrow> KvServer \<Rightarrow> ('w, KvServer) io" where
  "accept_n os 0 s = io_return s"
| "accept_n os (Suc n) s = io_bind (accept_once os s) (accept_n os n)"

partial_function (option) server_run :: "'w os \<Rightarrow> KvServer \<Rightarrow> ('w, unit) io" where
  "server_run os s w = io_bind (accept_once os s) (server_run os) w"

section \<open>Round-robin assignment\<close>

definition dispatch :: "KvServer \<Rightarrow> int \<Rightarrow> KvServer" where
  "dispatch s fd =
     s\<lparr>reactors := (reactors s)[next_reactor s :=
         (reactors s ! next_reactor s)\<lparr>pending_clients := pending_clients (reactors s ! next_reactor s) @ [fd]\<rparr>],
       next_reactor := (next_reactor s + 1) mod length (reactors s)\<rparr>"

lemma accept_once_dispatch:
  "\<exists>w'. accept_once os s w = Some (Inr s, w') \<or> (\<exists>fd \<ge> 0. accept_once os s w = Some (Inr (dispatch s fd), w'))"
proof (cases "fst (sys_accept os (sock_fd (listen_socket s)) w) < 0")
  case True
  then show ?thesis by (simp add: accept_once_def) blast
next
  case False
  then have "\<exists>w'. accept_once os s w = Some (Inr (dispatch s (fst (sys_accept os (sock_fd (listen_socket s)) w))), w')"
    by (simp add: accept_once_def enqueue_client_def dispatch_def)
  with False show ?thesis by (meson not_le)
qed

lemma accept_n_dispatch:
  "\<exists>fds w'. accept_n os n s w = Some (Inr (foldl dispatch s fds), w') \<and> length fds \<le> n"
proof (induction n arbitrary: s w)
  case 0
  show ?case by (intro exI [of _ "[]"]) simp
next
  case (Suc n)
  from accept_once_dispatch [of os s w] obtain w1 fds1 where
    once: "accept_once os s w = Some (Inr (foldl dispatch s fds1), w1)" "length fds1 \<le> 1"
    by (elim exE disjE conjE) (fastforce intro: that [of "[]"], fastforce intro: that [of "[_]"])
  from Suc [of "foldl dispatch s fds1" w1] obtain fds2 w2 where
    "accept_n os n (foldl dispatch s fds1) w1 = Some (Inr (foldl dispatch (foldl dispatch s fds1) fds2), w2)" "length fds2 \<le> n"
    by blast
  with once show ?case by (intro exI [of _ "fds1 @ fds2"]) simp
qed

text \<open>The connections that a server with \<open>N\<close> reactors, starting at reactor 0, gives to reactor \<open>i\<close>.\<close>

definition share :: "nat \<Rightarrow> int list \<Rightarrow> nat \<Rightarrow> int list" where
  "share N fds i = map ((!) fds) (filter (\<lambda>j. j mod N = i) [0..<length fds])"

lemma share_snoc: "share N (fds @ [fd]) i = share N fds i @ (if length fds mod N = i then [fd] else [])"
  by (auto simp: share_def nth_append intro!: map_cong)

lemma dispatch_round_robin:
  assumes "next_reactor s = 0" "N = length (reactors s)" "0 < N"
  shows "length (reactors (foldl dispatch s fds)) = N \<and> next_reactor (foldl dispatch s fds) = length fds mod N \<and>
    (\<forall>i < N. pending_clients (reactors (foldl dispatch s fds) ! i) = pending_clients (reactors s ! i) @ share N fds i)"
proof (induction fds rule: rev_induct)
  case Nil
  with assms show ?case by (simp add: share_def)
next
  case (snoc fd fds)
  then show ?case
    using assms(3) by (simp add: dispatch_def share_snoc nth_list_update mod_Suc_eq)
qed

lemma length_share:
  assumes "i < N"
  shows "length (share N fds i) = length fds div N + (if i < length fds mod N then 1 else 0)"
proof (induction fds rule: rev_induct)
  case Nil
  show ?case by (simp add: share_def)
next
  case (snoc fd fds)
  with assms show ?case by (auto simp: share_snoc div_Suc mod_Suc)
qed

section \<open>Waking a reactor\<close>

text \<open>
  The accept thread and one reactor, opened into the steps that can interleave. \<open>staged\<close> is
  \<^verbatim>\<open>pending_clients_\<close>, \<open>pipe\<close> the number of bytes in the wake-up pipe, of capacity \<open>cap\<close>; \<open>taken\<close> are the
  connections the reactor polls.
\<close>

datatype accept_pc =
    Accepting \<comment> \<open>in \<open>accept\<close>\<close>
  | Staged \<comment> \<open>in \<open>enqueue_client\<close>, before the \<open>write\<close> to the pipe\<close>

datatype reactor_pc =
    Polling \<comment> \<open>in \<open>poll\<close>\<close>
  | Draining \<comment> \<open>in \<open>drain_wakeup_pipe\<close>\<close>
  | Taking \<comment> \<open>before the \<open>swap\<close> in \<open>accept_pending_clients\<close>\<close>
  | Serving \<comment> \<open>in the loop over the ready connections\<close>

record handover =
  staged :: "int list"
  pipe :: nat
  taken :: "int list"
  accept_at :: accept_pc
  reactor_at :: reactor_pc

definition init_handover :: handover where
  "init_handover = \<lparr>staged = [], pipe = 0, taken = [], accept_at = Accepting, reactor_at = Polling\<rparr>"

text \<open>
  The steps of the reactor. \<^verbatim>\<open>poll\<close> flags the pipe exactly if it holds bytes; with an empty pipe it may return
  for another descriptor. A \<^verbatim>\<open>read\<close> takes at most 256 bytes.
\<close>

inductive reactor_step :: "handover \<Rightarrow> handover \<Rightarrow> bool" where
  poll_wake: "reactor_at s = Polling \<Longrightarrow> 0 < pipe s \<Longrightarrow> reactor_step s (s\<lparr>reactor_at := Draining\<rparr>)"
| poll_other: "reactor_at s = Polling \<Longrightarrow> pipe s = 0 \<Longrightarrow> reactor_step s (s\<lparr>reactor_at := Serving\<rparr>)"
| drain_some: "reactor_at s = Draining \<Longrightarrow> 0 < pipe s \<Longrightarrow> reactor_step s (s\<lparr>pipe := pipe s - min 256 (pipe s)\<rparr>)"
| drain_done: "reactor_at s = Draining \<Longrightarrow> pipe s = 0 \<Longrightarrow> reactor_step s (s\<lparr>reactor_at := Taking\<rparr>)"
| take_staged: "reactor_at s = Taking \<Longrightarrow>
    reactor_step s (s\<lparr>taken := taken s @ staged s, staged := [], reactor_at := Serving\<rparr>)"
| serve: "reactor_at s = Serving \<Longrightarrow> reactor_step s (s\<lparr>reactor_at := Polling\<rparr>)"

text \<open>The steps of the accept thread. A write to a full pipe fails with \<^verbatim>\<open>EAGAIN\<close>, which is ignored.\<close>

inductive accept_step :: "nat \<Rightarrow> handover \<Rightarrow> int option \<Rightarrow> handover \<Rightarrow> bool" for cap where
  stage: "accept_at s = Accepting \<Longrightarrow> accept_step cap s (Some fd) (s\<lparr>staged := staged s @ [fd], accept_at := Staged\<rparr>)"
| wake: "accept_at s = Staged \<Longrightarrow>
    accept_step cap s None (s\<lparr>pipe := (if pipe s < cap then pipe s + 1 else pipe s), accept_at := Accepting\<rparr>)"

text \<open>Interleavings, with the connections accepted so far.\<close>

inductive handover_run :: "nat \<Rightarrow> int list \<Rightarrow> handover \<Rightarrow> bool" for cap where
  init: "handover_run cap [] init_handover"
| reactor: "handover_run cap fds s \<Longrightarrow> reactor_step s s' \<Longrightarrow> handover_run cap fds s'"
| accept: "handover_run cap fds s \<Longrightarrow> accept_step cap s x s' \<Longrightarrow>
    handover_run cap (fds @ (case x of None \<Rightarrow> [] | Some fd \<Rightarrow> [fd])) s'"

definition wake_inv :: "handover \<Rightarrow> bool" where
  "wake_inv s \<longleftrightarrow> (staged s \<noteq> [] \<longrightarrow> 0 < pipe s \<or> accept_at s = Staged \<or> reactor_at s \<in> {Draining, Taking})"

lemma wake_inv_reactor: "reactor_step s s' \<Longrightarrow> wake_inv s \<Longrightarrow> wake_inv s'"
  by (induction rule: reactor_step.induct) (auto simp: wake_inv_def)

lemma wake_inv_accept: "accept_step cap s x s' \<Longrightarrow> 0 < cap \<Longrightarrow> wake_inv s \<Longrightarrow> wake_inv s'"
  by (induction rule: accept_step.induct) (auto simp: wake_inv_def)

lemma wake_inv_run: "handover_run cap fds s \<Longrightarrow> 0 < cap \<Longrightarrow> wake_inv s"
proof (induction rule: handover_run.induct)
  case init
  show ?case by (simp add: wake_inv_def init_handover_def)
qed (blast intro: wake_inv_reactor wake_inv_accept)+

lemma reactor_step_keeps: "reactor_step s s' \<Longrightarrow> taken s' @ staged s' = taken s @ staged s \<and> accept_at s' = accept_at s"
  by (induction rule: reactor_step.induct) auto

lemma handed_over: "handover_run cap fds s \<Longrightarrow> taken s @ staged s = fds"
proof (induction rule: handover_run.induct)
  case init
  show ?case by (simp add: init_handover_def)
next
  case (reactor fds s s')
  then show ?case using reactor_step_keeps by simp
next
  case (accept fds s x s')
  from accept.hyps(2) accept.IH show ?case by (cases rule: accept_step.cases) auto
qed

text \<open>How many steps of the reactor are left, at most, until it takes what is staged.\<close>

definition steps_left :: "handover \<Rightarrow> nat" where
  "steps_left s = (case reactor_at s of Serving \<Rightarrow> 4 + pipe s | Polling \<Rightarrow> 3 + pipe s | Draining \<Rightarrow> 2 + pipe s | Taking \<Rightarrow> 1)"

lemma reactor_step_progress:
  assumes "reactor_step s s'" "wake_inv s" "accept_at s = Accepting"
  shows "staged s' = [] \<or> staged s \<noteq> [] \<and> steps_left s' < steps_left s"
  using assms by (induction rule: reactor_step.induct) (auto simp: wake_inv_def steps_left_def)

inductive reactor_steps :: "nat \<Rightarrow> handover \<Rightarrow> handover \<Rightarrow> bool" where
  zero: "reactor_steps 0 s s"
| more: "reactor_steps n s s' \<Longrightarrow> reactor_step s' s'' \<Longrightarrow> reactor_steps (Suc n) s s''"

lemma reactor_steps_progress:
  "reactor_steps n s s' \<Longrightarrow> wake_inv s \<Longrightarrow> accept_at s = Accepting \<Longrightarrow>
    wake_inv s' \<and> accept_at s' = Accepting \<and> (staged s' = [] \<or> steps_left s' + n \<le> steps_left s)"
proof (induction rule: reactor_steps.induct)
  case (more n s s' s'')
  then have s': "wake_inv s'" "accept_at s' = Accepting" "staged s' = [] \<or> steps_left s' + n \<le> steps_left s" by simp_all
  from reactor_step_progress [OF more.hyps(2) s'(1,2)] s'(3) have "staged s'' = [] \<or> steps_left s'' + Suc n \<le> steps_left s"
    by auto
  then show ?case
    using wake_inv_reactor [OF more.hyps(2) s'(1)] reactor_step_keeps [OF more.hyps(2)] s'(2) by simp
qed simp

section \<open>Properties\<close>

definition demo_server :: KvServer where
  "demo_server = \<lparr>listen_socket = \<lparr>sock_fd = 5\<rparr>, reactors = [demo_reactor, demo_reactor], next_reactor = 0\<rparr>"

text \<open>
  The accept loop spreads connections round-robin: of the connections accepted in any number of
  iterations, failed calls of \<^verbatim>\<open>accept\<close> skipped, reactor \<open>i\<close> of \<open>N\<close> is handed those with a position
  congruent to \<open>i\<close>, in order, and each of the reactors gets the rounded-down or the rounded-up share.
\<close>

theorem accept_loop_balances:
  assumes "next_reactor s = 0" "N = length (reactors s)" "0 < N"
  shows "\<exists>fds s' w'. accept_n os n s w = Some (Inr s', w') \<and> length fds \<le> n \<and>
    (\<forall>i < N. pending_clients (reactors s' ! i) = pending_clients (reactors s ! i) @ share N fds i \<and>
       length (share N fds i) \<in> {length fds div N, length fds div N + 1})"
proof -
  obtain fds w' where "accept_n os n s w = Some (Inr (foldl dispatch s fds), w')" "length fds \<le> n"
    using accept_n_dispatch [of os n s w] by blast
  moreover have "length (share N fds i) \<in> {length fds div N, length fds div N + 1}" if "i < N" for i
    using length_share [OF that, of fds] by simp
  ultimately show ?thesis using dispatch_round_robin [OF assms, of fds] by blast
qed

theorem accept_loop_balances_witness:
  "\<exists>fds s' w'. accept_n (small_os\<lparr>sys_accept := \<lambda>_ w. (9, w)\<rparr>) 5 demo_server (small_world0 (\<lambda>_. [])) = Some (Inr s', w') \<and> length fds \<le> 5 \<and>
    (\<forall>i < 2. pending_clients (reactors s' ! i) = pending_clients (reactors demo_server ! i) @ share 2 fds i \<and>
       length (share 2 fds i) \<in> {length fds div 2, length fds div 2 + 1})"
  by (rule accept_loop_balances) (simp_all add: demo_server_def)

text \<open>
  C6: No wake-up is lost. In every interleaving of the accept thread and the reactor, if a connection is
  staged, the accept thread has finished \<^verbatim>\<open>enqueue_client\<close> and the reactor is about to \<^verbatim>\<open>poll\<close>, then the
  pipe holds a byte, so \<^verbatim>\<open>poll\<close> returns; and the connections taken over, followed by the staged ones,
  are always exactly those accepted, each once and in order.
\<close>

theorem no_lost_wakeup:
  assumes "handover_run cap fds s" "0 < cap"
  shows "taken s @ staged s = fds \<and>
    (staged s \<noteq> [] \<and> accept_at s = Accepting \<and> reactor_at s = Polling \<longrightarrow> 0 < pipe s)"
  using handed_over [OF assms(1)] wake_inv_run [OF assms] by (auto simp: wake_inv_def)

lemma demo_handover: "handover_run 16 [9] \<lparr>staged = [9], pipe = 1, taken = [], accept_at = Accepting, reactor_at = Polling\<rparr>"
proof -
  have "accept_step 16 init_handover (Some 9) (init_handover\<lparr>staged := [9], accept_at := Staged\<rparr>)"
    using accept_step.stage [of init_handover 16 9] by (simp add: init_handover_def)
  note run = handover_run.accept [OF handover_run.init this]
  have "accept_step 16 (init_handover\<lparr>staged := [9], accept_at := Staged\<rparr>) None
      \<lparr>staged = [9], pipe = 1, taken = [], accept_at = Accepting, reactor_at = Polling\<rparr>"
    using accept_step.wake [of "init_handover\<lparr>staged := [9], accept_at := Staged\<rparr>" 16] by (simp add: init_handover_def)
  from handover_run.accept [OF run this] show ?thesis by simp
qed

theorem no_lost_wakeup_witness:
  "\<exists>s. handover_run 16 [9] s \<and> staged s \<noteq> [] \<and> accept_at s = Accepting \<and> reactor_at s = Polling \<and> 0 < pipe s"
  using no_lost_wakeup [OF demo_handover] demo_handover by fastforce



end
