(* ===== verification/Command_Line.thy ===== *)
theory Command_Line
  imports Arguments Server Router
begin

text \<open>
  The \<^verbatim>\<open>main\<close> functions of the server and the router (\<^verbatim>\<open>src/server/main.cpp\<close>, \<^verbatim>\<open>src/router/main.cpp\<close>): the argument loops, the list of
  nodes, the checks, the texts and the exit codes.

  Shown: a router started with the ids of its nodes routes to exactly these nodes, with the numbers it was given.
\<close>

section \<open>kvserver\<close>

record ServerOptions =
  server_port :: "16 word"
  threads :: nat

definition default_server_options :: ServerOptions where
  "default_server_options = \<lparr>server_port = 6380, threads = 4\<rparr>"

fun server_args :: "ServerOptions \<Rightarrow> bytes list \<Rightarrow> ServerOptions arguments" where
  "server_args opts [] = Options opts"
| "server_args opts (arg # args) =
     (if arg = ''--port'' \<and> args \<noteq> [] then server_args (opts\<lparr>server_port := word_of_int (atoi (hd args))\<rparr>) (tl args)
      else if arg = ''--threads'' \<and> args \<noteq> [] then server_args (opts\<lparr>threads := to_size_t (atoi (hd args))\<rparr>) (tl args)
      else if arg = ''--help'' then Help
      else Unknown arg)"

definition server_usage :: "bytes \<Rightarrow> bytes" where
  "server_usage prog =
     ''Usage: '' @ prog @ '' [--port PORT] [--threads N]'' @ [LF] @
     ''  --port PORT     TCP port to listen on (default: 6380)'' @ [LF] @
     ''  --threads N     number of reactor threads (default: 4).'' @ [LF] @
     ''                  --threads 1 reproduces Phase 1'' @ [CHR 0x27] @ ''s single-'' @ [LF] @
     ''                  threaded behavior on this same binary, which'' @ [LF] @
     ''                  is the cleanest baseline for an apples-to-'' @ [LF] @
     ''                  apples concurrency comparison.'' @ [LF]"

definition server_greeting :: "ServerOptions \<Rightarrow> bytes" where
  "server_greeting opts =
     ''kvserver listening on port '' @ to_string (unat (server_port opts)) @ '' ('' @ to_string (threads opts) @
     '' reactor thread'' @ (if threads opts = 1 then [] else ''s'') @ '')'' @ [LF]"

text \<open>The end of both programs: an exception that reached \<^verbatim>\<open>main\<close> is reported, after what was printed before.\<close>

definition ending :: "bytes \<Rightarrow> bytes \<Rightarrow> exn + 'a \<Rightarrow> outcome" where
  "ending fatal text res =
     (case res of
        Inl e \<Rightarrow> \<lparr>exit_code = 1, out_text = text, err_text = fatal @ what e @ [LF], files = []\<rparr>
      | Inr _ \<Rightarrow> \<lparr>exit_code = 0, out_text = text, err_text = [], files = []\<rparr>)"

definition server_main :: "'w os \<Rightarrow> (int \<Rightarrow> int) \<Rightarrow> bytes \<Rightarrow> bytes list \<Rightarrow> 'w \<Rightarrow> (outcome \<times> 'w) option" where
  "server_main os nb prog args w =
     (case server_args default_server_options args of
        Help \<Rightarrow> Some (exits 0 (server_usage prog), w)
      | Unknown arg \<Rightarrow> Some (exits 1 (''Unknown argument: '' @ arg @ [LF] @ server_usage prog), w)
      | Options opts \<Rightarrow>
          if threads opts = 0 then Some (exits 1 (''kvserver: --threads must be >= 1'' @ [LF]), w)
          else (case new_server os nb (server_port opts) (threads opts) w of
            None \<Rightarrow> None
          | Some (Inl e, w) \<Rightarrow> Some (ending ''kvserver: fatal: '' [] (Inl e :: exn + unit), w)
          | Some (Inr srv, w) \<Rightarrow>
              map_option (\<lambda>(res, w). (ending ''kvserver: fatal: '' (server_greeting opts) res, w)) (server_run os srv w)))"

section \<open>kvrouter\<close>

fun parse_items :: "bytes list \<Rightarrow> exn + NodeAddress list" where
  "parse_items [] = Inr []"
| "parse_items (item # items) =
     (case rfind_char (CHR '':'') item of
        None \<Rightarrow> Inl (Runtime_error (''invalid node address (expected host:port): '' @ item))
      | Some colon \<Rightarrow>
          map_sum id (Cons \<lparr>host = take colon item, port = word_of_int (atoi (drop (colon + 1) item))\<rparr>) (parse_items items))"

definition parse_nodes :: "bytes \<Rightarrow> exn + NodeAddress list" where
  "parse_nodes lst = parse_items (getlines (CHR '','') lst)"

record RouterOptions =
  router_port :: "16 word"
  vnodes_opt :: nat
  replicas_opt :: nat
  nodes_arg :: bytes

definition default_router_options :: RouterOptions where
  "default_router_options = \<lparr>router_port = 6380, vnodes_opt = 150, replicas_opt = 2, nodes_arg = []\<rparr>"

fun router_args :: "RouterOptions \<Rightarrow> bytes list \<Rightarrow> RouterOptions arguments" where
  "router_args opts [] = Options opts"
| "router_args opts (arg # args) =
     (if arg = ''--port'' \<and> args \<noteq> [] then router_args (opts\<lparr>router_port := word_of_int (atoi (hd args))\<rparr>) (tl args)
      else if arg = ''--nodes'' \<and> args \<noteq> [] then router_args (opts\<lparr>nodes_arg := hd args\<rparr>) (tl args)
      else if arg = ''--vnodes'' \<and> args \<noteq> [] then router_args (opts\<lparr>vnodes_opt := to_size_t (atoi (hd args))\<rparr>) (tl args)
      else if arg = ''--replicas'' \<and> args \<noteq> [] then router_args (opts\<lparr>replicas_opt := to_size_t (atoi (hd args))\<rparr>) (tl args)
      else if arg = ''--help'' then Help
      else Unknown arg)"

definition router_usage :: "bytes \<Rightarrow> bytes" where
  "router_usage prog =
     ''Usage: '' @ prog @ '' --nodes host1:port1,host2:port2,... [--port PORT] [--vnodes N] '' @ ''[--replicas N]'' @ [LF] @
     ''  --nodes LIST     comma-separated backend kvserver addresses (required)'' @ [LF] @
     ''  --port PORT      port to listen on for clients (default: 6380)'' @ [LF] @
     ''  --vnodes N       virtual nodes per physical node on the hash ring '' @ ''(default: 150)'' @ [LF] @
     ''  --replicas N     replication factor: each key is written to N '' @ ''distinct nodes (default: 2)'' @ [LF]"

text \<open>Everything before the \<^verbatim>\<open>Router\<close> is built: the outcome if the program ends there, or the arguments of its constructor.\<close>

definition router_config :: "bytes \<Rightarrow> bytes list \<Rightarrow> outcome + 16 word \<times> NodeAddress list \<times> nat \<times> nat" where
  "router_config prog args =
     (case router_args default_router_options args of
        Help \<Rightarrow> Inl (exits 0 (router_usage prog))
      | Unknown arg \<Rightarrow> Inl (exits 1 (''Unknown argument: '' @ arg @ [LF] @ router_usage prog))
      | Options opts \<Rightarrow>
          if nodes_arg opts = [] then Inl (exits 1 (''kvrouter: --nodes is required'' @ [LF] @ router_usage prog))
          else if replicas_opt opts = 0 then Inl (exits 1 (''kvrouter: --replicas must be >= 1'' @ [LF]))
          else (case parse_nodes (nodes_arg opts) of
            Inl e \<Rightarrow> Inl (exits 1 (''kvrouter: fatal: '' @ what e @ [LF]))
          | Inr ns \<Rightarrow>
              if ns = [] then Inl (exits 1 (''kvrouter: --nodes must list at least one node'' @ [LF]))
              else Inr (router_port opts, ns, vnodes_opt opts, replicas_opt opts)))"

definition router_greeting :: "16 word \<Rightarrow> NodeAddress list \<Rightarrow> nat \<Rightarrow> nat \<Rightarrow> bytes" where
  "router_greeting p ns vnodes_per_node factor =
     ''kvrouter listening on port '' @ to_string (unat p) @ '', routing to '' @
     to_string (length ns) @ '' node(s) via consistent hashing ('' @ to_string vnodes_per_node @
     '' vnodes/node), replication factor '' @ to_string factor @ [LF]"

text \<open>\<^verbatim>\<open>Router::run\<close>; the threads it starts run \<open>handle_client\<close> on their own.\<close>

partial_function (option) router_run :: "'w os \<Rightarrow> Router \<Rightarrow> ('w, unit) io" where
  "router_run os r w = io_bind (router_accept_once os r) (\<lambda>_. router_run os r) w"

definition router_main :: "'w os \<Rightarrow> bytes \<Rightarrow> bytes list \<Rightarrow> 'w \<Rightarrow> (outcome \<times> 'w) option" where
  "router_main os prog args w =
     (case router_config prog args of
        Inl out \<Rightarrow> Some (out, w)
      | Inr (p, ns, vnodes_per_node, factor) \<Rightarrow>
          (case new_router os p ns vnodes_per_node factor w of
             None \<Rightarrow> None
           | Some (Inl e, w) \<Rightarrow> Some (ending ''kvrouter: fatal: '' [] (Inl e :: exn + unit), w)
           | Some (Inr (r, det), w) \<Rightarrow>
               map_option (\<lambda>(res, w). (ending ''kvrouter: fatal: '' (router_greeting p ns vnodes_per_node factor) res, w))
                 (io_finally (router_run os r) (destroy_socket os (router_socket r)) w)))"

section \<open>Node lists\<close>

fun join_nodes :: "NodeAddress list \<Rightarrow> bytes" where
  "join_nodes [] = []"
| "join_nodes [a] = node_id a"
| "join_nodes (a # as) = node_id a @ CHR '','' # join_nodes as"

lemma node_id_no_comma: "CHR '','' \<notin> set (host a) \<Longrightarrow> CHR '','' \<notin> set (node_id a)"
  using to_string_digits isdigit_facts by (fastforce simp: node_id_def)

lemma getlines_join_nodes:
  "\<forall>a \<in> set ns. CHR '','' \<notin> set (host a) \<Longrightarrow> getlines (CHR '','') (join_nodes ns) = map node_id ns"
proof (induction ns rule: join_nodes.induct)
  case (2 a)
  have "node_id a \<noteq> []" by (simp add: node_id_def)
  with 2 node_id_no_comma [of a] show ?case by (simp add: getlines_simps)
qed (simp_all add: getlines_simps node_id_no_comma)

lemma parse_items_node_ids: "parse_items (map node_id ns) = Inr ns"
proof (induction ns)
  case (Cons a ns)
  have "CHR '':'' \<notin> set (to_string (unat (port a)))" using to_string_digits isdigit_facts by blast
  then have "rfind_char (CHR '':'') (node_id a) = Some (length (host a))" by (simp add: node_id_def)
  with Cons show ?case by (simp add: node_id_def)
qed simp

lemma parse_nodes_join_nodes:
  "\<forall>a \<in> set ns. CHR '','' \<notin> set (host a) \<Longrightarrow> parse_nodes (join_nodes ns) = Inr ns"
  by (simp add: parse_nodes_def getlines_join_nodes parse_items_node_ids)

lemma node_id_inject: "node_id a = node_id b \<Longrightarrow> a = b"
  using parse_items_node_ids [of "[a]"] parse_items_node_ids [of "[b]"] by simp

section \<open>Properties\<close>

text \<open>
  C29: The router's command line is faithful. Given the list of the ids of any nodes whose host names contain no comma, a port, and
  numbers in the range of \<^verbatim>\<open>int\<close>, \<^verbatim>\<open>kvrouter\<close> builds its \<^verbatim>\<open>Router\<close> from exactly these values; host names may contain
  colons, and different nodes have different ids.
\<close>

theorem router_command_line:
  assumes "\<forall>a \<in> set ns. CHR '','' \<notin> set (host a)" "ns \<noteq> []" "v < 2 ^ 31" "0 < k" "k < 2 ^ 31"
  shows "router_config prog [''--port'', to_string (unat p), ''--nodes'', join_nodes ns, ''--vnodes'', to_string v, ''--replicas'', to_string k]
      = Inr (p, ns, v, k) \<and> (distinct (map node_id ns) \<longleftrightarrow> distinct ns)"
proof
  have "join_nodes ns \<noteq> []" using assms(2) by (cases ns rule: join_nodes.cases) (simp_all add: node_id_def)
  then show "router_config prog [''--port'', to_string (unat p), ''--nodes'', join_nodes ns, ''--vnodes'', to_string v, ''--replicas'', to_string k]
      = Inr (p, ns, v, k)"
    using assms parse_nodes_join_nodes [OF assms(1)]
    by (simp add: router_config_def default_router_options_def to_size_t_def)
  show "distinct (map node_id ns) \<longleftrightarrow> distinct ns" using node_id_inject by (auto simp: distinct_map inj_on_def)
qed

theorem router_command_line_witness:
  "router_config ''kvrouter'' [''--port'', ''7000'', ''--nodes'', ''a:1,b:2'', ''--vnodes'', ''150'', ''--replicas'', ''2'']
     = Inr (7000, [\<lparr>host = ''a'', port = 1\<rparr>, \<lparr>host = ''b'', port = 2\<rparr>], 150, 2)"
  using router_command_line [of "[\<lparr>host = ''a'', port = 1\<rparr>, \<lparr>host = ''b'', port = 2\<rparr>]" 150 2 "''kvrouter''" 7000]
  by (simp add: node_id_def codec_simps)

end
