(* ===== verification/Client.thy ===== *)
theory Client
  imports Command_Line Cluster
begin

text \<open>
  \<^verbatim>\<open>src/client/main.cpp\<close>: \<^verbatim>\<open>kvclient\<close>, with one command from its arguments, or one per line of its input over one
  connection. What it prints is a list of texts on the two output streams.

  Shown: what a session with a correct server prints, and that a command the server rejects can
  make it run another one.
\<close>

section \<open>Commands\<close>

definition build_request :: "bytes list \<Rightarrow> Request \<Rightarrow> bytes + Request" where
  "build_request tokens out =
     (if tokens = [] then Inl ''empty command''
      else let cmd = tokens ! 0 in
        if cmd = ''GET'' \<or> cmd = ''get'' then
          if length tokens \<noteq> 2 then Inl ''usage: GET key''
          else Inr (out\<lparr>command := Get, key := tokens ! 1\<rparr>)
        else if cmd = ''DELETE'' \<or> cmd = ''delete'' then
          if length tokens \<noteq> 2 then Inl ''usage: DELETE key''
          else Inr (out\<lparr>command := Delete, key := tokens ! 1\<rparr>)
        else if cmd = ''SET'' \<or> cmd = ''set'' then
          if length tokens < 3 then Inl ''usage: SET key value...''
          else Inr (out\<lparr>command := Set, key := tokens ! 1, req_value := foldl (\<lambda>v t. v @ '' '' @ t) (tokens ! 2) (drop 3 tokens)\<rparr>)
        else if cmd = ''PING'' \<or> cmd = ''ping'' then
          if length tokens \<noteq> 1 then Inl ''usage: PING''
          else Inr (out\<lparr>command := Ping\<rparr>)
        else Inl (''unknown command: '' @ cmd))"

datatype printed = Cout bytes | Cerr bytes

definition print_response :: "Response \<Rightarrow> printed \<times> int" where
  "print_response resp =
     (case resp_type resp of
        Ok \<Rightarrow> (Cout (''OK'' @ [LF]), 0)
      | Deleted \<Rightarrow> (Cout (''DELETED'' @ [LF]), 0)
      | NotFound \<Rightarrow> (Cout (''NOT_FOUND'' @ [LF]), 0)
      | Value \<Rightarrow> (Cout (resp_value resp @ [LF]), 0)
      | Pong \<Rightarrow> (Cout (''PONG'' @ [LF]), 0)
      | Error \<Rightarrow> (Cerr (''ERROR '' @ resp_message resp @ [LF]), 1))"

function split_whitespace :: "bytes \<Rightarrow> bytes list" where
  "split_whitespace line =
     (let s = dropWhile isspace line in
      if s = [] then [] else takeWhile (\<lambda>c. \<not> isspace c) s # split_whitespace (dropWhile (\<lambda>c. \<not> isspace c) s))"
  by pat_completeness auto
termination
proof (relation "measure length")
  fix line :: bytes and s
  assume s: "s = dropWhile isspace line" "s \<noteq> []"
  then obtain c cs where c: "s = c # cs" "\<not> isspace c" by (metis dropWhile_eq_Cons_conv neq_Nil_conv)
  then have "length (dropWhile (\<lambda>c. \<not> isspace c) s) \<le> length cs" by (simp add: length_dropWhile_le)
  moreover have "length s \<le> length line" by (simp add: s(1) length_dropWhile_le)
  ultimately show "(dropWhile (\<lambda>c. \<not> isspace c) s, line) \<in> measure length" using c(1) by simp
qed simp

declare split_whitespace.simps [simp del]

section \<open>The program\<close>

fun client_args :: "bytes \<Rightarrow> 16 word \<Rightarrow> bytes list \<Rightarrow> bytes \<times> 16 word \<times> bytes list" where
  "client_args h p [] = (h, p, [])"
| "client_args h p (arg # args) =
     (if arg = ''--host'' \<and> args \<noteq> [] then client_args (hd args) p (tl args)
      else if arg = ''--port'' \<and> args \<noteq> [] then client_args h (word_of_int (atoi (hd args))) (tl args)
      else (h, p, arg # args))"

text \<open>The loop over the lines of the input: the exception that ended it, if any, and what was printed.\<close>

fun client_lines :: "'w os \<Rightarrow> int \<Rightarrow> bytes list \<Rightarrow> 'w \<Rightarrow> ((exn option \<times> printed list) \<times> 'w) option" where
  "client_lines os fd [] w = Some ((None, []), w)"
| "client_lines os fd (line # lines) w =
     (let tokens = split_whitespace line in
      if tokens = [] then client_lines os fd lines w
      else case build_request tokens new_request of
        Inl err \<Rightarrow> map_option (\<lambda>((ex, outs), w). ((ex, Cerr (''kvclient: '' @ err @ [LF]) # outs), w)) (client_lines os fd lines w)
      | Inr req \<Rightarrow>
          (case send_request os fd req w of
             None \<Rightarrow> None
           | Some (Inl e, w) \<Rightarrow> Some ((Some e, []), w)
           | Some (Inr resp, w) \<Rightarrow>
               map_option (\<lambda>((ex, outs), w). ((ex, fst (print_response resp) # outs), w)) (client_lines os fd lines w)))"

definition client_fatal :: "exn \<Rightarrow> printed" where
  "client_fatal e = Cerr (''kvclient: fatal: '' @ what e @ [LF])"

text \<open>\<^verbatim>\<open>main\<close>: the exit code and what was printed; the socket is closed on the way out.\<close>

definition client_session ::
  "'w os \<Rightarrow> int \<Rightarrow> bytes list \<Rightarrow> bytes \<Rightarrow> 'w \<Rightarrow> ((int \<times> printed list) \<times> 'w) option" where
  "client_session os fd command_args cin w =
     (if command_args \<noteq> [] then
        (case build_request command_args new_request of
           Inl err \<Rightarrow> Some ((1, [Cerr (''kvclient: '' @ err @ [LF])]), w)
         | Inr req \<Rightarrow>
             (case send_request os fd req w of
                None \<Rightarrow> None
              | Some (Inl e, w) \<Rightarrow> Some ((1, [client_fatal e]), w)
              | Some (Inr resp, w) \<Rightarrow> Some ((snd (print_response resp), [fst (print_response resp)]), w)))
      else map_option (\<lambda>((ex, outs), w). (case ex of None \<Rightarrow> (0, outs) | Some e \<Rightarrow> (1, outs @ [client_fatal e]), w))
        (client_lines os fd (getlines LF cin) w))"

definition client_main :: "'w os \<Rightarrow> bytes list \<Rightarrow> bytes \<Rightarrow> 'w \<Rightarrow> ((int \<times> printed list) \<times> 'w) option" where
  "client_main os args cin w =
     (let (h, p, command_args) = client_args ''127.0.0.1'' 6380 args in
      case io_bind (connect_to os h p) (\<lambda>sock.
          io_catch (io_bind (set_tcp_nodelay os (sock_fd sock)) (\<lambda>_. io_return sock))
            (\<lambda>e w. Some (Inl e, destroy_socket os sock w))) w of
        None \<Rightarrow> None
      | Some (Inl e, w) \<Rightarrow> Some ((1, [client_fatal e]), w)
      | Some (Inr sock, w) \<Rightarrow>
          map_option (\<lambda>(res, w). (res, destroy_socket os sock w)) (client_session os (sock_fd sock) command_args cin w))"

section \<open>A session with a correct server\<close>

text \<open>
  The connection \<open>fd\<close> leads to a server of the specification: every well-formed request is answered and
  applied.
\<close>

definition serves :: "'w os \<Rightarrow> int \<Rightarrow> ('w \<Rightarrow> bytes \<rightharpoonup> bytes) \<Rightarrow> ('w \<Rightarrow> bool) \<Rightarrow> bool" where
  "serves os fd contents valid \<longleftrightarrow>
     (\<forall>req w. wf_request req \<longrightarrow> valid w \<longrightarrow>
        (\<exists>w'. send_request os fd req w = Some (Inr (fst (spec_step (contents w) req)), w') \<and> valid w' \<and>
           contents w' = snd (spec_step (contents w) req)))"

lemma servesE:
  assumes "serves os fd contents valid" "wf_request req" "valid w"
  obtains w' where "send_request os fd req w = Some (Inr (fst (spec_step (contents w) req)), w')" "valid w'"
    "contents w' = snd (spec_step (contents w) req)"
  using assms unfolding serves_def by blast

text \<open>What a session prints, from the map the server holds, and the map it leaves.\<close>

fun spec_session :: "(bytes \<rightharpoonup> bytes) \<Rightarrow> bytes list \<Rightarrow> printed list \<times> (bytes \<rightharpoonup> bytes)" where
  "spec_session m [] = ([], m)"
| "spec_session m (line # lines) =
     (if split_whitespace line = [] then spec_session m lines
      else case build_request (split_whitespace line) new_request of
        Inl err \<Rightarrow> let (outs, m') = spec_session m lines in (Cerr (''kvclient: '' @ err @ [LF]) # outs, m')
      | Inr req \<Rightarrow> let (resp, m1) = spec_step m req; (outs, m2) = spec_session m1 lines
                   in (fst (print_response resp) # outs, m2))"

definition wf_line :: "bytes \<Rightarrow> bool" where
  "wf_line line \<longleftrightarrow>
     (case build_request (split_whitespace line) new_request of Inl _ \<Rightarrow> True | Inr req \<Rightarrow> wf_request req)"

lemma client_lines_session:
  assumes server: "serves os fd contents valid"
  shows "list_all wf_line lines \<Longrightarrow> valid w \<Longrightarrow>
    \<exists>w'. client_lines os fd lines w = Some ((None, fst (spec_session (contents w) lines)), w') \<and> valid w' \<and>
      contents w' = snd (spec_session (contents w) lines)"
proof (induction lines arbitrary: w)
  case (Cons line lines)
  have rest: "list_all wf_line lines" and line: "wf_line line" using Cons.prems by simp_all
  show ?case
  proof (cases "build_request (split_whitespace line) new_request")
    case (Inl err)
    then show ?thesis using Cons.IH [OF rest Cons.prems(2)] by (auto simp: Let_def case_prod_beta)
  next
    case (Inr req)
    then have ne: "split_whitespace line \<noteq> []" by (auto simp: build_request_def)
    have "wf_request req" using line Inr by (simp add: wf_line_def)
    then obtain w1 where one: "send_request os fd req w = Some (Inr (fst (spec_step (contents w) req)), w1)" "valid w1"
      "contents w1 = snd (spec_step (contents w) req)" using servesE [OF server] Cons.prems(2) by blast
    from Cons.IH [OF rest one(2)] one show ?thesis by (auto simp: ne Inr Let_def case_prod_beta)
  qed
qed simp

text \<open>A line that is a command is a well-formed request as far as the limits allow: the tokens are never empty and contain no white space.\<close>

lemma split_whitespace_tokens: "t \<in> set (split_whitespace line) \<Longrightarrow> t \<noteq> [] \<and> (\<forall>c \<in> set t. \<not> isspace c)"
proof (induction line rule: split_whitespace.induct)
  case (1 line)
  let ?s = "dropWhile isspace line"
  show ?case
  proof (cases "?s = []")
    case True
    then have "split_whitespace line = []" by (subst split_whitespace.simps) (simp add: Let_def)
    with "1.prems" show ?thesis by simp
  next
    case False
    then have hd: "\<not> isspace (hd ?s)" by (rule hd_dropWhile)
    have "split_whitespace line = takeWhile (\<lambda>c. \<not> isspace c) ?s # split_whitespace (dropWhile (\<lambda>c. \<not> isspace c) ?s)"
      using False by (subst split_whitespace.simps) (simp add: Let_def)
    with "1.prems" consider "t = takeWhile (\<lambda>c. \<not> isspace c) ?s" | "t \<in> set (split_whitespace (dropWhile (\<lambda>c. \<not> isspace c) ?s))"
      by auto
    then show ?thesis
    proof cases
      case 1
      moreover have "takeWhile (\<lambda>c. \<not> isspace c) ?s \<noteq> []" using False hd by (simp add: takeWhile_eq_Nil_iff)
      ultimately show ?thesis by (auto dest: set_takeWhileD)
    next
      case 2
      then show ?thesis using "1.IH" [OF refl False] by blast
    qed
  qed
qed

section \<open>Properties\<close>

text \<open>One node of the cluster serves its connections.\<close>

lemma cluster_serves:
  "serves cluster_os fd (\<lambda>w. cluster_contents w n) (\<lambda>w. cluster_valid {n} w [(n, \<lparr>sock_fd = fd\<rparr>)])"
  unfolding serves_def
proof (intro allI impI)
  fix req w
  assume req: "wf_request req" and valid: "cluster_valid {n} w [(n, \<lparr>sock_fd = fd\<rparr>)]"
  have mem: "(n, \<lparr>sock_fd = fd\<rparr>) \<in> set [(n, \<lparr>sock_fd = fd\<rparr>)]" by simp
  note c = cluster_valid_conn [OF valid mem, simplified]
  have "cl_peer w fd \<in> {None, Some n}" using c(2) by auto
  from send_request_cluster [OF this c(1) req c(6,3,5)] obtain res w' where
    sent: "send_request cluster_os fd req w = Some (res, w')" and ex: "exchanged n fd req res w w'" by blast
  have "\<not> isl res" using ex c(4) unfolding exchanged_def by blast
  then obtain resp where res: "res = Inr resp" by (cases res) simp_all
  have "cluster_valid {n} w' [(n, \<lparr>sock_fd = fd\<rparr>)]" using cluster_valid_exchanged [OF valid mem] ex by simp
  with sent ex res show "\<exists>w'. send_request cluster_os fd req w = Some (Inr (fst (spec_step (cluster_contents w n) req)), w') \<and>
      cluster_valid {n} w' [(n, \<lparr>sock_fd = fd\<rparr>)] \<and> cluster_contents w' n = snd (spec_step (cluster_contents w n) req)"
    by (simp add: exchanged_def cluster_contents_def)
qed


lemma demo_lines:
  "getlines LF (''set k hello world'' @ LF # ''FOO'' @ LF # ''GET k'') = [''set k hello world'', ''FOO'', ''GET k'']"
  "split_whitespace ''set k hello world'' = [''set'', ''k'', ''hello'', ''world'']"
  "split_whitespace ''FOO'' = [''FOO'']" "split_whitespace ''GET k'' = [''GET'', ''k'']"
  by code_simp+


text \<open>
  C30: \<^verbatim>\<open>kvclient\<close> does not check the limits, and the server does not skip the value of a \<^verbatim>\<open>SET\<close> it rejects. So for a key that is too long
  the value is run as a command: here a \<^verbatim>\<open>SET\<close> whose value reads \<^verbatim>\<open>DELETE x\<close> deletes \<open>x\<close>, and the client has
  two responses where it expects one.
\<close>

theorem rejected_set_runs_its_value:
  assumes "kMaxKeyLen < length k" "list_all (\<lambda>c. 0x20 < (of_char c :: nat)) k" "is_valid_key x"
  shows "\<exists>req p. build_request [''SET'', k, ''DELETE'', x] new_request = Inr req \<and>
    try_parse_request (feed new_parser (encode_request req)) out = (ParseError, p, out) \<and>
    try_parse_request p out = (Complete, p\<lparr>buffer := []\<rparr>, \<lparr>command = Delete, key = x, req_value = []\<rparr>)"
proof -
  let ?v = "''DELETE '' @ x" and ?del = "\<lparr>command = Delete, key = x, req_value = []\<rparr>"
  let ?req = "\<lparr>command = Set, key = k, req_value = ?v\<rparr>"
  let ?line = "''SET '' @ k @ SP # to_string (length ?v)"
  let ?p = "\<lparr>buffer = ?v @ [LF], error_message = ''malformed SET request''\<rparr>"
  have bytes: "SP \<notin> set k" "LF \<notin> set k" using assms(2) by (auto simp: list_all_iff)
  have enc: "encode_request ?req = ?line @ LF # ?v @ [LF]" by (simp add: encode_request_def)
  have find: "find_char LF (?line @ LF # ?v @ [LF]) = Some (length ?line)"
    using bytes by (intro find_char_first) simp
  have "last ?line = last (to_string (length ?v))" by simp
  then have "last ?line \<noteq> CR" using to_string_no_special(3) [of "length ?v"] by (metis last_in_set to_string_nonempty)
  then have line: "strip_trailing_cr ?line = ?line" by (simp add: strip_trailing_cr_def)
  have "split_spaces ?line = [''SET'', k, to_string (length ?v)]"
    using bytes split_spaces_Cons [of "''SET''" "k @ SP # to_string (length ?v)"]
    by (simp add: split_spaces_Cons split_spaces_single)
  moreover have "\<not> is_valid_key k" using assms(1) by (simp add: is_valid_key_def)
  ultimately have "try_parse_request (feed new_parser (encode_request ?req)) out = (ParseError, ?p, out)"
    unfolding enc try_parse_request_def by (simp add: find [simplified] line [simplified] Let_def)
  moreover have "wf_request ?del" using assms(3) by (simp add: wf_request_def)
  from try_parse_request_frame [OF this, of ?p "[]" out] have "try_parse_request ?p out = (Complete, ?p\<lparr>buffer := []\<rparr>, ?del)"
    by (simp add: encode_request_def)
  moreover have "build_request [''SET'', k, ''DELETE'', x] new_request = Inr ?req"
    by (simp add: build_request_def new_request_def)
  ultimately show ?thesis by blast
qed

theorem rejected_set_runs_its_value_witness:
  "\<exists>req p. build_request [''SET'', replicate 251 CHR ''A'', ''DELETE'', ''x''] new_request = Inr req \<and>
    try_parse_request (feed new_parser (encode_request req)) new_request = (ParseError, p, new_request) \<and>
    try_parse_request p new_request = (Complete, p\<lparr>buffer := []\<rparr>, \<lparr>command = Delete, key = ''x'', req_value = []\<rparr>)"
  by (rule rejected_set_runs_its_value) (simp_all add: limit_defs is_valid_key_def list_all_iff)

end
