(* ===== verification/Protocol_Bounds.thy ===== *)
theory Protocol_Bounds
  imports Reactor
begin

text \<open>
  How much an unfinished message can grow. A parser that asks for more bytes holds less than the longest
  message, so a connection costs a bounded amount of memory, whatever its peer sends, and an exchange with a peer that keeps
  sending ends.
\<close>

section \<open>Unfinished messages\<close>

definition max_request_len :: nat where
  "max_request_len = kMaxCommandLineLen + 1 + 1 + kMaxValueLen"

definition max_response_len :: nat where
  "max_response_len = 6 + 10 + 1 + 1 + kMaxValueLen"

lemma parse_length_bounds: "parse_length s = Some n \<Longrightarrow> length s \<le> 10 \<and> n \<le> kMaxValueLen"
  by (auto simp: parse_length_def split: if_splits)

lemma length_strip_trailing_cr: "length line \<le> length (strip_trailing_cr line) + 1"
  by (simp add: strip_trailing_cr_def)

lemma length_three_tokens:
  assumes "length (split_spaces s) = 3"
  shows "length s = length (split_spaces s ! 0) + 1 + length (split_spaces s ! 1) + 1 + length (split_spaces s ! 2)"
proof -
  obtain a b c where abc: "split_spaces s = [a, b, c]"
    using assms by (auto simp: numeral_3_eq_3 length_Suc_conv)
  from split_spaces_join [of s, THEN arg_cong, of length] show ?thesis by (simp add: abc)
qed

lemma set_line_length:
  assumes "length (split_spaces line) = 3" "split_spaces line ! 0 = ''SET''" "is_valid_key (split_spaces line ! 1)"
    and "parse_length (split_spaces line ! 2) = Some n"
  shows "length line \<le> kMaxCommandLineLen"
  using length_three_tokens [OF assms(1)] parse_length_bounds [OF assms(4)] assms(2,3)
  by (simp add: is_valid_key_def kMaxCommandLineLen_def)

lemma incomplete_request_bounded:
  assumes "try_parse_request p out = (Incomplete, p', out')"
  shows "p' = p \<and> length (buffer p) \<le> max_request_len"
proof (cases "find_char LF (buffer p)")
  case None
  then show ?thesis using assms by (auto simp: try_parse_request_def max_request_len_def split: if_splits)
next
  case (Some i)
  let ?line = "strip_trailing_cr (take i (buffer p))"
  have i: "i < length (buffer p)" using Some by (simp add: find_char_SomeD)
  from assms Some have p: "p' = p" and set: "length (split_spaces ?line) = 3" "split_spaces ?line ! 0 = ''SET''"
      "is_valid_key (split_spaces ?line ! 1)" "parse_length (split_spaces ?line ! 2) \<noteq> None"
      "length (buffer p) < i + 1 + the (parse_length (split_spaces ?line ! 2)) + 1"
    by (auto simp: try_parse_request_def Let_def split: if_splits)
  from set(4) obtain n where n: "parse_length (split_spaces ?line ! 2) = Some n" by blast
  have "i \<le> kMaxCommandLineLen + 1"
    using set_line_length [OF set(1-3) n] length_strip_trailing_cr [of "take i (buffer p)"] i by simp
  with set(5) n parse_length_bounds [OF n] p show ?thesis by (simp add: max_request_len_def)
qed

lemma incomplete_response_bounded:
  assumes "try_parse_response p out = (Incomplete, p', out')"
  shows "p' = p \<and> out' = out \<and> length (buffer p) \<le> max_response_len"
proof (cases "find_char LF (buffer p)")
  case None
  then show ?thesis using assms
    by (auto simp: try_parse_response_def max_response_len_def kMaxResponseLineLen_def limit_defs split: if_splits)
next
  case (Some i)
  let ?line = "strip_trailing_cr (take i (buffer p))"
  have i: "i < length (buffer p)" using Some by (simp add: find_char_SomeD)
  from assms Some obtain n where p: "p' = p" "out' = out" and val: "parse_length (drop 6 ?line) = Some n"
      "length (buffer p) < i + 1 + n + 1"
    by (auto simp: try_parse_response_def Let_def split: if_splits option.splits)
  have "length ?line \<le> 16" using parse_length_bounds [OF val(1)] by auto
  then have "i \<le> 17" using length_strip_trailing_cr [of "take i (buffer p)"] i by simp
  with val(2) parse_length_bounds [OF val(1)] p show ?thesis by (simp add: max_response_len_def)
qed

section \<open>Exchanges end\<close>

lemma read_response_returns: "\<exists>res w'. read_response os fd p out w = Some (res, w')"
proof (induction "max_response_len + 1 - length (buffer p)" arbitrary: p out w rule: less_induct)
  case less
  obtain st p1 out1 where parse: "try_parse_response p out = (st, p1, out1)" by (metis surj_pair)
  obtain r w1 where call: "sys_read os fd 4096 w = (r, w1)" by fastforce
  show ?case
  proof (cases "st = Incomplete \<and> r \<noteq> None \<and> r \<noteq> Some []")
    case True
    then obtain d where d: "r = Some d" "d \<noteq> []" by blast
    have "p1 = p" "length (buffer p) \<le> max_response_len" using incomplete_response_bounded parse True by blast+
    with d have "\<exists>res w'. read_response os fd (feed p1 d) out1 w1 = Some (res, w')"
      by (intro less.hyps) (cases d, simp_all)
    with True d show ?thesis by (subst read_response.simps) (simp add: parse call)
  next
    case False
    then show ?thesis by (subst read_response.simps) (cases st; auto simp: parse call split: option.split)
  qed
qed

lemma send_request_total:
  assumes "posix_write os sent" "retries_end os budget"
  shows "\<exists>res w'. send_request os fd req w = Some (res, w')"
proof -
  obtain res w1 where "blocking_write os fd (\<lambda>_. ''failed to write request'') (encode_request req) 0 w = Some (res, w1)"
    using blocking_write_delivers [OF assms, of 0 "encode_request req" fd "\<lambda>_. ''failed to write request''" w] by auto
  then show ?thesis using read_response_returns [of os fd new_parser new_response w1]
    by (cases res) (simp_all add: send_request_def)
qed

section \<open>Memory of a reactor\<close>

definition buffers_bounded :: "WorkerReactor \<Rightarrow> bool" where
  "buffers_bounded r \<longleftrightarrow> (\<forall>fd p. parsers r fd = Some p \<longrightarrow> length (buffer p) \<le> max_request_len)"

lemma serve_requests_bounded:
  fixes os :: "'a os"
  assumes "serve_requests os fd p req store w = Some (Inr (p', store'), w')"
  shows "length (buffer p') \<le> max_request_len"
proof -
  let ?P = "\<lambda>(os :: 'a os) (fd :: int) (p :: IncrementalParser) (req :: Request) (store :: KVStore) (w :: 'a) y. \<forall>p' (store' :: KVStore).
    fst (y :: (exn + _) \<times> 'a) = Inr (p', store') \<longrightarrow> length (buffer p') \<le> max_request_len"
  have "?P os fd p req store w (Inr (p', store'), w')"
  proof (rule serve_requests.raw_induct [where P = ?P, OF _ assms])
    fix f :: "'a os \<Rightarrow> int \<Rightarrow> IncrementalParser \<Rightarrow> Request \<Rightarrow> KVStore \<Rightarrow> ('a, IncrementalParser \<times> KVStore) io"
      and os fd p req store w y
    assume IH: "\<And>os fd p req store w y. f os fd p req store w = Some y \<Longrightarrow> ?P os fd p req store w y"
      and body: "(let (status, parser, req) = try_parse_request p req in
        if status = Incomplete then Some (Inr (parser, store), w)
        else let (response, store) =
            (if status = ParseError then (encode_error_response (error_message parser), store)
             else handle_request store req)
          in io_bind (reactor_write_all os fd response 0) (\<lambda>_. f os fd parser req store) w) = Some y"
    obtain status parser req' where parse: "try_parse_request p req = (status, parser, req')" by (metis surj_pair)
    show "?P os fd p req store w y"
    proof (cases "status = Incomplete")
      case True
      then show ?thesis using incomplete_request_bounded [of p req parser req'] parse body by auto
    next
      case False
      from body False obtain response store1 where
        "io_bind (reactor_write_all os fd response 0) (\<lambda>_. f os fd parser req' store1) w = Some y"
        by (simp add: parse case_prod_beta Let_def)
      then show ?thesis by (cases rule: io_bind_SomeE) (simp, use IH in blast)
    qed
  qed
  then show ?thesis by simp
qed

lemma service_reads_bounded:
  fixes os :: "'a os"
  assumes "service_reads os fd r store w = Some (Inr (b, r', store'), w')" "buffers_bounded r"
  shows "buffers_bounded r'"
proof -
  let ?P = "\<lambda>(os :: 'a os) (fd :: int) r (store :: KVStore) (w :: 'a) y. buffers_bounded r \<longrightarrow>
    (\<forall>(b :: bool) r' (store' :: KVStore). fst (y :: (exn + _) \<times> 'a) = Inr (b, r', store') \<longrightarrow> buffers_bounded r')"
  have "?P os fd r store w (Inr (b, r', store'), w')"
  proof (rule service_reads.raw_induct [where P = ?P, OF _ assms(1)], intro impI)
    fix f :: "'a os \<Rightarrow> int \<Rightarrow> WorkerReactor \<Rightarrow> KVStore \<Rightarrow> ('a, bool \<times> WorkerReactor \<times> KVStore) io"
      and os fd r store w y
    assume IH: "\<And>os fd r store w y. f os fd r store w = Some y \<Longrightarrow> ?P os fd r store w y"
      and inv: "buffers_bounded r"
      and body: "(let (n, w1) = sys_read os fd 4096 w in
      (case n of
         Some chunk \<Rightarrow>
           if chunk = [] then Some (Inr (True, r, store), w1)
           else (case parsers r fd of
               None \<Rightarrow> Some (Inl (Out_of_range ''unordered_map::at''), w1)
             | Some parser \<Rightarrow>
                 io_bind (serve_requests os fd (feed parser chunk) new_request store) (\<lambda>(parser, store) w.
                   let r = r\<lparr>parsers := (parsers r)(fd \<mapsto> parser)\<rparr> in
                   if length chunk < 4096 then Some (Inr (False, r, store), w)
                   else f os fd r store w) w1)
       | None \<Rightarrow>
           if errno_of os w1 \<in> {EAGAIN, EWOULDBLOCK} then Some (Inr (False, r, store), w1)
           else if errno_of os w1 = EINTR then f os fd r store w1
           else Some (Inr (True, r, store), w1))) = Some y"
    obtain n w1 where call: "sys_read os fd 4096 w = (n, w1)" by fastforce
    have next_inv: "buffers_bounded (r\<lparr>parsers := (parsers r)(fd \<mapsto> p)\<rparr>)" if "length (buffer p) \<le> max_request_len" for p
      using inv that by (simp add: buffers_bounded_def)
    show "\<forall>b r' store'. fst y = Inr (b, r', store') \<longrightarrow> buffers_bounded r'"
    proof (cases "n = None \<or> n = Some [] \<or> parsers r fd = None")
      case True
      then show ?thesis using body inv IH by (auto simp: call split: if_splits option.splits)
    next
      case False
      then obtain chunk p where "n = Some chunk" "chunk \<noteq> []" "parsers r fd = Some p" by auto
      with body have "io_bind (serve_requests os fd (feed p chunk) new_request store) (\<lambda>(parser, store) w.
          let r = r\<lparr>parsers := (parsers r)(fd \<mapsto> parser)\<rparr> in
          if length chunk < 4096 then Some (Inr (False, r, store), w) else f os fd r store w) w1 = Some y" by (simp add: call)
      then show ?thesis
      proof (cases rule: io_bind_SomeE)
        case (returned x w2)
        obtain q store1 where x: "x = (q, store1)" by (cases x)
        with next_inv [OF serve_requests_bounded [of os fd "feed p chunk" new_request store w1 q store1 w2]] returned IH
        show ?thesis by (auto simp: Let_def split: if_splits)
      qed simp
    qed
  qed
  with assms(2) show ?thesis by simp
qed

lemma service_client_bounded:
  assumes "service_client os r store i w = Some (Inr (r', store'), w')" "buffers_bounded r"
  shows "buffers_bounded r'"
  using assms unfolding service_client_def
  by (auto elim!: io_bind_SomeE dest!: service_reads_bounded split: if_splits simp: close_client_def Let_def buffers_bounded_def)

text \<open>A sweep keeps what each of its calls keeps.\<close>

lemma sweep_keeps:
  fixes service :: "WorkerReactor \<Rightarrow> KVStore \<Rightarrow> nat \<Rightarrow> ('a, WorkerReactor \<times> KVStore) io"
  assumes "sweep service r store i w = Some (Inr (r', store'), w')" "Q r"
    and keeps: "\<And>r store i w r' store' w'. service r store i w = Some (Inr (r', store'), w') \<Longrightarrow> Q r \<Longrightarrow> Q r'"
  shows "Q r'"
proof -
  let ?P = "\<lambda>svc r store (i :: nat) w y. svc = service \<longrightarrow> Q r \<longrightarrow> (\<forall>r' (store' :: KVStore). fst (y :: (exn + _) \<times> 'a) = Inr (r', store') \<longrightarrow> Q r')"
  have "?P service r store i w (Inr (r', store'), w')"
  proof (rule sweep.raw_induct [where P = ?P, OF _ assms(1)], intro impI)
    fix f :: "(WorkerReactor \<Rightarrow> KVStore \<Rightarrow> nat \<Rightarrow> ('a, WorkerReactor \<times> KVStore) io) \<Rightarrow>
        WorkerReactor \<Rightarrow> KVStore \<Rightarrow> nat \<Rightarrow> ('a, WorkerReactor \<times> KVStore) io"
      and svc r store i w y
    assume IH: "\<And>svc r store i w y. f svc r store i w = Some y \<Longrightarrow> ?P svc r store i w y"
      and body: "(if i < length (poll_fds r) then
        if ready (poll_fds r ! i) then
          let before = length (poll_fds r) in
          io_bind (svc r store i) (\<lambda>(r, store) w.
            if length (poll_fds r) < before then f svc r store i w else f svc r store (i + 1) w) w
        else f svc r store (i + 1) w
      else Some (Inr (r, store), w)) = Some y"
      and svc: "svc = service" and inv: "Q r"
    consider "\<not> i < length (poll_fds r)" | "i < length (poll_fds r)" "\<not> ready (poll_fds r ! i)"
      | "i < length (poll_fds r)" "ready (poll_fds r ! i)" by blast
    then show "\<forall>r' store'. fst y = Inr (r', store') \<longrightarrow> Q r'"
    proof cases
      case 1
      with body inv show ?thesis by auto
    next
      case 2
      with body have "f svc r store (i + 1) w = Some y" by simp
      from IH [OF this] svc inv show ?thesis by blast
    next
      case 3
      with body have "io_bind (svc r store i) (\<lambda>(r1, store) w.
            if length (poll_fds r1) < length (poll_fds r) then f svc r1 store i w else f svc r1 store (i + 1) w) w = Some y"
        by (simp add: Let_def)
      then show ?thesis
      proof (cases rule: io_bind_SomeE)
        case (returned x w1)
        obtain r1 store1 where x: "x = (r1, store1)" by (cases x)
        have "Q r1" using keeps [of r store i w r1 store1 w1] returned(1) x svc inv by simp
        with returned(2) x IH svc show ?thesis by (auto split: if_splits)
      qed simp
    qed
  qed
  with assms(2) show ?thesis by simp
qed

lemma register_clients_bounded:
  "register_clients os nb fds r w = Some (Inr r', w') \<Longrightarrow> buffers_bounded r \<Longrightarrow> buffers_bounded r'"
proof (induction fds arbitrary: r w)
  case (Cons fd fds)
  let ?r = "r\<lparr>poll_fds := poll_fds r @ [\<lparr>pfd_fd = fd, pfd_revents = {}\<rparr>],
    parsers := (case parsers r fd of None \<Rightarrow> (parsers r)(fd \<mapsto> new_parser) | Some _ \<Rightarrow> parsers r)\<rparr>"
  from Cons.prems(1) obtain w1 where "register_clients os nb fds ?r w1 = Some (Inr r', w')"
    by (auto elim!: io_bind_SomeE)
  moreover have "buffers_bounded ?r" using Cons.prems(2) by (auto simp: buffers_bounded_def split: option.split)
  ultimately show ?case by (rule Cons.IH)
qed simp

lemma run_once_bounded:
  assumes "run_once os nb r store w = Some (Inr (r', store'), w')" "buffers_bounded r"
  shows "buffers_bounded r'"
proof -
  have bounded: "buffers_bounded (r\<lparr>poll_fds := ps\<rparr>)" "buffers_bounded (r\<lparr>poll_fds := ps, pending_clients := []\<rparr>)" for ps
    using assms(2) by (simp_all add: buffers_bounded_def)
  have sweeps: "buffers_bounded r'" if "sweep (service_client os) r1 store 1 w1 = Some (Inr (r', store'), w')" "buffers_bounded r1" for r1 w1
    using that(1) _ service_client_bounded [of os] by (rule sweep_keeps) (use that in blast)+
  obtain n revents w1 where poll: "sys_poll os (map (\<lambda>p. (pfd_fd p, {POLLIN})) (poll_fds r)) (-1) w = ((n, revents), w1)"
    by (metis surj_pair)
  let ?r = "r\<lparr>poll_fds := map (\<lambda>(p, ev). p\<lparr>pfd_revents := ev\<rparr>) (zip (poll_fds r) revents)\<rparr>"
  show ?thesis
  proof (cases "n < 0")
    case True
    then show ?thesis using assms by (auto simp: run_once_def poll throw_errno_def split: if_splits)
  next
    case False
    with assms(1) have "io_bind
        (if POLLIN \<in> pfd_revents (poll_fds ?r ! 0)
         then io_bind (drain_wakeup_pipe os (wakeup_read_fd ?r)) (\<lambda>_. accept_pending_clients os nb ?r) else io_return ?r)
        (\<lambda>r. sweep (service_client os) r store 1) w1 = Some (Inr (r', store'), w')"
      by (simp add: run_once_def poll Let_def)
    then show ?thesis
    proof (cases rule: io_bind_SomeE)
      case (returned r1 w2)
      have "buffers_bounded r1"
        using returned(1) bounded
        by (auto simp: accept_pending_clients_def elim!: io_bind_SomeE split: if_splits dest: register_clients_bounded)
      with sweeps [OF returned(2)] show ?thesis by blast
    qed simp
  qed
qed

section \<open>Properties\<close>

text \<open>
  C24: Memory per connection is bounded. When a parser asks for more bytes, a request parser holds at most \<open>max_request_len\<close>
  bytes (265 for the longest command line, its CR and LF, and a value of one megabyte) and a response parser at most
  \<open>max_response_len\<close>, whatever the peer sends; so if all buffers of a reactor are within the limit,
  they are so after every iteration of its loop that returns.
\<close>

theorem reactor_memory_bounded:
  "(\<forall>p out p' out'. try_parse_request p out = (Incomplete, p', out') \<longrightarrow> length (buffer p') \<le> max_request_len) \<and>
   (\<forall>p out p' out'. try_parse_response p out = (Incomplete, p', out') \<longrightarrow> length (buffer p') \<le> max_response_len) \<and>
   (\<forall>w r' store' w'. buffers_bounded r \<and> run_once os nb r store w = Some (Inr (r', store'), w') \<longrightarrow> buffers_bounded r')"
proof (intro conjI allI impI, goal_cases)
  case (1 p out p' out')
  then show ?case using incomplete_request_bounded [OF 1] by simp
next
  case (2 p out p' out')
  then show ?case using incomplete_response_bounded [OF 2] by simp
next
  case (3 w r' store' w')
  then show ?case using run_once_bounded [of os nb r store w r' store' w'] by simp
qed

theorem reactor_memory_bounded_witness:
  "(let q = fst (snd (try_parse_request (feed new_parser (''SET k 5'' @ LF # ''ab'')) new_request)) in length (buffer q) \<le> max_request_len) \<and>
   (let q = fst (snd (try_parse_response (feed new_parser ''VALUE'') new_response)) in length (buffer q) \<le> max_response_len) \<and>
   (\<exists>r' store' w'. run_once quiet_os id demo_reactor new_store (small_world0 (\<lambda>_. [])) = Some (Inr (r', store'), w') \<and> buffers_bounded r')"
proof -
  let ?p = "feed new_parser (''SET k 5'' @ LF # ''ab'')" and ?q = "feed new_parser ''VALUE''"
  note bounds = reactor_memory_bounded [of demo_reactor quiet_os id new_store]
  have "try_parse_request ?p new_request = (Incomplete, ?p, new_request)"
    and "try_parse_response ?q new_response = (Incomplete, ?q, new_response)"
    by (simp_all add: try_parse_request_def try_parse_response_def codec_simps)
  moreover have "buffers_bounded demo_reactor" by (simp add: buffers_bounded_def demo_reactor_def)
  moreover obtain r' store' w' where "run_once quiet_os id demo_reactor new_store (small_world0 (\<lambda>_. [])) = Some (Inr (r', store'), w')"
    by (rule demo_run_once)
  ultimately show ?thesis using bounds by (metis fst_conv snd_conv)
qed



end
