(* ===== verification/Benchmark.thy ===== *)
theory Benchmark
  imports Floating Protocol_Bounds
begin

text \<open>
  \<^verbatim>\<open>kvbench\<close> (\<^verbatim>\<open>src/benchmark\<close>): the request generator, the measuring loop of a worker thread, the
  distribution of requests over the threads, and the statistics. The random numbers are a parameter, as is
  the clock; latencies and times are real numbers. \<open>Bench_Main\<close> has the arguments and what is printed and written.

  Shown: the generator produces requests the server accepts, every request of a run is
  counted exactly once, as a latency or as an error, and the percentiles are order statistics.
\<close>

section \<open>The workload\<close>

text \<open>
  \<^verbatim>\<open>std::mt19937_64\<close> and the two distributions: \<open>key_dist hi g\<close> draws a number from \<open>0\<close> to \<open>hi\<close>,
  \<open>op_dist p g\<close> is true with probability \<open>p\<close>.
\<close>

record 'g random =
  seeded :: "nat \<Rightarrow> 'g"
  key_dist :: "nat \<Rightarrow> 'g \<Rightarrow> nat \<times> 'g"
  op_dist :: "double \<Rightarrow> 'g \<Rightarrow> bool \<times> 'g"

definition draws_in_range :: "'g random \<Rightarrow> bool" where
  "draws_in_range rnd \<longleftrightarrow> (\<forall>hi g. fst (key_dist rnd hi g) \<le> hi)"

record 'g WorkloadGenerator =
  rng :: 'g
  gen_ratio :: double
  key_max :: nat
  value_template :: bytes

definition new_generator :: "'g random \<Rightarrow> nat \<Rightarrow> double \<Rightarrow> nat \<Rightarrow> nat \<Rightarrow> 'g WorkloadGenerator" where
  "new_generator rnd seed_value ratio keys value_len =
     \<lparr>rng = seeded rnd seed_value, gen_ratio = ratio, key_max = (if 0 < keys then keys - 1 else 0),
      value_template = replicate value_len (CHR ''x'')\<rparr>"

definition gen_next :: "'g random \<Rightarrow> 'g WorkloadGenerator \<Rightarrow> Request \<times> 'g WorkloadGenerator" where
  "gen_next rnd gen =
     (let (k, g1) = key_dist rnd (key_max gen) (rng gen);
          (is_get, g2) = op_dist rnd (gen_ratio gen) g1
      in (\<lparr>command = (if is_get then Get else Set), key = ''key:'' @ to_string k,
           req_value = (if is_get then [] else value_template gen)\<rparr>,
          gen\<lparr>rng := g2\<rparr>))"

section \<open>A worker\<close>

record RunConfig =
  bench_host :: bytes
  bench_port :: "16 word"
  requests :: nat
  concurrency :: nat
  get_ratio :: double
  bench_key_space :: nat
  value_size :: nat
  seed :: nat
  git_rev :: bytes

record ThreadResult =
  get_latencies_ms :: "real list"
  set_latencies_ms :: "real list"
  errors :: nat

definition new_result :: ThreadResult where
  "new_result = \<lparr>get_latencies_ms = [], set_latencies_ms = [], errors = 0\<rparr>"

text \<open>The loop; \<open>now\<close> is the steady clock, in milliseconds.\<close>

fun bench_loop ::
  "'w os \<Rightarrow> ('w \<Rightarrow> real \<times> 'w) \<Rightarrow> 'g random \<Rightarrow> int \<Rightarrow> nat \<Rightarrow> 'g WorkloadGenerator \<Rightarrow> ThreadResult \<Rightarrow> 'w \<Rightarrow> (ThreadResult \<times> 'w) option" where
  "bench_loop os now rnd fd 0 gen result w = Some (result, w)"
| "bench_loop os now rnd fd (Suc n) gen result w =
     (let (req, gen) = gen_next rnd gen; (t0, w1) = now w in
      case send_request os fd req w1 of
        None \<Rightarrow> None
      | Some (Inl e, w2) \<Rightarrow> bench_loop os now rnd fd n gen (result\<lparr>errors := errors result + 1\<rparr>) w2
      | Some (Inr resp, w2) \<Rightarrow>
          (let (t1, w3) = now w2; ms = t1 - t0 in
           bench_loop os now rnd fd n gen
             (if resp_type resp = Error then result\<lparr>errors := errors result + 1\<rparr>
              else if command req = Get then result\<lparr>get_latencies_ms := get_latencies_ms result @ [ms]\<rparr>
              else result\<lparr>set_latencies_ms := set_latencies_ms result @ [ms]\<rparr>) w3))"

definition bench_worker ::
  "'w os \<Rightarrow> ('w \<Rightarrow> real \<times> 'w) \<Rightarrow> 'g random \<Rightarrow> nat \<Rightarrow> nat \<Rightarrow> RunConfig \<Rightarrow> ThreadResult \<Rightarrow> 'w \<Rightarrow> (ThreadResult \<times> 'w) option" where
  "bench_worker os now rnd thread_index num_requests cfg result w =
     (case connect_to os (bench_host cfg) (bench_port cfg) w of
        None \<Rightarrow> None
      | Some (Inl e, w) \<Rightarrow> Some (result\<lparr>errors := errors result + num_requests\<rparr>, w)
      | Some (Inr sock, w) \<Rightarrow>
          (case set_tcp_nodelay os (sock_fd sock) w of
             None \<Rightarrow> None
           | Some (Inl e, w) \<Rightarrow> Some (result\<lparr>errors := errors result + num_requests\<rparr>, destroy_socket os sock w)
           | Some (Inr _, w) \<Rightarrow>
               map_option (\<lambda>(result, w). (result, destroy_socket os sock w))
                 (bench_loop os now rnd (sock_fd sock) num_requests
                   (new_generator rnd ((seed cfg + thread_index) mod 2 ^ 64) (get_ratio cfg) (bench_key_space cfg) (value_size cfg))
                   result w)))"

section \<open>Statistics\<close>

record PercentileStats =
  p50_ms :: real
  p95_ms :: real
  p99_ms :: real
  mean_ms :: real
  min_ms :: real
  max_ms :: real

text \<open>The lambda of \<^verbatim>\<open>compute_percentiles\<close>, on the sorted samples.\<close>

definition percentile :: "real list \<Rightarrow> real \<Rightarrow> real" where
  "percentile sorted_ms p =
     (let n = length sorted_ms; idx = nat \<lceil>p * real n\<rceil> - 1 in sorted_ms ! (if n \<le> idx then n - 1 else idx))"

definition compute_percentiles :: "real list \<Rightarrow> PercentileStats" where
  "compute_percentiles latencies_ms =
     (if latencies_ms = [] then \<lparr>p50_ms = 0, p95_ms = 0, p99_ms = 0, mean_ms = 0, min_ms = 0, max_ms = 0\<rparr>
      else let s = sort latencies_ms in
        \<lparr>p50_ms = percentile s (50 / 100), p95_ms = percentile s (95 / 100), p99_ms = percentile s (99 / 100),
         mean_ms = foldl (+) 0 s / real (length s), min_ms = hd s, max_ms = last s\<rparr>)"

section \<open>A run\<close>

text \<open>The requests of thread \<open>t\<close>, and the result of a run from those of its threads.\<close>

definition thread_requests :: "RunConfig \<Rightarrow> nat \<Rightarrow> nat" where
  "thread_requests cfg t =
     requests cfg div concurrency cfg + (if t < requests cfg mod concurrency cfg then 1 else 0)"

text \<open>The threads, each from the world it starts in, and what joining them leaves; \<open>None\<close> if one never ends.\<close>

definition bench_threads ::
  "'w os \<Rightarrow> ('w \<Rightarrow> real \<times> 'w) \<Rightarrow> 'g random \<Rightarrow> (nat \<Rightarrow> 'w) \<Rightarrow> RunConfig \<Rightarrow> ThreadResult option list" where
  "bench_threads os now rnd ws cfg =
     map (\<lambda>t. map_option fst (bench_worker os now rnd t (thread_requests cfg t) cfg new_result (ws t))) [0..<concurrency cfg]"

definition join_threads :: "'a option list \<Rightarrow> 'a list option" where
  "join_threads threads = (if None \<in> set threads then None else Some (map the threads))"

record RunResult =
  config :: RunConfig
  wall_clock_seconds :: real
  throughput_rps :: real
  overall :: PercentileStats
  get_stats :: PercentileStats
  set_stats :: PercentileStats
  error_count :: nat

definition all_latencies :: "ThreadResult list \<Rightarrow> real list" where
  "all_latencies results = concat (map (\<lambda>tr. get_latencies_ms tr @ set_latencies_ms tr) results)"

definition summarize :: "RunConfig \<Rightarrow> real \<Rightarrow> ThreadResult list \<Rightarrow> RunResult" where
  "summarize cfg seconds results =
     \<lparr>config = cfg, wall_clock_seconds = seconds,
      throughput_rps = (if 0 < seconds then real (length (all_latencies results)) / seconds else 0),
      overall = compute_percentiles (all_latencies results),
      get_stats = compute_percentiles (concat (map get_latencies_ms results)),
      set_stats = compute_percentiles (concat (map set_latencies_ms results)),
      error_count = sum_list (map errors results)\<rparr>"

definition bench_exit_code :: "RunResult \<Rightarrow> int" where
  "bench_exit_code result = (if 0 < error_count result then 2 else 0)"

section \<open>The generator\<close>

lemma gen_next_wf:
  assumes "draws_in_range rnd" "key_max gen < 2 ^ 64" "length (value_template gen) \<le> kMaxValueLen"
  shows "wf_request (fst (gen_next rnd gen))" and "key_max (snd (gen_next rnd gen)) = key_max gen"
    and "value_template (snd (gen_next rnd gen)) = value_template gen"
proof -
  obtain k g1 where k: "key_dist rnd (key_max gen) (rng gen) = (k, g1)" by fastforce
  obtain b g2 where b: "op_dist rnd (gen_ratio gen) g1 = (b, g2)" by fastforce
  have "k \<le> key_max gen" using assms(1) k unfolding draws_in_range_def by (metis fst_conv)
  then have "k < 10 ^ 20" using assms(2) by simp
  then have len: "length (to_string k) \<le> 20" by (rule length_to_string_le) simp
  have "\<forall>c \<in> set (to_string k). \<not> (of_char c :: nat) \<le> 32" using to_string_digits by (fastforce simp: isdigit_def)
  with len have "is_valid_key (''key:'' @ to_string k)"
    by (simp add: is_valid_key_def limit_defs list_all_iff)
  then show "wf_request (fst (gen_next rnd gen))"
    using assms(3) by (simp add: gen_next_def k b wf_request_def)
  show "key_max (snd (gen_next rnd gen)) = key_max gen" "value_template (snd (gen_next rnd gen)) = value_template gen"
    by (simp_all add: gen_next_def k b)
qed

section \<open>Every request is counted\<close>

definition accounted :: "ThreadResult \<Rightarrow> nat" where
  "accounted r = errors r + length (get_latencies_ms r) + length (set_latencies_ms r)"

lemma bench_loop_accounts:
  assumes os: "\<And>req w. \<exists>res w'. send_request os fd req w = Some (res, w')"
  shows "\<exists>r' w'. bench_loop os now rnd fd n gen r w = Some (r', w') \<and> accounted r' = accounted r + n"
proof (induction n arbitrary: gen r w)
  case (Suc n)
  obtain req gen1 where g: "gen_next rnd gen = (req, gen1)" by fastforce
  obtain t0 w1 where t0: "now w = (t0, w1)" by fastforce
  obtain res w2 where sent: "send_request os fd req w1 = Some (res, w2)" using os by blast
  obtain t1 w3 where t1: "now w2 = (t1, w3)" by fastforce
  show ?case
  proof (cases res)
    case (Inl e)
    then show ?thesis using Suc [of gen1 "r\<lparr>errors := errors r + 1\<rparr>" w2] by (simp add: g t0 sent accounted_def)
  next
    case (Inr resp)
    let ?r = "if resp_type resp = Error then r\<lparr>errors := errors r + 1\<rparr>
      else if command req = Get then r\<lparr>get_latencies_ms := get_latencies_ms r @ [t1 - t0]\<rparr>
      else r\<lparr>set_latencies_ms := set_latencies_ms r @ [t1 - t0]\<rparr>"
    have "accounted ?r = accounted r + 1" by (simp add: accounted_def)
    then show ?thesis using Suc [of gen1 ?r w3] Inr by (simp add: g t0 t1 sent Let_def)
  qed
qed simp

lemma connect_to_returns: "\<exists>res w'. connect_to os h p w = Some (res, w')"
  by (auto simp: connect_to_def throw_errno_def io_bind_def split: prod.split)

lemma bench_worker_accounts:
  assumes os: "\<And>fd req w. \<exists>res w'. send_request os fd req w = Some (res, w')"
  shows "\<exists>r' w'. bench_worker os now rnd t n cfg new_result w = Some (r', w') \<and> accounted r' = n"
proof -
  obtain c w1 where c: "connect_to os (bench_host cfg) (bench_port cfg) w = Some (c, w1)"
    using connect_to_returns [of os "bench_host cfg" "bench_port cfg" w] by blast
  show ?thesis
  proof (cases c)
    case (Inl e)
    then show ?thesis by (simp add: bench_worker_def c accounted_def new_result_def)
  next
    case (Inr sock)
    obtain d w2 where d: "set_tcp_nodelay os (sock_fd sock) w1 = Some (d, w2)"
      using set_tcp_nodelay_returns [of os "sock_fd sock" w1] by blast
    let ?gen = "new_generator rnd ((seed cfg + t) mod 2 ^ 64) (get_ratio cfg) (bench_key_space cfg) (value_size cfg)"
    obtain r' w3 where "bench_loop os now rnd (sock_fd sock) n ?gen new_result w2 = Some (r', w3)" "accounted r' = accounted new_result + n"
      using bench_loop_accounts [of os "sock_fd sock", OF os, of now rnd n ?gen new_result w2] by blast
    then show ?thesis using Inr
      by (cases d) (simp_all add: bench_worker_def c d accounted_def new_result_def)
  qed
qed

lemma bench_threads_account:
  assumes "posix_write os sent" "retries_end os budget"
  obtains results where "join_threads (bench_threads os now rnd ws cfg) = Some results"
    "map accounted results = map (thread_requests cfg) [0..<concurrency cfg]"
proof -
  have "\<exists>r. map_option fst (bench_worker os now rnd t (thread_requests cfg t) cfg new_result (ws t)) = Some r \<and> accounted r = thread_requests cfg t" for t
    using bench_worker_accounts [of os now rnd t "thread_requests cfg t" cfg "ws t"] send_request_total [OF assms] by (metis fst_conv option.simps(9))
  then obtain f where f: "\<And>t. map_option fst (bench_worker os now rnd t (thread_requests cfg t) cfg new_result (ws t)) = Some (f t)"
    "\<And>t. accounted (f t) = thread_requests cfg t" by metis
  show ?thesis by (rule that [of "map f [0..<concurrency cfg]"]) (auto simp: join_threads_def bench_threads_def f)
qed

lemma sum_thread_requests:
  assumes "0 < concurrency cfg"
  shows "sum_list (map (thread_requests cfg) [0..<concurrency cfg]) = requests cfg"
proof -
  let ?k = "concurrency cfg" and ?n = "requests cfg"
  have "sum_list (map (thread_requests cfg) [0..<?k]) = (\<Sum>t<?k. ?n div ?k + (if t < ?n mod ?k then 1 else 0))"
    by (simp add: thread_requests_def interv_sum_list_conv_sum_set_nat atLeast0LessThan)
  also have "\<dots> = ?k * (?n div ?k) + card {t \<in> {..<?k}. t < ?n mod ?k}"
    by (simp add: sum.distrib sum.If_cases Int_def)
  also have "{t \<in> {..<?k}. t < ?n mod ?k} = {..<?n mod ?k}" using assms by auto (meson less_trans mod_less_divisor)
  finally show ?thesis by simp
qed

lemma run_accounts:
  assumes "0 < concurrency cfg" "map accounted results = map (thread_requests cfg) [0..<concurrency cfg]"
  shows "error_count (summarize cfg seconds results) + length (all_latencies results) = requests cfg"
proof -
  have "sum_list (map accounted results) = requests cfg" using sum_thread_requests [OF assms(1)] assms(2) by simp
  moreover have "sum_list (map errors results) + length (all_latencies results) = sum_list (map accounted results)"
    by (induction results) (simp_all add: all_latencies_def accounted_def)
  ultimately show ?thesis by (simp add: summarize_def)
qed

section \<open>Order statistics\<close>

text \<open>\<open>v\<close> is a sample with at least the fraction \<open>p\<close> of the samples at or below it, and less than that below it.\<close>

definition is_percentile :: "real list \<Rightarrow> real \<Rightarrow> real \<Rightarrow> bool" where
  "is_percentile xs p v \<longleftrightarrow> v \<in> set xs \<and> p * real (length xs) \<le> real (length (filter (\<lambda>x. x \<le> v) xs)) \<and>
     real (length (filter (\<lambda>x. x < v) xs)) < p * real (length xs)"

lemma sorted_nth_counts:
  fixes ys :: "real list"
  assumes "sorted ys" "i < length ys"
  shows "i + 1 \<le> length (filter (\<lambda>x. x \<le> ys ! i) ys)" "length (filter (\<lambda>x. x < ys ! i) ys) \<le> i"
proof -
  have "filter (\<lambda>x. x \<le> ys ! i) (take (i + 1) ys) = take (i + 1) ys"
    using assms by (auto simp: filter_id_conv in_set_conv_nth less_Suc_eq_le intro!: sorted_nth_mono [OF assms(1)])
  then have "i + 1 = length (filter (\<lambda>x. x \<le> ys ! i) (take (i + 1) ys))" using assms by simp
  also have "\<dots> \<le> length (filter (\<lambda>x. x \<le> ys ! i) (take (i + 1) ys @ drop (i + 1) ys))" by (simp only: filter_append length_append)
  finally show "i + 1 \<le> length (filter (\<lambda>x. x \<le> ys ! i) ys)" by simp
  have "filter (\<lambda>x. x < ys ! i) (drop i ys) = []"
    using assms by (auto simp: filter_empty_conv in_set_conv_nth not_less intro!: sorted_nth_mono [OF assms(1)])
  then have "length (filter (\<lambda>x. x < ys ! i) (take i ys @ drop i ys)) \<le> i"
    using length_filter_le [of _ "take i ys"] by (simp only: filter_append append_Nil2) simp
  then show "length (filter (\<lambda>x. x < ys ! i) ys) \<le> i" by simp
qed

lemma length_filter_sort: "length (filter P (sort xs)) = length (filter P (xs :: real list))"
  by (metis mset_filter mset_sort size_mset)

lemma rank_bounds:
  assumes "0 < n" "0 < p" "p \<le> 1"
  shows "nat \<lceil>p * real n\<rceil> - 1 < n" "p * real n \<le> real (nat \<lceil>p * real n\<rceil> - 1 + 1)" "real (nat \<lceil>p * real n\<rceil> - 1) < p * real n"
proof -
  have pos: "0 < p * real n" using assms by simp
  then have c: "1 \<le> \<lceil>p * real n\<rceil>" by linarith
  have "p * real n \<le> real n" using assms by (simp add: mult_le_cancel_right1)
  then have "\<lceil>p * real n\<rceil> \<le> int n" by (simp add: ceiling_le_iff)
  with c assms(1) show "nat \<lceil>p * real n\<rceil> - 1 < n" by linarith
  have "int (nat \<lceil>p * real n\<rceil> - 1) = \<lceil>p * real n\<rceil> - 1" using c by linarith
  then have rank: "real (nat \<lceil>p * real n\<rceil> - 1) = real_of_int \<lceil>p * real n\<rceil> - 1"
    by (metis of_int_1 of_int_diff of_int_of_nat_eq)
  show "p * real n \<le> real (nat \<lceil>p * real n\<rceil> - 1 + 1)" 
    unfolding of_nat_add rank using le_of_int_ceiling [of "p * real n"] by simp
  show "real (nat \<lceil>p * real n\<rceil> - 1) < p * real n" unfolding rank by linarith
qed

lemma percentile_nth:
  assumes "s \<noteq> []" "0 < p" "p \<le> 1"
  shows "percentile s p = s ! (nat \<lceil>p * real (length s)\<rceil> - 1)"
  using rank_bounds(1) [of "length s" p] assms by (simp add: percentile_def Let_def)

lemma percentile_sort:
  assumes "xs \<noteq> []" "0 < p" "p \<le> 1"
  shows "is_percentile xs p (percentile (sort xs) p)"
proof -
  let ?s = "sort xs" and ?i = "nat \<lceil>p * real (length xs)\<rceil> - 1"
  have n: "0 < length xs" using assms(1) by simp
  note rank = rank_bounds [OF n assms(2,3)]
  have ne: "?s \<noteq> []" using assms(1) by (metis length_sort length_0_conv)
  have v: "percentile ?s p = ?s ! ?i" using percentile_nth [OF ne assms(2,3)] by simp
  have i: "?i < length ?s" using rank(1) by simp
  have "?s ! ?i \<in> set xs" using nth_mem [OF i] by simp
  moreover note sorted_nth_counts [OF sorted_sort i, unfolded length_filter_sort]
  ultimately show ?thesis using rank(2,3) unfolding is_percentile_def v by (auto intro: order_trans order_le_less_trans)
qed

lemma sorted_hd_last:
  fixes s :: "real list"
  assumes "sorted s" "x \<in> set s"
  shows "hd s \<le> x" "x \<le> last s"
proof -
  obtain i where i: "i < length s" "x = s ! i" using assms(2) by (auto simp: in_set_conv_nth)
  then have "s ! 0 \<le> x" "x \<le> s ! (length s - 1)"
    using sorted_nth_mono [OF assms(1), of 0 i] sorted_nth_mono [OF assms(1), of i "length s - 1"] by simp_all
  moreover have "s \<noteq> []" using i(1) by auto
  ultimately show "hd s \<le> x" "x \<le> last s" by (simp_all add: hd_conv_nth last_conv_nth)
qed

lemma percentile_mono:
  assumes "sorted s" "s \<noteq> []" "0 < p" "p \<le> q" "q \<le> 1"
  shows "hd s \<le> percentile s p" "percentile s p \<le> percentile s q" "percentile s q \<le> last s"
proof -
  let ?r = "\<lambda>p. nat \<lceil>p * real (length s)\<rceil> - 1"
  have n: "0 < length s" using assms by simp
  have r: "?r p < length s" "?r q < length s" using rank_bounds(1) [OF n] assms by auto
  have "p * real (length s) \<le> q * real (length s)" using assms by (simp add: mult_right_mono)
  then have le: "?r p \<le> ?r q" by (intro diff_le_mono nat_mono ceiling_mono)
  have "percentile s p = s ! ?r p" "percentile s q = s ! ?r q" using percentile_nth assms by auto
  then show "hd s \<le> percentile s p" "percentile s p \<le> percentile s q" "percentile s q \<le> last s"
    using sorted_hd_last(1) [OF assms(1) nth_mem [OF r(1)]] sorted_nth_mono [OF assms(1) le r(2)]
      sorted_hd_last(2) [OF assms(1) nth_mem [OF r(2)]] by simp_all
qed

lemma foldl_sum_list: "foldl (+) a s = a + sum_list (s :: real list)"
  by (induction s arbitrary: a) simp_all

lemma mean_between:
  fixes s :: "real list"
  assumes "sorted s" "s \<noteq> []"
  shows "hd s \<le> foldl (+) 0 s / real (length s) \<and> foldl (+) 0 s / real (length s) \<le> last s"
proof -
  have "hd s * real (length s) \<le> sum_list s" "sum_list s \<le> last s * real (length s)"
    using sorted_hd_last [OF assms(1)] sum_list_mono [of s "\<lambda>_. hd s" "\<lambda>x. x"] sum_list_mono [of s "\<lambda>x. x" "\<lambda>_. last s"]
    by (simp_all add: sum_list_triv mult.commute)
  moreover have "foldl (+) 0 s = sum_list s" using foldl_sum_list [of 0 s] by simp
  moreover have "0 < real (length s)" using assms(2) by simp
  ultimately show ?thesis by (simp add: le_divide_eq divide_le_eq)
qed

section \<open>Properties\<close>

text \<open>
  A run of \<^verbatim>\<open>kvbench\<close> counts every request exactly once. Whatever the server sends, each worker
  returns, and its errors and latencies add up to the requests it was given, also when it cannot connect; the threads are
  given all requests of the run; so the error count and the number of latencies of the result add up to \<^verbatim>\<open>--requests\<close>.
\<close>

theorem benchmark_accounts_for_every_request:
  assumes "posix_write os sent" "retries_end os budget" "0 < concurrency cfg"
  shows "(\<forall>t w. \<exists>r w'. bench_worker os now rnd t (thread_requests cfg t) cfg new_result w = Some (r, w') \<and>
      accounted r = thread_requests cfg t) \<and>
    (\<forall>results seconds. map accounted results = map (thread_requests cfg) [0..<concurrency cfg] \<longrightarrow>
      error_count (summarize cfg seconds results) + length (all_latencies results) = requests cfg)"
proof (intro conjI allI impI)
  show "\<exists>r w'. bench_worker os now rnd t (thread_requests cfg t) cfg new_result w = Some (r, w') \<and>
      accounted r = thread_requests cfg t" for t w
    by (rule bench_worker_accounts) (rule send_request_total [OF assms(1,2)])
next
  show "error_count (summarize cfg seconds results) + length (all_latencies results) = requests cfg"
    if "map accounted results = map (thread_requests cfg) [0..<concurrency cfg]" for results seconds
    using that by (rule run_accounts [OF assms(3)])
qed

text \<open>A run of three requests over two connections to a server that closes them.\<close>

definition demo_config :: RunConfig where
  "demo_config = \<lparr>bench_host = ''localhost'', bench_port = 6380, requests = 3, concurrency = 2, get_ratio = Fin (7 / 10),
     bench_key_space = 1000, value_size = 64, seed = 42, git_rev = ''unknown''\<rparr>"

definition demo_random :: "nat random" where
  "demo_random = \<lparr>seeded = id, key_dist = (\<lambda>hi g. (min hi g, g + 1)), op_dist = (\<lambda>p g. (even g, g + 1))\<rparr>"

lemma demo_random_in_range: "draws_in_range demo_random"
  by (simp add: draws_in_range_def demo_random_def)

theorem benchmark_accounts_for_every_request_witness:
  "\<exists>r w'. bench_worker small_os (\<lambda>w. (0, w)) demo_random 0 2 demo_config new_result (small_world0 (\<lambda>_. [])) = Some (r, w') \<and>
     accounted r = 2 \<and>
     error_count (summarize demo_config 1 [r, new_result\<lparr>errors := 1\<rparr>]) + length (all_latencies [r, new_result\<lparr>errors := 1\<rparr>]) = 3"
proof -
  have k: "0 < concurrency demo_config" by (simp add: demo_config_def)
  note all = benchmark_accounts_for_every_request [OF small_os_contracts(1,2) k, of "\<lambda>w. (0, w)" demo_random]
  have n: "thread_requests demo_config 0 = 2" "thread_requests demo_config 1 = 1" "concurrency demo_config = 2" "requests demo_config = 3"
    by (simp_all add: thread_requests_def demo_config_def)
  from all n obtain r w' where r: "bench_worker small_os (\<lambda>w. (0, w)) demo_random 0 2 demo_config new_result (small_world0 (\<lambda>_. [])) = Some (r, w')"
    "accounted r = 2" by metis
  have "map accounted [r, new_result\<lparr>errors := 1\<rparr>] = map (thread_requests demo_config) [0..<concurrency demo_config]"
    using r(2) n by (simp add: upt_rec accounted_def new_result_def)
  with all n r show ?thesis by metis
qed

text \<open>
  C28: The latency statistics are order statistics of the samples: each reported percentile is a sample such that at least that
  fraction of all samples is at or below it, and less than that is below it; minimum and maximum are those
  of the samples, the percentiles are in order between them, and so is the mean.
\<close>

theorem percentiles_are_order_statistics:
  assumes "xs \<noteq> []" "s = compute_percentiles xs"
  shows "is_percentile xs (50 / 100) (p50_ms s) \<and> is_percentile xs (95 / 100) (p95_ms s) \<and> is_percentile xs (99 / 100) (p99_ms s) \<and>
    min_ms s = Min (set xs) \<and> max_ms s = Max (set xs) \<and>
    min_ms s \<le> p50_ms s \<and> p50_ms s \<le> p95_ms s \<and> p95_ms s \<le> p99_ms s \<and> p99_ms s \<le> max_ms s \<and>
    min_ms s \<le> mean_ms s \<and> mean_ms s \<le> max_ms s"
proof -
  let ?s = "sort xs"
  have ne: "?s \<noteq> []" using assms(1) by (metis length_sort length_0_conv)
  have s: "s = \<lparr>p50_ms = percentile ?s (50 / 100), p95_ms = percentile ?s (95 / 100), p99_ms = percentile ?s (99 / 100),
      mean_ms = foldl (+) 0 ?s / real (length ?s), min_ms = hd ?s, max_ms = last ?s\<rparr>"
    using assms by (simp add: compute_percentiles_def Let_def)
  note ends = sorted_hd_last [OF sorted_sort, of _ xs]
  have "hd ?s = Min (set xs)" using ends(1) hd_in_set [OF ne] by (intro Min_eqI [symmetric]) simp_all
  moreover have "last ?s = Max (set xs)" using ends(2) last_in_set [OF ne] by (intro Max_eqI [symmetric]) simp_all
  moreover note percentile_mono [OF sorted_sort ne, of "50 / 100" "95 / 100"] percentile_mono [OF sorted_sort ne, of "95 / 100" "99 / 100"]
  ultimately show ?thesis
    using percentile_sort [OF assms(1), of "50 / 100"] percentile_sort [OF assms(1), of "95 / 100"] percentile_sort [OF assms(1), of "99 / 100"]
      mean_between [OF sorted_sort ne] unfolding s by simp
qed

theorem percentiles_are_order_statistics_witness:
  "let s = compute_percentiles [3, 1, 2] in
     is_percentile [3, 1, 2] (50 / 100) (p50_ms s) \<and> min_ms s = 1 \<and> max_ms s = 3 \<and> mean_ms s \<le> 3"
  using percentiles_are_order_statistics [of "[3, 1, 2]" "compute_percentiles [3, 1, 2]"] by (simp add: Let_def)

end
