(* ===== verification/Failover_Bench.thy ===== *)
theory Failover_Bench
  imports Benchmark Ordered_Map
begin

text \<open>
  \<^verbatim>\<open>src/tools/failover_bench.cpp\<close>: \<^verbatim>\<open>kvfailover\<close> loads a router, kills a node on the way and derives from the outcomes of
  the requests how long errors went on. Here are the loop of a worker thread and the evaluation; \<open>Failover_Main\<close> has the program around them.

  Shown: a worker ends and has one request in flight at a time, every sample is on one side of the kill, and the recovery time is exactly the time after which no request failed.
\<close>

section \<open>A worker\<close>

record FailoverConfig =
  fo_host :: bytes
  fo_port :: "16 word"
  kill_pid :: int
  duration_ms :: double
  kill_at_ms :: double
  fo_concurrency :: nat
  fo_get_ratio :: double
  fo_key_space :: nat
  fo_value_size :: nat
  fo_seed :: nat

definition default_failover_config :: FailoverConfig where
  "default_failover_config =
     \<lparr>fo_host = ''127.0.0.1'', fo_port = 6380, kill_pid = -1, duration_ms = Fin 6000, kill_at_ms = Fin 2000, fo_concurrency = 20,
      fo_get_ratio = Fin (7 / 10), fo_key_space = 1000, fo_value_size = 64, fo_seed = 42\<rparr>"

record Sample =
  start_ms :: real
  end_ms :: real
  sample_ok :: bool
  latency_ms :: real

text \<open>The loop, until the clock passes the end of the run; \<open>start\<close> is the time the run began.\<close>

partial_function (option) failover_loop ::
  "'w os \<Rightarrow> ('w \<Rightarrow> real \<times> 'w) \<Rightarrow> 'g random \<Rightarrow> int \<Rightarrow> real \<Rightarrow> double \<Rightarrow> 'g WorkloadGenerator \<Rightarrow> Sample list \<Rightarrow> 'w \<Rightarrow> (Sample list \<times> 'w) option" where
  "failover_loop os now rnd fd begin_ms duration gen samples w =
     (let (t, w1) = now w in
      if dle duration (Fin (t - begin_ms)) then Some (samples, w1)
      else
        let (req, gen) = gen_next rnd gen; (t0, w2) = now w1 in
        (case send_request os fd req w2 of
           None \<Rightarrow> None
         | Some (res, w3) \<Rightarrow>
             let (t1, w4) = now w3;
                 sample = \<lparr>start_ms = t0 - begin_ms, end_ms = t1 - begin_ms,
                   sample_ok = (case res of Inr resp \<Rightarrow> resp_type resp \<noteq> Error | Inl e \<Rightarrow> False),
                   latency_ms = (case res of Inr resp \<Rightarrow> t1 - t0 | Inl e \<Rightarrow> -1)\<rparr>
             in failover_loop os now rnd fd begin_ms duration gen (samples @ [sample]) w4))"

definition failover_worker ::
  "'w os \<Rightarrow> ('w \<Rightarrow> real \<times> 'w) \<Rightarrow> 'g random \<Rightarrow> nat \<Rightarrow> FailoverConfig \<Rightarrow> real \<Rightarrow> 'w \<Rightarrow> (Sample list \<times> 'w) option" where
  "failover_worker os now rnd thread_index cfg begin_ms w =
     (case connect_to os (fo_host cfg) (fo_port cfg) w of
        None \<Rightarrow> None
      | Some (Inl e, w) \<Rightarrow> Some ([], w)
      | Some (Inr sock, w) \<Rightarrow>
          (case set_tcp_nodelay os (sock_fd sock) w of
             None \<Rightarrow> None
           | Some (Inl e, w) \<Rightarrow> Some ([], destroy_socket os sock w)
           | Some (Inr _, w) \<Rightarrow>
               map_option (\<lambda>(samples, w). (samples, destroy_socket os sock w))
                 (failover_loop os now rnd (sock_fd sock) begin_ms (duration_ms cfg)
                   (new_generator rnd ((fo_seed cfg + thread_index) mod 2 ^ 64) (fo_get_ratio cfg) (fo_key_space cfg) (fo_value_size cfg))
                   [] w)))"

section \<open>The evaluation\<close>

record Tally =
  requests_before :: nat
  errors_before :: nat
  requests_after :: nat
  errors_after :: nat
  any_error_after :: bool
  last_error_after_ts :: real

definition classify :: "real \<Rightarrow> Tally \<Rightarrow> Sample \<Rightarrow> Tally" where
  "classify kill_ts t s =
     (if end_ms s < kill_ts then
        t\<lparr>requests_before := requests_before t + 1, errors_before := errors_before t + (if sample_ok s then 0 else 1)\<rparr>
      else if sample_ok s then t\<lparr>requests_after := requests_after t + 1\<rparr>
      else t\<lparr>requests_after := requests_after t + 1, errors_after := errors_after t + 1, any_error_after := True,
             last_error_after_ts := max (last_error_after_ts t) (end_ms s)\<rparr>)"

definition tally :: "real \<Rightarrow> Sample list \<Rightarrow> Tally" where
  "tally kill_ts samples =
     foldl (classify kill_ts)
       \<lparr>requests_before = 0, errors_before = 0, requests_after = 0, errors_after = 0, any_error_after = False,
        last_error_after_ts = kill_ts\<rparr> samples"

definition recovery_ms :: "real \<Rightarrow> Tally \<Rightarrow> real" where
  "recovery_ms kill_ts t = (if any_error_after t then last_error_after_ts t - kill_ts else 0)"

definition kTailWindowMs :: real where "kTailWindowMs = 200"

definition errors_at_tail :: "double \<Rightarrow> Sample list \<Rightarrow> bool" where
  "errors_at_tail duration samples = list_ex (\<lambda>s. dle (dminus duration kTailWindowMs) (Fin (end_ms s)) \<and> \<not> sample_ok s) samples"

text \<open>The timeline: requests and errors per 100 milliseconds. The cast to an integer truncates towards zero.\<close>

definition truncate_real :: "real \<Rightarrow> int" where
  "truncate_real x = (if 0 \<le> x then \<lfloor>x\<rfloor> else \<lceil>x\<rceil>)"

definition count_bucket :: "(int, nat \<times> nat) omap \<Rightarrow> Sample \<Rightarrow> (int, nat \<times> nat) omap" where
  "count_bucket m s =
     (let bucket = truncate_real (end_ms s / 100) * 100;
          (n, e) = (case map_of m bucket of None \<Rightarrow> (0, 0) | Some c \<Rightarrow> c)
      in om_assign bucket (n + 1, if sample_ok s then e else e + 1) m)"

definition buckets :: "Sample list \<Rightarrow> (int, nat \<times> nat) omap" where
  "buckets samples = foldl count_bucket [] samples"

record FailoverReport =
  total :: nat
  fo_tally :: Tally
  recovery :: real
  recovery_bounded :: bool
  timeline :: "(int, nat \<times> nat) omap"

definition evaluate :: "double \<Rightarrow> real \<Rightarrow> Sample list list \<Rightarrow> FailoverReport" where
  "evaluate duration kill_ts thread_samples =
     (let samples = sort_key end_ms (concat thread_samples); t = tally kill_ts samples in
      \<lparr>total = length samples, fo_tally = t, recovery = recovery_ms kill_ts t,
       recovery_bounded = (\<not> any_error_after t \<or> \<not> errors_at_tail duration samples), timeline = buckets samples\<rparr>)"

section \<open>The worker ends\<close>

text \<open>
  \<open>clock w\<close> is the time in world \<open>w\<close>. Reading it takes at least \<open>tick\<close> milliseconds, and it does not run backwards.
\<close>

definition steady_clock :: "'w os \<Rightarrow> ('w \<Rightarrow> real \<times> 'w) \<Rightarrow> ('w \<Rightarrow> real) \<Rightarrow> real \<Rightarrow> bool" where
  "steady_clock os now clock tick \<longleftrightarrow>
     0 < tick \<and> (\<forall>w. fst (now w) = clock w \<and> clock w + tick \<le> clock (snd (now w))) \<and>
     (\<forall>fd req w res w'. send_request os fd req w = Some (res, w') \<longrightarrow> clock w \<le> clock w')"

lemma steady_clockD:
  assumes "steady_clock os now clock tick"
  shows "0 < tick" "now w = (t, w') \<Longrightarrow> t = clock w \<and> clock w + tick \<le> clock w'"
    "send_request os fd req w = Some (res, w') \<Longrightarrow> clock w \<le> clock w'"
  using assms unfolding steady_clock_def by (metis fst_conv snd_conv)+

text \<open>
  What a worker measures: one request at a time, each sample with its duration unless it failed.
\<close>

definition closed_loop :: "Sample list \<Rightarrow> bool" where
  "closed_loop samples \<longleftrightarrow> sorted_wrt (\<lambda>a b. end_ms a < start_ms b) samples \<and>
     (\<forall>s \<in> set samples. start_ms s < end_ms s \<and> (sample_ok s \<longrightarrow> latency_ms s = end_ms s - start_ms s))"

lemma failover_loop_measures:
  assumes clock: "steady_clock os now clock tick" and os: "\<And>req w. \<exists>res w'. send_request os fd req w = Some (res, w')"
  shows "\<exists>new w'. failover_loop os now rnd fd begin_ms (Fin duration) gen samples w = Some (samples @ new, w') \<and> closed_loop new \<and>
    (\<forall>s \<in> set new. clock w - begin_ms < start_ms s) \<and> (\<forall>s \<in> set (butlast new). end_ms s < duration) \<and>
    (new \<noteq> [] \<longrightarrow> clock w - begin_ms < duration)"
proof (induction "nat \<lceil>(begin_ms + duration - clock w) / tick\<rceil>" arbitrary: gen samples w rule: less_induct)
  case less
  note tick = steady_clockD(1) [OF clock]
  obtain t w1 where t: "now w = (t, w1)" by fastforce
  obtain req gen1 where g: "gen_next rnd gen = (req, gen1)" by fastforce
  obtain t0 w2 where t0: "now w1 = (t0, w2)" by fastforce
  obtain res w3 where sent: "send_request os fd req w2 = Some (res, w3)" using os by blast
  obtain t1 w4 where t1: "now w3 = (t1, w4)" by fastforce
  note times = steady_clockD(2) [OF clock t] steady_clockD(2) [OF clock t0] steady_clockD(2) [OF clock t1] steady_clockD(3) [OF clock sent]
  show ?case
  proof (cases "duration \<le> t - begin_ms")
    case True
    then show ?thesis by (intro exI [of _ "[]"]) (subst failover_loop.simps, simp add: t closed_loop_def)
  next
    case False
    let ?left = "\<lambda>w. (begin_ms + duration - clock w) / tick"
    define s where "s = \<lparr>start_ms = t0 - begin_ms, end_ms = t1 - begin_ms,
      sample_ok = (case res of Inr resp \<Rightarrow> resp_type resp \<noteq> Error | Inl e \<Rightarrow> False),
      latency_ms = (case res of Inr resp \<Rightarrow> t1 - t0 | Inl e \<Rightarrow> -1)\<rparr>"
    have "clock w + tick \<le> clock w4" using tick times by linarith
    then have "(begin_ms + duration - clock w4 + tick) / tick \<le> ?left w" using tick by (intro divide_right_mono) simp_all
    then have "?left w4 + 1 \<le> ?left w" using tick by (simp add: add_divide_distrib)
    moreover have "0 < ?left w" using False times tick by simp
    ultimately have "nat \<lceil>?left w4\<rceil> < nat \<lceil>?left w\<rceil>" by linarith
    from less.hyps [OF this, of gen1 "samples @ [s]"] obtain new w' where
      run: "failover_loop os now rnd fd begin_ms (Fin duration) gen1 (samples @ [s]) w4 = Some ((samples @ [s]) @ new, w')"
      and new: "closed_loop new" "\<And>x. x \<in> set new \<Longrightarrow> clock w4 - begin_ms < start_ms x"
        "\<forall>x \<in> set (butlast new). end_ms x < duration" "new \<noteq> [] \<longrightarrow> clock w4 - begin_ms < duration"
      by blast
    have s: "clock w - begin_ms < start_ms s" "start_ms s < end_ms s" "end_ms s < clock w4 - begin_ms"
      "sample_ok s \<longrightarrow> latency_ms s = end_ms s - start_ms s" "clock w - begin_ms < duration"
      using times tick False by (auto simp: s_def split: sum.splits)
    have "failover_loop os now rnd fd begin_ms (Fin duration) gen samples w = Some (samples @ s # new, w')"
      using False run by (subst failover_loop.simps) (simp add: t g t0 sent t1 Let_def s_def)
    moreover have "closed_loop (s # new)" using new(1) less_trans [OF s(3) new(2)] s(2,4) by (simp add: closed_loop_def)
    moreover have "clock w - begin_ms < start_ms x" if "x \<in> set (s # new)" for x using that s(1-3) new(2) [of x] by fastforce
    moreover have "end_ms x < duration" if "x \<in> set (butlast (s # new))" for x
      using that s(3) new(3,4) by (cases "new = []") fastforce+
    ultimately show ?thesis using s(5) by blast
  qed
qed

section \<open>What the evaluation computes\<close>

definition failed_after :: "real \<Rightarrow> Sample \<Rightarrow> bool" where
  "failed_after kill_ts s \<longleftrightarrow> kill_ts \<le> end_ms s \<and> \<not> sample_ok s"

lemma tally_snoc: "tally kill_ts (samples @ [s]) = classify kill_ts (tally kill_ts samples) s"
  by (simp add: tally_def)

lemma tally_counts:
  "requests_before (tally kill_ts samples) = length (filter (\<lambda>s. end_ms s < kill_ts) samples)"
  "errors_before (tally kill_ts samples) = length (filter (\<lambda>s. end_ms s < kill_ts \<and> \<not> sample_ok s) samples)"
  "requests_after (tally kill_ts samples) = length (filter (\<lambda>s. kill_ts \<le> end_ms s) samples)"
  "errors_after (tally kill_ts samples) = length (filter (failed_after kill_ts) samples)"
  "any_error_after (tally kill_ts samples) \<longleftrightarrow> (\<exists>s \<in> set samples. failed_after kill_ts s)"
proof (induction samples rule: rev_induct)
  case Nil
  { case 1 then show ?case by (simp add: tally_def) }
  { case 2 then show ?case by (simp add: tally_def) }
  { case 3 then show ?case by (simp add: tally_def) }
  { case 4 then show ?case by (simp add: tally_def) }
  { case 5 then show ?case by (simp add: tally_def) }
next
  case (snoc s samples)
  { case 1 then show ?case using snoc by (simp add: tally_snoc classify_def) }
  { case 2 then show ?case using snoc by (simp add: tally_snoc classify_def) }
  { case 3 then show ?case using snoc by (simp add: tally_snoc classify_def) }
  { case 4 then show ?case using snoc by (simp add: tally_snoc classify_def failed_after_def) }
  { case 5 then show ?case using snoc by (auto simp: tally_snoc classify_def failed_after_def) }
qed

lemma tally_last_error:
  "last_error_after_ts (tally kill_ts samples) = Max (insert kill_ts (end_ms ` {s \<in> set samples. failed_after kill_ts s}))"
proof (induction samples rule: rev_induct)
  case Nil
  show ?case by (simp add: tally_def)
next
  case (snoc s samples)
  have "{x \<in> set (samples @ [s]). failed_after kill_ts x} =
      (if failed_after kill_ts s then insert s {x \<in> set samples. failed_after kill_ts x} else {x \<in> set samples. failed_after kill_ts x})"
    by auto
  moreover have "Max (insert kill_ts (insert (end_ms s) A)) = max (Max (insert kill_ts A)) (end_ms s)" if "finite A" for A
    using that by (metis Max_insert finite.insertI insert_commute insert_not_empty max.commute)
  ultimately show ?case using snoc by (auto simp: tally_snoc classify_def failed_after_def)
qed

lemma tally_recovery:
  "0 \<le> recovery_ms kill_ts (tally kill_ts samples)"
  "s \<in> set samples \<Longrightarrow> failed_after kill_ts s \<Longrightarrow> end_ms s \<le> kill_ts + recovery_ms kill_ts (tally kill_ts samples)"
  "\<exists>s \<in> set samples. failed_after kill_ts s \<Longrightarrow>
     \<exists>s \<in> set samples. failed_after kill_ts s \<and> end_ms s = kill_ts + recovery_ms kill_ts (tally kill_ts samples)"
proof -
  let ?F = "{s \<in> set samples. failed_after kill_ts s}" and ?last = "last_error_after_ts (tally kill_ts samples)"
  have fin: "finite (insert kill_ts (end_ms ` ?F))" by simp
  have kill: "kill_ts \<le> ?last" unfolding tally_last_error by (intro Max_ge fin) simp
  then show "0 \<le> recovery_ms kill_ts (tally kill_ts samples)" by (simp add: recovery_ms_def)
  have upper: "end_ms s \<le> ?last" if "s \<in> ?F" for s unfolding tally_last_error by (intro Max_ge fin) (use that in blast)
  then show "s \<in> set samples \<Longrightarrow> failed_after kill_ts s \<Longrightarrow> end_ms s \<le> kill_ts + recovery_ms kill_ts (tally kill_ts samples)"
    using tally_counts(5) [of kill_ts samples] by (auto simp: recovery_ms_def)
  assume ex: "\<exists>s \<in> set samples. failed_after kill_ts s"
  then have rec: "kill_ts + recovery_ms kill_ts (tally kill_ts samples) = ?last"
    using tally_counts(5) [of kill_ts samples] by (simp add: recovery_ms_def)
  have "?last \<in> insert kill_ts (end_ms ` ?F)" unfolding tally_last_error by (intro Max_in fin) simp
  then consider "?last = kill_ts" | s where "s \<in> ?F" "end_ms s = ?last" by auto
  then show "\<exists>s \<in> set samples. failed_after kill_ts s \<and> end_ms s = kill_ts + recovery_ms kill_ts (tally kill_ts samples)"
  proof cases
    case 1
    from ex obtain s where s: "s \<in> set samples" "failed_after kill_ts s" by blast
    with upper [of s] 1 have "end_ms s = ?last" by (auto simp: failed_after_def)
    with s rec show ?thesis by auto
  next
    case 2
    with rec show ?thesis by auto
  qed
qed

section \<open>Which workers end\<close>

text \<open>
  A worker of \<^verbatim>\<open>kvfailover\<close> ends, whatever the network does to its requests, and measures as it should: it has one request in
  flight at a time, a sample's latency is the time between its two ends unless the request failed, and at most the last
  request ends after the run. That the clock advances is the hypothesis \<open>steady_clock\<close>.
\<close>

lemma failover_worker_measures:
  assumes "posix_write os sent" "retries_end os budget" "steady_clock os now clock tick" "duration_ms cfg = Fin limit"
  shows "\<exists>samples w'. failover_worker os now rnd t cfg begin_ms w = Some (samples, w') \<and> closed_loop samples \<and>
    (\<forall>s \<in> set (butlast samples). end_ms s < limit)"
proof -
  obtain c w1 where c: "connect_to os (fo_host cfg) (fo_port cfg) w = Some (c, w1)"
    using connect_to_returns [of os "fo_host cfg" "fo_port cfg" w] by blast
  show ?thesis
  proof (cases c)
    case (Inl e)
    then show ?thesis by (simp add: failover_worker_def c closed_loop_def)
  next
    case (Inr sock)
    obtain d w2 where d: "set_tcp_nodelay os (sock_fd sock) w1 = Some (d, w2)"
      using set_tcp_nodelay_returns [of os "sock_fd sock" w1] by blast
    note total = send_request_total [OF assms(1,2), of "sock_fd sock"]
    from failover_loop_measures [OF assms(3) total, of rnd begin_ms limit
      "new_generator rnd ((fo_seed cfg + t) mod 2 ^ 64) (fo_get_ratio cfg) (fo_key_space cfg) (fo_value_size cfg)" "[]" w2]
    show ?thesis using Inr by (cases d) (auto simp: failover_worker_def c d assms(4) closed_loop_def)
  qed
qed

text \<open>A duration no time reaches.\<close>

lemma failover_loop_diverges:
  assumes "\<And>x. \<not> dle duration (Fin x)"
  shows "failover_loop os now rnd fd begin_ms duration gen samples w = None"
proof (rule ccontr)
  assume "failover_loop os now rnd fd begin_ms duration gen samples w \<noteq> None"
  then obtain y where "failover_loop os now rnd fd begin_ms duration gen samples w = Some y" by blast
  then have "\<exists>x. dle duration (Fin x)"
  proof (rule failover_loop.raw_induct [where P = "\<lambda>os now rnd fd begin_ms duration gen samples w y. \<exists>x. dle duration (Fin x)", rotated])
    fix f :: "'a os \<Rightarrow> ('a \<Rightarrow> real \<times> 'a) \<Rightarrow> 'b random \<Rightarrow> int \<Rightarrow> real \<Rightarrow> double \<Rightarrow> 'b WorkloadGenerator \<Rightarrow> Sample list \<Rightarrow> 'a \<Rightarrow> (Sample list \<times> 'a) option"
      and os now rnd fd begin_ms duration gen samples w y
    assume IH: "\<And>os now rnd fd begin_ms duration gen samples w y.
        f os now rnd fd begin_ms duration gen samples w = Some y \<Longrightarrow> \<exists>x. dle duration (Fin x)"
      and body: "(let (t, w1) = now w in
        if dle duration (Fin (t - begin_ms)) then Some (samples, w1)
        else
          let (req, gen) = gen_next rnd gen; (t0, w2) = now w1 in
          (case send_request os fd req w2 of
             None \<Rightarrow> None
           | Some (res, w3) \<Rightarrow>
               let (t1, w4) = now w3;
                   sample = \<lparr>start_ms = t0 - begin_ms, end_ms = t1 - begin_ms,
                     sample_ok = (case res of Inr resp \<Rightarrow> resp_type resp \<noteq> Error | Inl e \<Rightarrow> False),
                     latency_ms = (case res of Inr resp \<Rightarrow> t1 - t0 | Inl e \<Rightarrow> -1)\<rparr>
               in f os now rnd fd begin_ms duration gen (samples @ [sample]) w4)) = Some y"
    then show "\<exists>x. dle duration (Fin x)" by (auto simp: Let_def case_prod_beta split: if_splits option.splits)
  qed
  with assms show False by blast
qed

section \<open>The timeline\<close>

lemma buckets_counts:
  shows "om_invar (buckets samples)" "sum_list (map (\<lambda>b. fst (snd b)) (buckets samples)) = length samples"
    "sum_list (map (\<lambda>b. snd (snd b)) (buckets samples)) = length (filter (\<lambda>s. \<not> sample_ok s) samples)"
proof -
  have "om_invar (buckets samples) \<and> sum_list (map (\<lambda>b. fst (snd b)) (buckets samples)) = length samples \<and>
    sum_list (map (\<lambda>b. snd (snd b)) (buckets samples)) = length (filter (\<lambda>s. \<not> sample_ok s) samples)"
  proof (induction samples rule: rev_induct)
    case (snoc s samples)
    let ?b = "truncate_real (end_ms s / 100) * 100" and ?m = "buckets samples"
    obtain n e where ne: "(case map_of ?m ?b of None \<Rightarrow> (0, 0) | Some c \<Rightarrow> c) = (n, e)" by fastforce
    let ?v = "(n + 1, if sample_ok s then e else e + 1)"
    have b: "buckets (samples @ [s]) = om_assign ?b ?v ?m" by (simp add: buckets_def count_bucket_def ne [unfolded buckets_def])
    have inv: "om_invar ?m" using snoc by blast
    have old: "(case map_of ?m ?b of None \<Rightarrow> 0 | Some c \<Rightarrow> fst c) = n" "(case map_of ?m ?b of None \<Rightarrow> 0 | Some c \<Rightarrow> snd c) = e"
      using ne by (auto split: option.splits)
    show ?case using snoc om_invar_assign [OF inv, of ?b ?v] sum_om_assign [OF inv, of fst ?b ?v] sum_om_assign [OF inv, of snd ?b ?v]
      unfolding b old by (auto split: if_splits)
  qed (simp add: buckets_def om_invar_def)
  then show "om_invar (buckets samples)" "sum_list (map (\<lambda>b. fst (snd b)) (buckets samples)) = length samples"
    "sum_list (map (\<lambda>b. snd (snd b)) (buckets samples)) = length (filter (\<lambda>s. \<not> sample_ok s) samples)" by blast+
qed

section \<open>Properties\<close>

text \<open>
  C27: The recovery time \<^verbatim>\<open>kvfailover\<close> reports is exact. The samples of all threads are split at the kill, each counted once; no request
  failed later than the recovery time after the kill, and if one failed after the kill, one failed exactly then; it
  is zero if none did. It is called bounded precisely if no request failed after the kill, or none in the last 200 ms.
\<close>

theorem recovery_time_is_exact:
  assumes "r = evaluate (Fin duration) kill_ts thread_samples" "samples = concat thread_samples"
  shows "total r = length samples \<and> requests_before (fo_tally r) + requests_after (fo_tally r) = total r \<and>
    errors_before (fo_tally r) + errors_after (fo_tally r) = length (filter (\<lambda>s. \<not> sample_ok s) samples) \<and>
    (\<forall>s \<in> set samples. kill_ts + recovery r < end_ms s \<longrightarrow> sample_ok s) \<and>
    ((\<exists>s \<in> set samples. failed_after kill_ts s) \<longrightarrow> (\<exists>s \<in> set samples. failed_after kill_ts s \<and> end_ms s = kill_ts + recovery r)) \<and>
    ((\<forall>s \<in> set samples. \<not> failed_after kill_ts s) \<longrightarrow> recovery r = 0) \<and>
    (recovery_bounded r \<longleftrightarrow> (\<forall>s \<in> set samples. \<not> failed_after kill_ts s) \<or>
      (\<forall>s \<in> set samples. duration - 200 \<le> end_ms s \<longrightarrow> sample_ok s))"
proof -
  let ?s = "sort_key end_ms samples"
  let ?t = "tally kill_ts ?s"
  have r: "total r = length samples" "fo_tally r = ?t" "recovery r = recovery_ms kill_ts ?t"
    "recovery_bounded r \<longleftrightarrow> \<not> any_error_after ?t \<or> \<not> errors_at_tail (Fin duration) ?s"
    using assms by (simp_all add: evaluate_def Let_def)
  have len: "length (filter P ?s) = length (filter P samples)" for P by (metis mset_filter mset_sort size_mset)
  have "length (filter (\<lambda>s. end_ms s < kill_ts) samples) + length (filter (\<lambda>s. kill_ts \<le> end_ms s) samples) = length samples"
    using sum_length_filter_compl [of "\<lambda>s. end_ms s < kill_ts" samples] by (simp add: not_less)
  moreover have "length (filter (\<lambda>s. end_ms s < kill_ts \<and> \<not> sample_ok s) samples) + length (filter (failed_after kill_ts) samples)
      = length (filter (\<lambda>s. \<not> sample_ok s) samples)"
    by (induction samples) (auto simp: failed_after_def)
  moreover have "sample_ok s" if "s \<in> set samples" "kill_ts + recovery_ms kill_ts ?t < end_ms s" for s
  proof (rule ccontr)
    assume "\<not> sample_ok s"
    with that tally_recovery(1) [of kill_ts ?s] have "failed_after kill_ts s" by (simp add: failed_after_def)
    with tally_recovery(2) [of s ?s kill_ts] that show False by simp
  qed
  ultimately show ?thesis
    using tally_recovery(3) [of ?s kill_ts] tally_counts(5) [of kill_ts ?s]
    unfolding r by (auto simp: tally_counts len recovery_ms_def errors_at_tail_def kTailWindowMs_def list_ex_iff)
qed

theorem recovery_time_is_exact_witness:
  "let before = \<lparr>start_ms = 990, end_ms = 1000, sample_ok = True, latency_ms = 10\<rparr>;
       failed = \<lparr>start_ms = 1990, end_ms = 2100, sample_ok = False, latency_ms = -1\<rparr>;
       after = \<lparr>start_ms = 2100, end_ms = 3000, sample_ok = True, latency_ms = 900\<rparr>;
       r = evaluate (Fin 6000) 2000 [[before, failed], [after]]
   in total r = 3 \<and> recovery r = 100 \<and> recovery_bounded r"
proof -
  let ?before = "\<lparr>start_ms = 990, end_ms = 1000, sample_ok = True, latency_ms = 10\<rparr>"
  let ?failed = "\<lparr>start_ms = 1990, end_ms = 2100, sample_ok = False, latency_ms = -1\<rparr>"
  let ?after = "\<lparr>start_ms = 2100, end_ms = 3000, sample_ok = True, latency_ms = 900\<rparr>"
  show ?thesis
    using recovery_time_is_exact [of _ 6000 2000 "[[?before, ?failed], [?after]]" "[?before, ?failed, ?after]", OF refl]
    by (simp add: Let_def failed_after_def)
qed

text \<open>A clock that advances with every look at it, here by one entry of a list.\<close>

definition demo_now :: "small_world \<Rightarrow> real \<times> small_world" where
  "demo_now w = (real (length (dw_open w)), w\<lparr>dw_open := 99 # dw_open w\<rparr>)"

lemma demo_now_steady: "steady_clock small_os demo_now (\<lambda>w. real (length (dw_open w))) 1"
proof -
  have "dw_open w' = dw_open w" if "send_request small_os fd req w = Some (res, w')" for fd req w res w'
    using send_request_keeps [of dw_open small_os, OF _ _ that] by simp
  then show ?thesis by (fastforce simp: steady_clock_def demo_now_def)
qed

lemma failover_worker_measures_witness:
  "\<exists>samples w'. failover_worker small_os demo_now demo_random 0 default_failover_config 3 (small_world0 (\<lambda>_. [])) = Some (samples, w') \<and>
     closed_loop samples \<and> (\<forall>s \<in> set (butlast samples). end_ms s < 6000)"
  using failover_worker_measures [OF small_os_contracts(1,2) demo_now_steady, of default_failover_config 6000 demo_random 0 3]
  by (simp add: default_failover_config_def)

end
