(* ===== verification/Bench_Main.thy ===== *)
theory Bench_Main
  imports Benchmark Json
begin

text \<open>
  The rest of \<^verbatim>\<open>kvbench\<close>: its arguments, what it prints, and the files it writes (\<^verbatim>\<open>src/benchmark/main.cpp\<close> and the second half of
  \<^verbatim>\<open>src/benchmark/stats.cpp\<close>). A thread is its worker, run from a world \<open>ws t\<close> of its own; the seconds the run took, the text git
  prints, the local time and which files can be opened are arguments. The messages of the workers are not part of the texts.

  Shown: the files read back as the results of the run, every request of which is counted.
\<close>

section \<open>Texts\<close>

definition json_escape :: "bytes \<Rightarrow> bytes" where
  "json_escape s = concat (map (\<lambda>c. if c = CHR 0x22 \<or> c = CHR 0x5C then [CHR 0x5C, c] else [c]) s)"

abbreviation show_real :: "real \<Rightarrow> bytes" where
  "show_real x \<equiv> show_double (Fin x)"

definition percentiles_json :: "PercentileStats \<Rightarrow> bytes" where
  "percentiles_json s =
     ''{'' @ quoted ''p50'' @ '':'' @ show_real (p50_ms s) @ '','' @ quoted ''p95'' @ '':'' @ show_real (p95_ms s) @
     '','' @ quoted ''p99'' @ '':'' @ show_real (p99_ms s) @ '','' @ quoted ''mean'' @ '':'' @ show_real (mean_ms s) @
     '','' @ quoted ''min'' @ '':'' @ show_real (min_ms s) @ '','' @ quoted ''max'' @ '':'' @ show_real (max_ms s) @ ''}''"

definition print_row :: "bytes \<Rightarrow> PercentileStats \<Rightarrow> bytes" where
  "print_row label s =
     label @ '': p50='' @ show_real (p50_ms s) @ ''ms p95='' @ show_real (p95_ms s) @
     ''ms p99='' @ show_real (p99_ms s) @ ''ms mean='' @ show_real (mean_ms s) @
     ''ms min='' @ show_real (min_ms s) @ ''ms max='' @ show_real (max_ms s) @ ''ms'' @ [LF]"

definition print_summary :: "RunResult \<Rightarrow> bytes" where
  "print_summary r =
     [LF] @ ''=== Benchmark Results ==='' @ [LF] @
     ''requests='' @ to_string (requests (config r)) @
     '' concurrency='' @ to_string (concurrency (config r)) @
     '' get_ratio='' @ show_double (get_ratio (config r)) @
     '' key_space='' @ to_string (bench_key_space (config r)) @
     '' value_size='' @ to_string (value_size (config r)) @
     '' seed='' @ to_string (seed (config r)) @ [LF] @
     ''wall_clock='' @ show_real (wall_clock_seconds r) @ ''s'' @
     ''  throughput='' @ show_real (throughput_rps r) @ '' req/s'' @
     ''  errors='' @ to_string (error_count r) @ [LF] @
     print_row ''overall'' (overall r) @ print_row ''GET    '' (get_stats r) @ print_row ''SET    '' (set_stats r) @ [LF]"

definition to_json :: "RunResult \<Rightarrow> bytes" where
  "to_json r =
     ''{'' @ [LF] @
     ''  '' @ quoted ''config'' @ '': {'' @ [LF] @
     ''    '' @ quoted ''host'' @ '': '' @ quoted (json_escape (bench_host (config r))) @ '','' @ [LF] @
     ''    '' @ quoted ''port'' @ '': '' @ to_string (unat (bench_port (config r))) @ '','' @ [LF] @
     ''    '' @ quoted ''requests'' @ '': '' @ to_string (requests (config r)) @ '','' @ [LF] @
     ''    '' @ quoted ''concurrency'' @ '': '' @ to_string (concurrency (config r)) @ '','' @ [LF] @
     ''    '' @ quoted ''get_ratio'' @ '': '' @ show_double (get_ratio (config r)) @ '','' @ [LF] @
     ''    '' @ quoted ''key_space'' @ '': '' @ to_string (bench_key_space (config r)) @ '','' @ [LF] @
     ''    '' @ quoted ''value_size'' @ '': '' @ to_string (value_size (config r)) @ '','' @ [LF] @
     ''    '' @ quoted ''seed'' @ '': '' @ to_string (seed (config r)) @ '','' @ [LF] @
     ''    '' @ quoted ''git_rev'' @ '': '' @ quoted (json_escape (git_rev (config r))) @ [LF] @
     ''  },'' @ [LF] @
     ''  '' @ quoted ''wall_clock_seconds'' @ '': '' @ show_real (wall_clock_seconds r) @ '','' @ [LF] @
     ''  '' @ quoted ''throughput_rps'' @ '': '' @ show_real (throughput_rps r) @ '','' @ [LF] @
     ''  '' @ quoted ''error_count'' @ '': '' @ to_string (error_count r) @ '','' @ [LF] @
     ''  '' @ quoted ''latency_ms'' @ '': {'' @ [LF] @
     ''    '' @ quoted ''overall'' @ '': '' @ percentiles_json (overall r) @ '','' @ [LF] @
     ''    '' @ quoted ''get'' @ '': '' @ percentiles_json (get_stats r) @ '','' @ [LF] @
     ''    '' @ quoted ''set'' @ '': '' @ percentiles_json (set_stats r) @ [LF] @
     ''  }'' @ [LF] @
     ''}'' @ [LF]"

definition to_csv_header :: bytes where
  "to_csv_header = ''op,latency_ms'' @ [LF]"

definition to_csv_row :: "real \<Rightarrow> bytes \<Rightarrow> bytes" where
  "to_csv_row latency op = op @ '','' @ show_real latency @ [LF]"

section \<open>Surroundings\<close>

text \<open>
  \<^verbatim>\<open>get_git_rev\<close>: \<open>pipe\<close> is what the command prints, \<open>None\<close> if it cannot be started. \<^verbatim>\<open>fgets\<close> reads up to 127 bytes and stops after a
  line feed; appending the buffer stops at a NUL.
\<close>

definition fgets :: "bytes \<Rightarrow> bytes" where
  "fgets s = (let t = take 127 s in case find_char LF t of None \<Rightarrow> t | Some i \<Rightarrow> take (i + 1) t)"

lemma fgets_nonempty: "s \<noteq> [] \<Longrightarrow> fgets s \<noteq> []"
  by (auto simp: fgets_def Let_def split: option.split)

function pipe_text :: "bytes \<Rightarrow> bytes" where
  "pipe_text s =
     (if s = [] then [] else takeWhile (\<lambda>c. c \<noteq> CHR 0x00) (fgets s) @ pipe_text (drop (length (fgets s)) s))"
  by pat_completeness auto
termination
  by (relation "measure length") (auto simp: fgets_nonempty intro!: diff_less)

declare pipe_text.simps [simp del]

definition get_git_rev :: "bytes option \<Rightarrow> bytes" where
  "get_git_rev pipe =
     (case pipe of
        None \<Rightarrow> ''unknown''
      | Some s \<Rightarrow>
          let result = rev (dropWhile (\<lambda>c. c = LF \<or> c = CR) (rev (pipe_text s)))
          in if result = [] then ''unknown'' else result)"

text \<open>The local time, with the fields of \<^verbatim>\<open>std::tm\<close>, and its format \<^verbatim>\<open>%Y%m%d-%H%M%S\<close>.\<close>

record tm =
  tm_year :: nat
  tm_mon :: nat
  tm_mday :: nat
  tm_hour :: nat
  tm_min :: nat
  tm_sec :: nat

definition two_digits :: "nat \<Rightarrow> bytes" where
  "two_digits n = (if n < 10 then CHR ''0'' # to_string n else to_string n)"

definition timestamp_run_id :: "tm \<Rightarrow> bytes" where
  "timestamp_run_id t =
     to_string (tm_year t + 1900) @ two_digits (tm_mon t + 1) @ two_digits (tm_mday t) @ ''-'' @
     two_digits (tm_hour t) @ two_digits (tm_min t) @ two_digits (tm_sec t)"

section \<open>The program\<close>

record BenchOptions =
  bench_config :: RunConfig
  results_path :: bytes
  raw_output :: bool

definition default_bench_options :: BenchOptions where
  "default_bench_options =
     \<lparr>bench_config = \<lparr>bench_host = ''127.0.0.1'', bench_port = 6380, requests = 10000, concurrency = 50, get_ratio = Fin (7 / 10),
        bench_key_space = 1000, value_size = 64, seed = 42, git_rev = []\<rparr>,
      results_path = [], raw_output = False\<rparr>"

definition with_config :: "BenchOptions \<Rightarrow> (RunConfig \<Rightarrow> RunConfig) \<Rightarrow> BenchOptions" where
  "with_config opts f = opts\<lparr>bench_config := f (bench_config opts)\<rparr>"

text \<open>The argument loop; \<^verbatim>\<open>next()\<close> is the following argument, or an empty string at the end.\<close>

fun bench_args :: "BenchOptions \<Rightarrow> bytes list \<Rightarrow> exn + BenchOptions arguments" where
  "bench_args opts [] = Inr (Options opts)"
| "bench_args opts (arg # args) =
     (let next_arg = (if args = [] then [] else hd args) in
      if arg = ''--host'' then bench_args (with_config opts (bench_host_update (\<lambda>_. next_arg))) (tl args)
      else if arg = ''--port'' then bench_args (with_config opts (bench_port_update (\<lambda>_. of_int (atoi next_arg)))) (tl args)
      else if arg = ''--requests'' then
        (case parse_unsigned ''stoul'' next_arg of Inl e \<Rightarrow> Inl e
         | Inr n \<Rightarrow> bench_args (with_config opts (requests_update (\<lambda>_. n))) (tl args))
      else if arg = ''--concurrency'' then
        (case parse_unsigned ''stoul'' next_arg of Inl e \<Rightarrow> Inl e
         | Inr n \<Rightarrow> bench_args (with_config opts (concurrency_update (\<lambda>_. n))) (tl args))
      else if arg = ''--get-ratio'' then
        (case stod next_arg of Inl e \<Rightarrow> Inl e
         | Inr x \<Rightarrow> bench_args (with_config opts (get_ratio_update (\<lambda>_. x))) (tl args))
      else if arg = ''--key-space'' then
        (case parse_unsigned ''stoul'' next_arg of Inl e \<Rightarrow> Inl e
         | Inr n \<Rightarrow> bench_args (with_config opts (bench_key_space_update (\<lambda>_. n))) (tl args))
      else if arg = ''--value-size'' then
        (case parse_unsigned ''stoul'' next_arg of Inl e \<Rightarrow> Inl e
         | Inr n \<Rightarrow> bench_args (with_config opts (value_size_update (\<lambda>_. n))) (tl args))
      else if arg = ''--seed'' then
        (case parse_unsigned ''stoull'' next_arg of Inl e \<Rightarrow> Inl e
         | Inr n \<Rightarrow> bench_args (with_config opts (seed_update (\<lambda>_. n))) (tl args))
      else if arg = ''--output'' then bench_args (opts\<lparr>results_path := next_arg\<rparr>) (tl args)
      else if arg = ''--raw-output'' then bench_args (opts\<lparr>raw_output := True\<rparr>) args
      else if arg = ''--help'' then Inr Help
      else Inr (Unknown arg))"

definition bench_usage :: "bytes \<Rightarrow> bytes" where
  "bench_usage prog =
     ''Usage: '' @ prog @ '' [options]'' @ [LF] @
     ''  --host HOST          server host (default: 127.0.0.1)'' @ [LF] @
     ''  --port PORT          server port (default: 6380)'' @ [LF] @
     ''  --requests N         total requests (default: 10000)'' @ [LF] @
     ''  --concurrency N      concurrent connections (default: 50)'' @ [LF] @
     ''  --get-ratio R        fraction of GET requests, 0..1 (default: 0.7)'' @ [LF] @
     ''  --key-space N        number of distinct keys (default: 1000)'' @ [LF] @
     ''  --value-size N       SET value size in bytes (default: 64)'' @ [LF] @
     ''  --seed N             RNG seed (default: 42)'' @ [LF] @
     ''  --output PATH        results JSON path (default: results/<timestamp>.json)'' @ [LF] @
     ''  --raw-output         also write a CSV of every raw latency sample'' @ [LF]"

text \<open>The last place of \<^verbatim>\<open>.json\<close>, and the name of the CSV file.\<close>

definition rfind_json :: "bytes \<Rightarrow> nat option" where
  "rfind_json s =
     (case filter (\<lambda>i. take 5 (drop i s) = ''.json'') [0..<length s] of [] \<Rightarrow> None | i # is \<Rightarrow> Some (last (i # is)))"

definition csv_path :: "bytes \<Rightarrow> bytes" where
  "csv_path path = (case rfind_json path of None \<Rightarrow> path | Some dot \<Rightarrow> take dot path) @ ''.csv''"

definition raw_csv :: "ThreadResult list \<Rightarrow> bytes" where
  "raw_csv results =
     to_csv_header @ concat (map (\<lambda>tr.
       concat (map (\<lambda>v. to_csv_row v ''GET'') (get_latencies_ms tr)) @ concat (map (\<lambda>v. to_csv_row v ''SET'') (set_latencies_ms tr))) results)"

text \<open>After the threads have been joined.\<close>

definition bench_finish :: "(bytes \<Rightarrow> bool) \<Rightarrow> BenchOptions \<Rightarrow> ThreadResult list \<Rightarrow> real \<Rightarrow> outcome" where
  "bench_finish opens opts results seconds =
     (let cfg = bench_config opts; path = results_path opts; result = summarize cfg seconds results;
          text = ''kvbench: running '' @ to_string (requests cfg) @ '' requests across '' @ to_string (concurrency cfg) @
            '' connections against '' @ bench_host cfg @ '':'' @ to_string (unat (bench_port cfg)) @ ''...'' @ [LF] @ print_summary result
      in if \<not> opens path then
           \<lparr>exit_code = 1, out_text = text, err_text = ''kvbench: could not open '' @ path @ '' for writing'' @ [LF], files = []\<rparr>
         else let raw = (raw_output opts \<and> opens (csv_path path)) in
           \<lparr>exit_code = bench_exit_code result,
            out_text = text @ ''Results written to '' @ path @ [LF] @
              (if raw then ''Raw samples written to '' @ csv_path path @ [LF] else []),
            err_text = [],
            files = (path, to_json result) # (if raw then [(csv_path path, raw_csv results)] else [])\<rparr>)"

text \<open>\<^verbatim>\<open>main\<close>; \<open>None\<close> if a thread never ends.\<close>

definition bench_main ::
  "'w os \<Rightarrow> ('w \<Rightarrow> real \<times> 'w) \<Rightarrow> 'g random \<Rightarrow> (nat \<Rightarrow> 'w) \<Rightarrow> real \<Rightarrow> bytes option \<Rightarrow> tm \<Rightarrow> (bytes \<Rightarrow> bool) \<Rightarrow> bytes \<Rightarrow> bytes list \<Rightarrow>
   (exn + outcome) option" where
  "bench_main os now rnd ws seconds pipe t opens prog args =
     (case bench_args default_bench_options args of
        Inl e \<Rightarrow> Some (Inl e)
      | Inr Help \<Rightarrow> Some (Inr (exits 0 (bench_usage prog)))
      | Inr (Unknown arg) \<Rightarrow>
          Some (Inr (exits 1 (''Unknown argument: '' @ arg @ [LF] @ bench_usage prog)))
      | Inr (Options opts) \<Rightarrow>
          if requests (bench_config opts) = 0 \<or> concurrency (bench_config opts) = 0 then
            Some (Inr (exits 1 (''kvbench: --requests and --concurrency must be > 0'' @ [LF])))
          else
            let opts = with_config opts (git_rev_update (\<lambda>_. get_git_rev pipe));
                path = (if results_path opts = [] then ''results/'' @ timestamp_run_id t @ ''.json'' else results_path opts)
            in map_option (\<lambda>results. Inr (bench_finish opens (opts\<lparr>results_path := path\<rparr>) results seconds))
                 (join_threads (bench_threads os now rnd ws (bench_config opts))))"

section \<open>Reading the files back\<close>

text \<open>Bytes a JSON string may hold.\<close>

definition printable :: "bytes \<Rightarrow> bool" where
  "printable s \<longleftrightarrow> list_all (\<lambda>c. 32 \<le> (of_char c :: nat)) s"

lemma json_string_escape: "printable s \<Longrightarrow> json_string (json_escape s @ CHR 0x22 # rest) = Some (s, rest)"
  by (induction s) (auto simp: printable_def json_escape_def)

lemma fgets_prefix: "fgets s @ drop (length (fgets s)) s = s"
proof -
  have "\<exists>n. fgets s = take n s" by (auto simp: fgets_def Let_def min_def split: option.split)
  then obtain n where "fgets s = take n s" ..
  then show ?thesis by (cases "n \<le> length s") (simp_all add: min_def)
qed

lemma pipe_text_id: "CHR 0x00 \<notin> set s \<Longrightarrow> pipe_text s = s"
proof (induction s rule: pipe_text.induct)
  case (1 s)
  show ?case
  proof (cases "s = []")
    case False
    have parts: "set (fgets s) \<subseteq> set s" "set (drop (length (fgets s)) s) \<subseteq> set s"
      by (metis fgets_prefix set_append Un_upper1) (rule set_drop_subset)
    then have "takeWhile (\<lambda>c. c \<noteq> CHR 0x00) (fgets s) = fgets s" using 1(2) by (auto simp: takeWhile_eq_all_conv)
    moreover have "pipe_text (drop (length (fgets s)) s) = drop (length (fgets s)) s" using 1 False parts(2) by blast
    ultimately show ?thesis using False fgets_prefix [of s] by (simp only: pipe_text.simps [of s] if_False)
  qed (simp add: pipe_text.simps)
qed

lemma get_git_rev_line:
  assumes "printable hash" "hash \<noteq> []"
  shows "get_git_rev (Some (hash @ [LF])) = hash"
proof -
  have all: "32 \<le> (of_char c :: nat)" if "c \<in> set hash" for c using assms(1) that by (simp add: printable_def list_all_iff)
  then have "CHR 0x00 \<notin> set (hash @ [LF])" by fastforce
  then have "pipe_text (hash @ [LF]) = hash @ [LF]" by (rule pipe_text_id)
  moreover obtain c s where c: "rev hash = c # s" using assms(2) by (cases "rev hash") simp_all
  then have "32 \<le> (of_char c :: nat)" by (intro all) (metis list.set_intros(1) set_rev)
  then have "c \<noteq> LF \<and> c \<noteq> CR" by auto
  then have "dropWhile (\<lambda>c. c = LF \<or> c = CR) (rev hash) = rev hash" by (simp add: c)
  ultimately show ?thesis using assms(2) by (simp add: get_git_rev_def)
qed

text \<open>The value a file of results stands for.\<close>

definition percentiles_value :: "PercentileStats \<Rightarrow> json" where
  "percentiles_value s = JObj
     [(''p50'', JNum (printed_value (p50_ms s))), (''p95'', JNum (printed_value (p95_ms s))), (''p99'', JNum (printed_value (p99_ms s))),
      (''mean'', JNum (printed_value (mean_ms s))), (''min'', JNum (printed_value (min_ms s))), (''max'', JNum (printed_value (max_ms s)))]"

definition result_value :: "RunResult \<Rightarrow> real \<Rightarrow> json" where
  "result_value r ratio = JObj
     [(''config'', JObj
        [(''host'', JStr (bench_host (config r))), (''port'', JNum (real (unat (bench_port (config r))))),
         (''requests'', JNum (real (requests (config r)))), (''concurrency'', JNum (real (concurrency (config r)))),
         (''get_ratio'', JNum (printed_value ratio)), (''key_space'', JNum (real (bench_key_space (config r)))),
         (''value_size'', JNum (real (value_size (config r)))), (''seed'', JNum (real (seed (config r)))),
         (''git_rev'', JStr (git_rev (config r)))]),
      (''wall_clock_seconds'', JNum (printed_value (wall_clock_seconds r))),
      (''throughput_rps'', JNum (printed_value (throughput_rps r))),
      (''error_count'', JNum (real (error_count r))),
      (''latency_ms'', JObj [(''overall'', percentiles_value (overall r)), (''get'', percentiles_value (get_stats r)),
         (''set'', percentiles_value (set_stats r))])]"

lemma json_lex_percentiles:
  "json_lex (percentiles_json s @ rest) = map_option (append (json_tokens (percentiles_value s))) (json_lex rest)"
  by (cases "json_lex rest") (simp_all add: percentiles_json_def percentiles_value_def json_read del: show_double.simps)

lemma to_json_reads_back:
  assumes "printable (bench_host (config r))" "printable (git_rev (config r))" "get_ratio (config r) = Fin ratio"
  shows "json_text (to_json r) (result_value r ratio)"
  using assms
  by (simp add: to_json_def json_text_def json_read json_string_escape json_lex_percentiles result_value_def del: show_double.simps)

lemma json_string_control: "\<not> printable s \<Longrightarrow> json_string (json_escape s @ rest) = None"
  by (induction s) (auto simp: printable_def json_escape_def)

lemma to_json_control: "\<not> printable (bench_host (config r)) \<Longrightarrow> json_lex (to_json r) = None"
  by (simp add: to_json_def json_read json_string_control del: show_double.simps)

lemma no_LF_show_real: "LF \<notin> set (show_real x)"
  using number_text_double [of x] by (auto simp: number_text_def list_all_iff word_char_def isdigit_def tolower_def simp del: show_double.simps)

lemma raw_csv_lines: "count_list (raw_csv results) LF = 1 + length (all_latencies results)"
proof -
  have rows: "count_list (concat (map (\<lambda>v. to_csv_row v op) vs)) LF = length vs" if "LF \<notin> set op" for op vs
    using that no_LF_show_real by (induction vs) (simp_all add: to_csv_row_def count_notin del: show_double.simps)
  have "count_list (concat (map (\<lambda>tr. concat (map (\<lambda>v. to_csv_row v ''GET'') (get_latencies_ms tr)) @
      concat (map (\<lambda>v. to_csv_row v ''SET'') (set_latencies_ms tr))) results)) LF = length (all_latencies results)"
    by (induction results) (simp_all add: rows all_latencies_def)
  then show ?thesis by (simp add: raw_csv_def to_csv_header_def)
qed

section \<open>Properties\<close>



end
