(* ===== verification/Failover_Main.thy ===== *)
theory Failover_Main
  imports Failover_Bench Bench_Main
begin

text \<open>
  \<^verbatim>\<open>main\<close> of \<^verbatim>\<open>src/tools/failover_bench.cpp\<close>: arguments, threads, the kill, and what \<^verbatim>\<open>kvfailover\<close> prints and writes. As in
  \<^verbatim>\<open>kvbench\<close>, a thread is its worker, run from a world \<open>ws t\<close> of its own. When the kill happened and whether it failed are arguments.

  Shown: the file reads back as the report, which counts every request once; and a duration that is no finite number keeps the program from ever ending.
\<close>

section \<open>Arguments\<close>

record FailoverOptions =
  fo_config :: FailoverConfig
  fo_output :: bytes

definition default_failover_options :: FailoverOptions where
  "default_failover_options = \<lparr>fo_config = default_failover_config, fo_output = []\<rparr>"

definition with_fo_config :: "FailoverOptions \<Rightarrow> (FailoverConfig \<Rightarrow> FailoverConfig) \<Rightarrow> FailoverOptions" where
  "with_fo_config opts f = opts\<lparr>fo_config := f (fo_config opts)\<rparr>"

fun failover_args :: "FailoverOptions \<Rightarrow> bytes list \<Rightarrow> exn + FailoverOptions arguments" where
  "failover_args opts [] = Inr (Options opts)"
| "failover_args opts (arg # args) =
     (let next_arg = (if args = [] then [] else hd args) in
      if arg = ''--host'' then failover_args (with_fo_config opts (fo_host_update (\<lambda>_. next_arg))) (tl args)
      else if arg = ''--port'' then failover_args (with_fo_config opts (fo_port_update (\<lambda>_. of_int (atoi next_arg)))) (tl args)
      else if arg = ''--kill-pid'' then failover_args (with_fo_config opts (kill_pid_update (\<lambda>_. atoi next_arg))) (tl args)
      else if arg = ''--duration-ms'' then
        (case stod next_arg of Inl e \<Rightarrow> Inl e
         | Inr x \<Rightarrow> failover_args (with_fo_config opts (duration_ms_update (\<lambda>_. x))) (tl args))
      else if arg = ''--kill-at-ms'' then
        (case stod next_arg of Inl e \<Rightarrow> Inl e
         | Inr x \<Rightarrow> failover_args (with_fo_config opts (kill_at_ms_update (\<lambda>_. x))) (tl args))
      else if arg = ''--concurrency'' then
        (case parse_unsigned ''stoul'' next_arg of Inl e \<Rightarrow> Inl e
         | Inr n \<Rightarrow> failover_args (with_fo_config opts (fo_concurrency_update (\<lambda>_. n))) (tl args))
      else if arg = ''--get-ratio'' then
        (case stod next_arg of Inl e \<Rightarrow> Inl e
         | Inr x \<Rightarrow> failover_args (with_fo_config opts (fo_get_ratio_update (\<lambda>_. x))) (tl args))
      else if arg = ''--key-space'' then
        (case parse_unsigned ''stoul'' next_arg of Inl e \<Rightarrow> Inl e
         | Inr n \<Rightarrow> failover_args (with_fo_config opts (fo_key_space_update (\<lambda>_. n))) (tl args))
      else if arg = ''--value-size'' then
        (case parse_unsigned ''stoul'' next_arg of Inl e \<Rightarrow> Inl e
         | Inr n \<Rightarrow> failover_args (with_fo_config opts (fo_value_size_update (\<lambda>_. n))) (tl args))
      else if arg = ''--seed'' then
        (case parse_unsigned ''stoull'' next_arg of Inl e \<Rightarrow> Inl e
         | Inr n \<Rightarrow> failover_args (with_fo_config opts (fo_seed_update (\<lambda>_. n))) (tl args))
      else if arg = ''--output'' then failover_args (opts\<lparr>fo_output := next_arg\<rparr>) (tl args)
      else if arg = ''--help'' then Inr Help
      else Inr (Unknown arg))"

definition failover_usage :: "bytes \<Rightarrow> bytes" where
  "failover_usage prog =
     ''Usage: '' @ prog @ '' --kill-pid PID [options]'' @ [LF] @
     ''  --kill-pid PID     PID of the process to SIGKILL mid-run (required)'' @ [LF] @
     ''  --host HOST        router host (default: 127.0.0.1)'' @ [LF] @
     ''  --port PORT        router port (default: 6380)'' @ [LF] @
     ''  --duration-ms N    total run length (default: 6000)'' @ [LF] @
     ''  --kill-at-ms N     when to kill, relative to start (default: 2000)'' @ [LF] @
     ''  --concurrency N    concurrent connections (default: 20)'' @ [LF] @
     ''  --get-ratio R      fraction of GET requests (default: 0.7)'' @ [LF] @
     ''  --key-space N      distinct keys (default: 1000)'' @ [LF] @
     ''  --value-size N     SET value size in bytes (default: 64)'' @ [LF] @
     ''  --seed N           RNG seed (default: 42)'' @ [LF] @
     ''  --output PATH      write a JSON summary to PATH'' @ [LF]"

section \<open>Texts\<close>

text \<open>A signed number.\<close>

definition show_int :: "int \<Rightarrow> bytes" where
  "show_int i = (if i < 0 then CHR ''-'' # to_string (nat (- i)) else to_string (nat i))"

definition start_text :: "FailoverConfig \<Rightarrow> bytes" where
  "start_text cfg =
     ''kvfailover: '' @ to_string (fo_concurrency cfg) @ '' connections against '' @
     fo_host cfg @ '':'' @ to_string (unat (fo_port cfg)) @ '' for '' @ show_double (duration_ms cfg) @
     ''ms, killing pid '' @ show_int (kill_pid cfg) @ '' at t='' @ show_double (kill_at_ms cfg) @ ''ms'' @ [LF]"

text \<open>The messages after the kill, on the two streams; \<open>failure\<close> is the text of its error.\<close>

definition kill_text :: "FailoverConfig \<Rightarrow> real \<Rightarrow> bytes option \<Rightarrow> bytes \<times> bytes" where
  "kill_text cfg kill_ts failure =
     (case failure of
        Some e \<Rightarrow> ([], ''kvfailover: kill('' @ show_int (kill_pid cfg) @ '') failed: '' @ e @ [LF])
      | None \<Rightarrow>
          (''kvfailover: sent SIGKILL to pid '' @ show_int (kill_pid cfg) @ '' at t='' @ show_real kill_ts @ ''ms'' @ [LF], []))"

text \<open>After an error, \<^verbatim>\<open>errors_at_tail\<close> is that the recovery is not bounded.\<close>

definition failover_text :: "FailoverReport \<Rightarrow> bytes" where
  "failover_text r =
     (let t = fo_tally r in
      [LF] @ ''=== Failover Results ==='' @ [LF] @
      ''total requests:      '' @ to_string (total r) @ [LF] @
      ''requests before kill: '' @ to_string (requests_before t) @ '' (errors: '' @ to_string (errors_before t) @
      (if errors_before t = 0 then '', as expected''
       else '', UNEXPECTED -- a request outcome was recorded before the kill '' @
            ''timestamp yet still failed; investigate before trusting this run'') @ '')'' @ [LF] @
      ''requests after kill:  '' @ to_string (requests_after t) @ '' (errors: '' @ to_string (errors_after t) @ '')'' @ [LF] @
      (if \<not> any_error_after t then ''recovery time: 0ms -- no request failed after the kill at all'' @ [LF]
       else if \<not> recovery_bounded r then
         ''recovery time: NOT BOUNDED within this test -- errors were still '' @ ''occurring in the final '' @
         show_real kTailWindowMs @
         ''ms of the run. This looks like a persistent outage (e.g. no '' @
         ''surviving replica for some keys), not a bounded recovery -- '' @
         ''rerun with a longer --duration-ms or check --replicas.'' @ [LF]
       else ''recovery time: '' @ show_real (recovery r) @ ''ms (gap between the kill and the last failed request)'' @ [LF]))"

definition bucket_json :: "int \<times> nat \<times> nat \<Rightarrow> bytes" where
  "bucket_json b =
     (case b of (bucket_start, n, e) \<Rightarrow>
        ''    {'' @ quoted ''bucket_start_ms'' @ '': '' @ show_int bucket_start @ '', '' @ quoted ''requests'' @ '': '' @ to_string n @
        '', '' @ quoted ''errors'' @ '': '' @ to_string e @ ''}'')"

text \<open>The loop over the buckets, with a comma before all but the first.\<close>

definition timeline_json :: "(int, nat \<times> nat) omap \<Rightarrow> bytes" where
  "timeline_json m =
     (case m of [] \<Rightarrow> [] | b # bs \<Rightarrow> bucket_json b @ concat (map (\<lambda>b. '','' @ [LF] @ bucket_json b) bs))"

definition failover_json :: "FailoverConfig \<Rightarrow> real \<Rightarrow> FailoverReport \<Rightarrow> bytes" where
  "failover_json cfg kill_ts r =
     ''{'' @ [LF] @
     ''  '' @ quoted ''config'' @ '': {'' @ [LF] @
     ''    '' @ quoted ''host'' @ '': '' @ quoted (fo_host cfg) @ '','' @ [LF] @
     ''    '' @ quoted ''port'' @ '': '' @ to_string (unat (fo_port cfg)) @ '','' @ [LF] @
     ''    '' @ quoted ''kill_pid'' @ '': '' @ show_int (kill_pid cfg) @ '','' @ [LF] @
     ''    '' @ quoted ''duration_ms'' @ '': '' @ show_double (duration_ms cfg) @ '','' @ [LF] @
     ''    '' @ quoted ''kill_at_ms'' @ '': '' @ show_double (kill_at_ms cfg) @ '','' @ [LF] @
     ''    '' @ quoted ''concurrency'' @ '': '' @ to_string (fo_concurrency cfg) @ '','' @ [LF] @
     ''    '' @ quoted ''get_ratio'' @ '': '' @ show_double (fo_get_ratio cfg) @ '','' @ [LF] @
     ''    '' @ quoted ''key_space'' @ '': '' @ to_string (fo_key_space cfg) @ '','' @ [LF] @
     ''    '' @ quoted ''value_size'' @ '': '' @ to_string (fo_value_size cfg) @ '','' @ [LF] @
     ''    '' @ quoted ''seed'' @ '': '' @ to_string (fo_seed cfg) @ [LF] @
     ''  },'' @ [LF] @
     ''  '' @ quoted ''kill_timestamp_ms'' @ '': '' @ show_real kill_ts @ '','' @ [LF] @
     ''  '' @ quoted ''total_requests'' @ '': '' @ to_string (total r) @ '','' @ [LF] @
     ''  '' @ quoted ''requests_before_kill'' @ '': '' @ to_string (requests_before (fo_tally r)) @ '','' @ [LF] @
     ''  '' @ quoted ''errors_before_kill'' @ '': '' @ to_string (errors_before (fo_tally r)) @ '','' @ [LF] @
     ''  '' @ quoted ''requests_after_kill'' @ '': '' @ to_string (requests_after (fo_tally r)) @ '','' @ [LF] @
     ''  '' @ quoted ''errors_after_kill'' @ '': '' @ to_string (errors_after (fo_tally r)) @ '','' @ [LF] @
     ''  '' @ quoted ''recovery_time_ms'' @ '': '' @ show_real (recovery r) @ '','' @ [LF] @
     ''  '' @ quoted ''recovery_bounded'' @ '': '' @ (if recovery_bounded r then ''true'' else ''false'') @ '','' @ [LF] @
     ''  '' @ quoted ''timeline_100ms_buckets'' @ '': ['' @ [LF] @
     timeline_json (timeline r) @
     [LF] @ ''  ]'' @ [LF] @ ''}'' @ [LF]"

section \<open>The program\<close>

definition failover_threads ::
  "'w os \<Rightarrow> ('w \<Rightarrow> real \<times> 'w) \<Rightarrow> 'g random \<Rightarrow> (nat \<Rightarrow> 'w) \<Rightarrow> real \<Rightarrow> FailoverConfig \<Rightarrow> Sample list option list" where
  "failover_threads os now rnd ws begin_ms cfg =
     map (\<lambda>t. map_option fst (failover_worker os now rnd t cfg begin_ms (ws t))) [0..<fo_concurrency cfg]"

text \<open>After the threads have been joined.\<close>

definition failover_finish ::
  "(bytes \<Rightarrow> bool) \<Rightarrow> FailoverOptions \<Rightarrow> real \<Rightarrow> bytes option \<Rightarrow> Sample list list \<Rightarrow> outcome" where
  "failover_finish opens opts kill_ts failure thread_samples =
     (let cfg = fo_config opts; path = fo_output opts; r = evaluate (duration_ms cfg) kill_ts thread_samples;
          (kill_out, kill_err) = kill_text cfg kill_ts failure;
          text = start_text cfg @ kill_out @ failover_text r
      in if path = [] then \<lparr>exit_code = 0, out_text = text, err_text = kill_err, files = []\<rparr>
         else if \<not> opens path then
           \<lparr>exit_code = 1, out_text = text,
            err_text = kill_err @ ''kvfailover: could not open '' @ path @ '' for writing'' @ [LF], files = []\<rparr>
         else
           \<lparr>exit_code = 0, out_text = text @ [LF] @ ''Results written to '' @ path @ [LF], err_text = kill_err,
            files = [(path, failover_json cfg kill_ts r)]\<rparr>)"

definition failover_main ::
  "'w os \<Rightarrow> ('w \<Rightarrow> real \<times> 'w) \<Rightarrow> 'g random \<Rightarrow> (nat \<Rightarrow> 'w) \<Rightarrow> real \<Rightarrow> real \<Rightarrow> bytes option \<Rightarrow> (bytes \<Rightarrow> bool) \<Rightarrow> bytes \<Rightarrow> bytes list \<Rightarrow>
   (exn + outcome) option" where
  "failover_main os now rnd ws begin_ms kill_ts failure opens prog args =
     (case failover_args default_failover_options args of
        Inl e \<Rightarrow> Some (Inl e)
      | Inr Help \<Rightarrow> Some (Inr (exits 0 (failover_usage prog)))
      | Inr (Unknown arg) \<Rightarrow>
          Some (Inr (exits 1 (''Unknown argument: '' @ arg @ [LF] @ failover_usage prog)))
      | Inr (Options opts) \<Rightarrow>
          let cfg = fo_config opts in
          if kill_pid cfg \<le> 0 then
            Some (Inr (exits 1 (''kvfailover: --kill-pid is required'' @ [LF] @ failover_usage prog)))
          else if dle (duration_ms cfg) (kill_at_ms cfg) then
            Some (Inr (exits 1 (''kvfailover: --kill-at-ms must be less than --duration-ms'' @ [LF])))
          else
            map_option (\<lambda>thread_samples. Inr (failover_finish opens opts kill_ts failure thread_samples))
              (join_threads (failover_threads os now rnd ws begin_ms cfg)))"

section \<open>Reading the file back\<close>

lemma number_text_int: "number_text (show_int i) (real_of_int i)"
proof (cases "i < 0")
  case True
  have "isdigit (hd (to_string (nat (- i))))" by (rule to_string_digits [OF hd_in_set]) simp
  then have "hd (to_string (nat (- i))) \<noteq> CHR ''-''" by (auto simp: isdigit_def)
  then have "json_unsigned (to_string (nat (- i))) = Some (real (nat (- i)))"
    using number_text_nat [of "nat (- i)"] by (simp add: number_text_def json_number_def)
  with True number_text_nat [of "nat (- i)"] show ?thesis by (simp add: number_text_def json_number_def show_int_def word_char_def)
next
  case False
  with number_text_nat [of "nat i"] show ?thesis by (simp add: show_int_def)
qed

lemmas json_lex_int = json_lex_number [OF number_text_int]

text \<open>A text that needs no escapes.\<close>

definition plain :: "bytes \<Rightarrow> bool" where
  "plain s \<longleftrightarrow> printable s \<and> CHR 0x22 \<notin> set s \<and> CHR 0x5C \<notin> set s"

lemma json_string_plain: "plain s \<Longrightarrow> json_string (s @ CHR 0x22 # rest) = Some (s, rest)"
  by (induction s) (auto simp: plain_def printable_def)

lemma json_lex_bool: "json_lex ((if b then ''true'' else ''false'') @ CHR '','' # s)
  = map_option (Cons (TWord (if b then ''true'' else ''false''))) (json_lex (CHR '','' # s))"
  by (simp add: json_lex.simps(2) json_word_def word_char_def tolower_def isdigit_def)

definition bucket_value :: "int \<times> nat \<times> nat \<Rightarrow> json" where
  "bucket_value b = (case b of (bucket_start, n, e) \<Rightarrow>
     JObj [(''bucket_start_ms'', JNum (real_of_int bucket_start)), (''requests'', JNum (real n)), (''errors'', JNum (real e))])"

definition failover_value :: "FailoverConfig \<Rightarrow> real \<Rightarrow> real \<Rightarrow> real \<Rightarrow> real \<Rightarrow> FailoverReport \<Rightarrow> json" where
  "failover_value cfg duration kill_at ratio kill_ts r = JObj
     [(''config'', JObj
        [(''host'', JStr (fo_host cfg)), (''port'', JNum (real (unat (fo_port cfg)))), (''kill_pid'', JNum (real_of_int (kill_pid cfg))),
         (''duration_ms'', JNum (printed_value duration)), (''kill_at_ms'', JNum (printed_value kill_at)),
         (''concurrency'', JNum (real (fo_concurrency cfg))), (''get_ratio'', JNum (printed_value ratio)),
         (''key_space'', JNum (real (fo_key_space cfg))), (''value_size'', JNum (real (fo_value_size cfg))),
         (''seed'', JNum (real (fo_seed cfg)))]),
      (''kill_timestamp_ms'', JNum (printed_value kill_ts)), (''total_requests'', JNum (real (total r))),
      (''requests_before_kill'', JNum (real (requests_before (fo_tally r)))), (''errors_before_kill'', JNum (real (errors_before (fo_tally r)))),
      (''requests_after_kill'', JNum (real (requests_after (fo_tally r)))), (''errors_after_kill'', JNum (real (errors_after (fo_tally r)))),
      (''recovery_time_ms'', JNum (printed_value (recovery r))),
      (''recovery_bounded'', JWord (if recovery_bounded r then ''true'' else ''false'')),
      (''timeline_100ms_buckets'', JArr (map bucket_value (timeline r)))]"

lemma json_lex_bucket: "json_lex (bucket_json b @ rest) = map_option (append (json_tokens (bucket_value b))) (json_lex rest)"
  by (cases b; cases "json_lex rest") (simp_all add: bucket_json_def bucket_value_def json_read json_lex_int)

lemma json_lex_timeline:
  "json_lex (timeline_json m @ rest) = map_option (append (commas (map (\<lambda>b. json_tokens (bucket_value b)) m))) (json_lex rest)"
proof (cases m)
  case (Cons b bs)
  have "json_lex (bucket_json b @ concat (map (\<lambda>b. '','' @ [LF] @ bucket_json b) bs) @ rest)
    = map_option (append (commas (map (\<lambda>b. json_tokens (bucket_value b)) (b # bs)))) (json_lex rest)"
  proof (induction bs arbitrary: b)
    case (Cons a bs)
    show ?case using Cons [of a] by (cases "json_lex rest") (auto simp: json_lex_bucket json_read)
  qed (simp add: json_lex_bucket)
  with Cons show ?thesis by (simp add: timeline_json_def)
qed (cases "json_lex rest"; simp add: timeline_json_def)

lemma failover_json_reads_back:
  assumes "plain (fo_host cfg)" "duration_ms cfg = Fin duration" "kill_at_ms cfg = Fin kill_at" "fo_get_ratio cfg = Fin ratio"
  shows "json_text (failover_json cfg kill_ts r) (failover_value cfg duration kill_at ratio kill_ts r)"
  using assms by (simp add: failover_json_def failover_value_def json_text_def json_read json_lex_int json_lex_bool json_string_plain
    json_lex_timeline comp_def del: show_double.simps if_split)

section \<open>Which runs end\<close>

lemma failover_threads_end:
  assumes "posix_write os sent" "retries_end os budget" "steady_clock os now clock tick" "duration_ms cfg = Fin limit"
  obtains thread_samples where "join_threads (failover_threads os now rnd ws begin_ms cfg) = Some thread_samples"
    "length thread_samples = fo_concurrency cfg" "\<And>samples. samples \<in> set thread_samples \<Longrightarrow> closed_loop samples"
proof -
  have "\<exists>samples. map_option fst (failover_worker os now rnd t cfg begin_ms (ws t)) = Some samples \<and> closed_loop samples" for t
    using failover_worker_measures [OF assms, of rnd t begin_ms "ws t"] by (metis fst_conv option.simps(9))
  then obtain f where f: "\<And>t. map_option fst (failover_worker os now rnd t cfg begin_ms (ws t)) = Some (f t)" "\<And>t. closed_loop (f t)"
    by metis
  show ?thesis by (rule that [of "map f [0..<fo_concurrency cfg]"]) (auto simp: join_threads_def failover_threads_def f)
qed

lemma evaluate_counts:
  assumes "r = evaluate duration kill_ts thread_samples" "samples = concat thread_samples"
  shows "total r = length samples" "requests_before (fo_tally r) + requests_after (fo_tally r) = total r"
    "errors_before (fo_tally r) + errors_after (fo_tally r) = length (filter (\<lambda>s. \<not> sample_ok s) samples)"
    "sum_list (map (\<lambda>b. fst (snd b)) (timeline r)) = total r"
    "sum_list (map (\<lambda>b. snd (snd b)) (timeline r)) = errors_before (fo_tally r) + errors_after (fo_tally r)"
proof -
  let ?s = "sort_key end_ms samples"
  have r: "total r = length samples" "fo_tally r = tally kill_ts ?s" "timeline r = buckets ?s"
    using assms by (simp_all add: evaluate_def Let_def)
  have len: "length (filter P ?s) = length (filter P samples)" for P by (metis mset_filter mset_sort size_mset)
  show "total r = length samples" by (rule r)
  show "requests_before (fo_tally r) + requests_after (fo_tally r) = total r"
    using sum_length_filter_compl [of "\<lambda>s. end_ms s < kill_ts" samples] unfolding r by (simp add: tally_counts len not_less)
  show errors: "errors_before (fo_tally r) + errors_after (fo_tally r) = length (filter (\<lambda>s. \<not> sample_ok s) samples)"
    unfolding r tally_counts len by (induction samples) (auto simp: failed_after_def)
  show "sum_list (map (\<lambda>b. fst (snd b)) (timeline r)) = total r" unfolding r by (simp add: buckets_counts)
  show "sum_list (map (\<lambda>b. snd (snd b)) (timeline r)) = errors_before (fo_tally r) + errors_after (fo_tally r)"
    unfolding errors unfolding r by (simp add: buckets_counts len)
qed

section \<open>Properties\<close>



text \<open>
  C40: \<^verbatim>\<open>kvfailover --duration-ms nan\<close> never ends, and neither does \<^verbatim>\<open>--duration-ms inf\<close>: both pass the check against
  \<^verbatim>\<open>--kill-at-ms\<close>, no time is at or past them, and so a worker that has connected sends requests forever and \<^verbatim>\<open>main\<close> waits for it.
\<close>

theorem failover_endless:
  assumes "failover_args default_failover_options args = Inr (Options opts)" "cfg = fo_config opts" "0 < kill_pid cfg"
    and "duration_ms cfg = NaN \<or> duration_ms cfg = Inf False \<and> kill_at_ms cfg = Fin kill_at"
    and "t < fo_concurrency cfg" "connect_to os (fo_host cfg) (fo_port cfg) (ws t) = Some (Inr sock, w1)"
      "set_tcp_nodelay os (sock_fd sock) w1 = Some (Inr (), w2)"
  shows "failover_main os now rnd ws begin_ms kill_ts failure opens prog args = None"
proof -
  have "\<not> dle (duration_ms cfg) (Fin x)" for x using assms(4) by auto
  then have "failover_worker os now rnd t cfg begin_ms (ws t) = None"
    using assms(6,7) by (simp add: failover_worker_def failover_loop_diverges)
  then have "None \<in> set (failover_threads os now rnd ws begin_ms cfg)"
    using assms(5) by (force simp: failover_threads_def)
  moreover have "\<not> dle (duration_ms cfg) (kill_at_ms cfg)" using assms(4) by auto
  ultimately show ?thesis using assms(1-3) by (simp add: failover_main_def join_threads_def)
qed

theorem failover_endless_witness:
  "failover_main small_os demo_now demo_random (\<lambda>_. small_world0 (\<lambda>_. [])) 0 2001 None (\<lambda>_. True) ''kvfailover''
      [''--kill-pid'', ''7'', ''--duration-ms'', ''nan''] = None"
proof -
  let ?opts = "default_failover_options\<lparr>fo_config := default_failover_config\<lparr>kill_pid := 7, duration_ms := NaN\<rparr>\<rparr>"
  let ?w = "small_world0 (\<lambda>_. [])"
  have "atoi ''7'' = 7" by code_simp
  moreover have "stod ''nan'' = Inr NaN" by (simp add: stod_def isspace_def tolower_def Let_def)
  ultimately have args: "failover_args default_failover_options [''--kill-pid'', ''7'', ''--duration-ms'', ''nan''] = Inr (Options ?opts)"
    by (simp add: with_fo_config_def default_failover_options_def)
  have connected: "connect_to small_os h p ?w = Some (Inr \<lparr>sock_fd = 3\<rparr>, ?w\<lparr>dw_open := 3 # dw_open ?w\<rparr>)" for h p
    by (simp add: connect_to_def io_bind_def io_call_def io_return_def small_os_def small_world0_def Let_def)
  have nodelay: "set_tcp_nodelay small_os (sock_fd \<lparr>sock_fd = 3\<rparr>) w = Some (Inr (), w)" for w
    by (simp add: set_tcp_nodelay_def io_bind_def io_call_def io_return_def small_os_def)
  have cfg: "0 < kill_pid (fo_config ?opts)"
    "duration_ms (fo_config ?opts) = NaN \<or> duration_ms (fo_config ?opts) = Inf False \<and> kill_at_ms (fo_config ?opts) = Fin 0"
    "0 < fo_concurrency (fo_config ?opts)" by (simp_all add: default_failover_config_def)
  show ?thesis by (rule failover_endless [where t = 0, OF args refl cfg connected nodelay])
qed

end
