(* ===== verification/Spec2Isabelle.thy ===== *)
theory Spec2Isabelle
  imports Protocol_Stream Hash_Report Store_Concurrency Router_Audit Client Failover_Main
begin

text \<open>
  A verification development for the distributed key-value store under \<^verbatim>\<open>src/\<close>.

  \<^bold>\<open>The program.\<close> Clients speak a line-oriented protocol over TCP (\<^verbatim>\<open>GET\<close>, \<^verbatim>\<open>SET\<close>, \<^verbatim>\<open>DELETE\<close>, \<^verbatim>\<open>PING\<close>). A server process
  (\<^verbatim>\<open>src/server\<close>) accepts connections in one thread and hands each to one of several reactors, which poll their
  connections, parse requests and run them on one sharded store. A router process (\<^verbatim>\<open>src/router\<close>) speaks the same protocol to clients, finds
  the replicas of a key on a consistent-hash ring, forwards writes to every live replica and reads to the first that answers,
  and keeps a table of live nodes with a heartbeat. \<^verbatim>\<open>src/client\<close> is a command-line client, \<^verbatim>\<open>src/benchmark\<close> and
  \<^verbatim>\<open>src/tools\<close> measure throughput, the failover and the balance of the ring.

  \<^bold>\<open>Theories and sources.\<close> The definitions of a theory follow the order of the source.
  \<^item> \<open>Kv_Prelude\<close>, \<open>Arguments\<close>, \<open>Floating\<close>: strings, numbers and exceptions as the sources use them from the standard library, among them how \<^verbatim>\<open>double\<close> is read
    by \<^verbatim>\<open>std::stod\<close> and printed by a stream. \<open>Json\<close> is a reader for the files the tools write; it models no source, but says what they must be.
  \<^item> \<open>Framing\<close>, \<open>Protocol\<close>, \<open>Protocol_Stream\<close>, \<open>Protocol_Bounds\<close>: \<^verbatim>\<open>common/protocol.cpp\<close>. The locale \<open>framing\<close>, interpreted for the request
    and the response codec, gives round trips and independence of the segmentation of the stream. The accepted requests, the error messages
    and the size of an unfinished message are determined, the last also for the buffers of a whole reactor.
  \<^item> \<open>Hashing\<close>, \<open>Ordered_Map\<close>, \<open>Hash_Ring\<close>: \<^verbatim>\<open>common/hash_ring.cpp\<close>. 64-bit hashes as words; \<^verbatim>\<open>std::map\<close> as the locale
    \<open>ordered_map\<close> with a sorted list as its instance. Owners and replica lists are characterised, and a new or removed node moves
    only its own keys.
  \<^item> \<open>Kv_Store\<close>, \<open>Store_Concurrency\<close>: \<^verbatim>\<open>server/kv_store.cpp\<close>. The sharded store refines one map (locale \<open>key_value_store\<close>); opened up into
    its lock, map and counter steps it is linearizable under every interleaving.
  \<^item> \<open>Net_Io\<close>: \<^verbatim>\<open>common/socket_utils.cpp\<close> and \<^verbatim>\<open>send_request\<close>. Write loops, the exchange with a peer, ownership of descriptors.
  \<^item> \<open>Reactor\<close>, \<open>Server\<close>: \<^verbatim>\<open>server/worker_reactor.cpp\<close>, \<^verbatim>\<open>server/server.cpp\<close>. A connection is a sequential client of the
    specification; the poll vector and the parser table stay in step; the round robin is fair; the hand-over of connections between the two
    threads, an inductive step relation, loses no wake-up.
  \<^item> \<open>Failure_Detector\<close>, \<open>Router\<close>, \<open>Cluster\<close>, \<open>Router_Concurrency\<close>, \<open>Router_Audit\<close>: \<^verbatim>\<open>src/router\<close>. The locale \<open>liveness_table\<close> is the table the router consults. \<open>Router\<close> is
    stated over the contract \<open>kv_backends\<close> of the nodes, and \<open>Cluster\<close> discharges it with nodes that run the modelled reactor loop
    under arbitrary faults: a client of the router sees one map, or an error, for every request it sends. \<open>Router_Concurrency\<close> opens the two
    routing loops into steps and interleaves any number of client threads with the heartbeat: without failures all runs are linearizable,
    and replicas agree on every key that has one writer at a time, but not on keys with concurrent writers. \<open>Router_Audit\<close> shows what
    remains with failures: nodes apply nothing but clients' requests, each at most once, and every answer is one a replica gave.
  \<^item> \<open>Command_Line\<close>, \<open>Client\<close>: the \<^verbatim>\<open>main\<close> functions of the server, the router and the client.
  \<^item> \<open>Hash_Report\<close>, \<open>Benchmark\<close>, \<open>Failover_Bench\<close>: \<^verbatim>\<open>tools/hash_report.cpp\<close>, \<^verbatim>\<open>src/benchmark\<close>, \<^verbatim>\<open>tools/failover_bench.cpp\<close>. What the reported
    numbers are: shares of keys, counts of requests, order statistics, the time after which no request failed.
  \<^item> \<open>Bench_Main\<close>, \<open>Failover_Main\<close>: the rest of \<^verbatim>\<open>benchmark/main.cpp\<close>, \<^verbatim>\<open>benchmark/stats.cpp\<close> and \<^verbatim>\<open>tools/failover_bench.cpp\<close>. The whole programs, from
    their arguments to the files, which read back as the results of the run.

  \<^bold>\<open>Effects.\<close> A C++ object is a record, passed and returned. Operations with effects take the system calls as an argument (record \<open>os\<close>, over
  any type of worlds) and return \<open>None\<close> when they never return, otherwise the result or the exception and the new world. Loops that may
  not end are partial functions with \<open>None\<close> for that; there is no fuel. Where a loop has to end, that it returns is proved
  (\<open>get_nodes\<close>, the write loops, \<open>send_request\<close>, the router's requests, the workers of the benchmarks), and where it does not, that it
  diverges (\<open>get_nodes\<close> with duplicate nodes, an over-long line in \<open>service_client\<close>, \<open>failover_main\<close> with a duration that is no finite number). Of the loops that run for
  ever by design, \<open>reactor_run\<close>, \<open>server_run\<close> and \<open>heartbeat_loop\<close> are reasoned about through one iteration or \<open>n\<close> iterations of their
  body; the accept loop of the router (\<open>router_run\<close>) is defined only.

  \<^bold>\<open>Hypotheses.\<close> What the kernel promises is a named predicate: \<open>posix_write\<close>, \<open>posix_read\<close>, \<open>posix_fds\<close>, and \<open>retries_end\<close> (writes are not
  interrupted for ever). So are the peers of a component (\<open>serves\<close>, \<open>kv_backends\<close>, \<open>client_channel\<close>), the clock (\<open>steady_clock\<close>) and the
  random numbers (\<open>draws_in_range\<close>). Each is satisfied by a concrete instance, which the witnesses of the properties use.

  \<^bold>\<open>Numbers.\<close> Hashes, the size counter and ports are words. Sizes of containers are natural numbers: nothing in memory reaches \<open>2 ^ 64\<close>.
  A \<^verbatim>\<open>double\<close> is a real number; where a program can meet infinities or a NaN, in arguments and quotients, it has the type \<open>double\<close>, which adds them.
  Arithmetic is exact: rounding to 53 bits is not modelled, rounding to the six digits of a printed number is.

  \<^bold>\<open>Programs.\<close> A program that ends leaves an \<open>outcome\<close>: exit code, texts, files. A thread of a measuring tool is its worker function, run from a world of
  its own, which stands for whatever the other threads and the network do around it; joining gives \<open>None\<close> if one of them never ends.
  What only the surroundings know (the text of git, the time, the moment and the result of the kill, which files can be opened) are arguments.

  \<^bold>\<open>Not modelled.\<close>
  \<^item> Running out of memory, threads or disk space, and the messages that workers of the measuring tools print when they cannot connect: their order
    depends on the threads.
  \<^item> What replicas hold once exchanges have failed under several concurrent clients: \<open>Cluster\<close> settles it for a client thread that has the
    detector for itself, \<open>Router_Audit\<close> only bounds it. Nor is there a
    claim about a node that comes back with old contents, which the documentation names as a gap.
  \<^item> \<^verbatim>\<open>SIGPIPE\<close>: a write to a closed connection is an error of the call here.
  \<^item> Destructors that only detach threads, and the tests and scripts of the repository.
\<close>

end
